(* ===== verification/Prelude.thy ===== *)
theory Prelude
  imports Main "HOL-Library.Word" "HOL-Library.Monad_Syntax"
begin

text \<open>
  Shared ground of the kernel development.

  \<^item> Machine integers.  \<^verbatim>\<open>build.sh\<close> runs \<^verbatim>\<open>cargo build\<close>, the debug profile, so Rust's
    \<open>+\<close>, \<open>-\<close> and \<open>*\<close> on \<^verbatim>\<open>usize\<close>/\<^verbatim>\<open>u64\<close> panic on overflow, while \<^verbatim>\<open><<\<close> silently drops
    the bits it shifts out.  A \<^verbatim>\<open>usize\<close> or \<^verbatim>\<open>u64\<close> is a natural number below \<open>2 ^ 64\<close> and
    every operation that can panic is one of the checked operations below, in the option
    monad: \<open>None\<close> is a kernel panic (or a fault on a null pointer), \<open>Some\<close> a normal return.
  \<^item> Bit counting: the integer intrinsics the allocators use.
  \<^item> Memory: a map from addresses to bytes, with little-endian 64-bit loads and stores, and
    the frame lemmas by which the components reason about disjoint accesses.
\<close>

unbundle bit_operations_syntax

type_synonym usize = nat
type_synonym u8 = "8 word"
type_synonym mem = "nat \<Rightarrow> u8"

named_theorems checked \<open>when a checked operation returns, and what\<close>
named_theorems mem_frame \<open>a load is not affected by a disjoint store\<close>

section \<open>Checked machine arithmetic\<close>

definition uadd :: "usize \<Rightarrow> usize \<Rightarrow> usize option" where
  "uadd a b = (if a + b < 2 ^ 64 then Some (a + b) else None)"

definition usub :: "usize \<Rightarrow> usize \<Rightarrow> usize option" where
  "usub a b = (if b \<le> a then Some (a - b) else None)"

definition umul :: "usize \<Rightarrow> usize \<Rightarrow> usize option" where
  "umul a b = (if a * b < 2 ^ 64 then Some (a * b) else None)"

definition ushl :: "usize \<Rightarrow> nat \<Rightarrow> usize option" where
  "ushl a k = (if k < 64 then Some ((a * 2 ^ k) mod 2 ^ 64) else None)"

definition ushr :: "usize \<Rightarrow> nat \<Rightarrow> usize option" where
  "ushr a k = (if k < 64 then Some (a div 2 ^ k) else None)"

definition udiv :: "usize \<Rightarrow> usize \<Rightarrow> usize option" where
  "udiv a b = (if b = 0 then None else Some (a div b))"

lemma uadd_iff [checked]: "uadd a b = Some c \<longleftrightarrow> a + b < 2 ^ 64 \<and> c = a + b"
  by (auto simp: uadd_def)

lemma usub_iff [checked]: "usub a b = Some c \<longleftrightarrow> b \<le> a \<and> c = a - b"
  by (auto simp: usub_def)

lemma umul_iff [checked]: "umul a b = Some c \<longleftrightarrow> a * b < 2 ^ 64 \<and> c = a * b"
  by (auto simp: umul_def)

lemma ushl_iff [checked]: "ushl a k = Some c \<longleftrightarrow> k < 64 \<and> c = (a * 2 ^ k) mod 2 ^ 64"
  by (auto simp: ushl_def)

lemma ushr_iff [checked]: "ushr a k = Some c \<longleftrightarrow> k < 64 \<and> c = a div 2 ^ k"
  by (auto simp: ushr_def)

lemma udiv_iff [checked]: "udiv a b = Some c \<longleftrightarrow> b \<noteq> 0 \<and> c = a div b"
  by (auto simp: udiv_def)

lemma uadd_ok: "a + b < 2 ^ 64 \<Longrightarrow> uadd a b = Some (a + b)"
  and usub_ok: "b \<le> a \<Longrightarrow> usub a b = Some (a - b)"
  and umul_ok: "a * b < 2 ^ 64 \<Longrightarrow> umul a b = Some (a * b)"
  and ushr_ok: "k < 64 \<Longrightarrow> ushr a k = Some (a div 2 ^ k)"
  and udiv_ok: "b \<noteq> 0 \<Longrightarrow> udiv a b = Some (a div b)"
  by (simp_all add: uadd_def usub_def umul_def ushr_def udiv_def)

lemma ushl_ok: "k < 64 \<Longrightarrow> a * 2 ^ k < 2 ^ 64 \<Longrightarrow> ushl a k = Some (a * 2 ^ k)"
  by (simp add: ushl_def)

lemma ushl_one: "k < 64 \<Longrightarrow> ushl 1 k = Some (2 ^ k)"
proof -
  assume "k < 64"
  then have "(2::nat) ^ k < 2 ^ 64" by (intro power_strict_increasing) simp_all
  with \<open>k < 64\<close> show ?thesis by (simp add: ushl_def)
qed

lemmas ushl_Suc_0 = ushl_one [unfolded One_nat_def]

lemmas checked_ok = uadd_ok usub_ok umul_ok ushr_ok udiv_ok ushl_ok ushl_one ushl_Suc_0

text \<open>Masking the low bits of an address off, \<^verbatim>\<open>x & !(2^k - 1)\<close>, is rounding down.\<close>

definition mask_low :: "nat \<Rightarrow> usize \<Rightarrow> usize" where
  "mask_low k a = a div 2 ^ k * 2 ^ k"

lemma mask_low_le [simp]: "mask_low k a \<le> a"
  by (simp add: mask_low_def)

lemma mask_low_gt: "a < mask_low k a + 2 ^ k"
proof -
  have "a mod 2 ^ k < 2 ^ k" by simp
  then show ?thesis using div_mult_mod_eq [of a "2 ^ k"] unfolding mask_low_def by linarith
qed

lemma mask_low_dvd [simp]: "2 ^ k dvd mask_low k a"
  by (simp add: mask_low_def)

lemma mask_low_id: "2 ^ k dvd a \<Longrightarrow> mask_low k a = a"
  by (simp add: mask_low_def)

lemma mask_low_bit: "bit (mask_low k a) n \<longleftrightarrow> k \<le> n \<and> bit a n"
  by (simp add: mask_low_def flip: push_bit_eq_mult drop_bit_eq_div)
    (auto simp: bit_simps)

lemma mask_low_mono: "a \<le> b \<Longrightarrow> mask_low k a \<le> mask_low k b"
  by (simp add: mask_low_def div_le_mono)

section \<open>Bit counting\<close>

text \<open>\<^verbatim>\<open>x & !y\<close> on naturals.\<close>

definition and_not :: "usize \<Rightarrow> usize \<Rightarrow> usize" where
  "and_not x y = x - (x AND y)"

fun bit_length :: "nat \<Rightarrow> nat" where
  "bit_length n = (if n = 0 then 0 else Suc (bit_length (n div 2)))"

declare bit_length.simps [simp del]

definition leading_zeros :: "usize \<Rightarrow> nat" where
  "leading_zeros n = 64 - bit_length n"

fun trailing_zeros :: "usize \<Rightarrow> nat" where
  "trailing_zeros n = (if n = 0 then 64 else if odd n then 0 else Suc (trailing_zeros (n div 2)))"

declare trailing_zeros.simps [simp del]

definition next_power_of_two :: "usize \<Rightarrow> usize option" where
  "next_power_of_two n =
     (if n \<le> 1 then Some 1
      else if bit_length (n - 1) < 64 then Some (2 ^ bit_length (n - 1)) else None)"

lemma bit_length_0 [simp]: "bit_length 0 = 0"
  by (simp add: bit_length.simps)

lemma bit_length_less: "n < 2 ^ bit_length n"
proof (induction n rule: bit_length.induct)
  case (1 n)
  show ?case
  proof (cases "n = 0")
    case False
    with "1" have "n div 2 < 2 ^ bit_length (n div 2)" by simp
    then have "n < 2 * 2 ^ bit_length (n div 2)" by linarith
    with False show ?thesis by (subst bit_length.simps) simp
  qed simp
qed

lemma bit_length_ge: "n \<noteq> 0 \<Longrightarrow> 2 ^ (bit_length n - 1) \<le> n"
proof (induction n rule: bit_length.induct)
  case (1 n)
  show ?case
  proof (cases "n div 2 = 0")
    case True
    then have "n = 1" using "1.prems" by arith
    then show ?thesis by (simp add: bit_length.simps)
  next
    case False
    then have "bit_length (n div 2) \<noteq> 0" by (simp add: bit_length.simps)
    then obtain k where k: "bit_length (n div 2) = Suc k" by (cases "bit_length (n div 2)") auto
    from False "1" k have "2 ^ k \<le> n div 2" by simp
    then have "2 * 2 ^ k \<le> n" by linarith
    with "1.prems" k show ?thesis by (subst bit_length.simps) simp
  qed
qed

lemma bit_length_le: "n < 2 ^ k \<Longrightarrow> bit_length n \<le> k"
proof (cases "n = 0")
  case False
  assume "n < 2 ^ k"
  with bit_length_ge [OF False] have "(2::nat) ^ (bit_length n - 1) < 2 ^ k" by linarith
  then have "bit_length n - 1 < k" by simp
  then show ?thesis by simp
qed simp

lemma trailing_zeros_dvd: "n \<noteq> 0 \<Longrightarrow> 2 ^ trailing_zeros n dvd n"
proof (induction n rule: trailing_zeros.induct)
  case (1 n)
  show ?case
  proof (cases "odd n")
    case True
    with "1.prems" show ?thesis by (simp add: trailing_zeros.simps)
  next
    case False
    with "1.prems" have "n div 2 \<noteq> 0" by auto
    with "1" False have "2 ^ trailing_zeros (n div 2) dvd n div 2" by simp
    then have "2 * 2 ^ trailing_zeros (n div 2) dvd 2 * (n div 2)" by simp
    with False "1.prems" show ?thesis by (subst trailing_zeros.simps) simp
  qed
qed

lemma trailing_zeros_max: "n \<noteq> 0 \<Longrightarrow> 2 ^ k dvd n \<Longrightarrow> k \<le> trailing_zeros n"
proof (induction n arbitrary: k rule: trailing_zeros.induct)
  case (1 n)
  show ?case
  proof (cases k)
    case (Suc j)
    with "1.prems" have "even n" by auto
    then obtain q where q: "n = 2 * q" by blast
    with "1.prems" Suc have "2 ^ j dvd q" "q \<noteq> 0" by auto
    with "1.IH" [of j] q have "j \<le> trailing_zeros q" by auto
    with q \<open>q \<noteq> 0\<close> Suc show ?thesis by (subst trailing_zeros.simps) simp
  qed simp
qed

lemma trailing_zeros_power [simp]: "trailing_zeros (2 ^ k) = k"
proof (rule antisym)
  have "(2::nat) ^ trailing_zeros (2 ^ k) dvd 2 ^ k" by (rule trailing_zeros_dvd) simp
  then show "trailing_zeros (2 ^ k) \<le> k" by (simp add: dvd_power_iff_le)
  show "k \<le> trailing_zeros (2 ^ k)" by (rule trailing_zeros_max) simp_all
qed

section \<open>Memory\<close>

definition rd64 :: "mem \<Rightarrow> usize \<Rightarrow> nat" where
  "rd64 m a = (\<Sum>i<8. unat (m (a + i)) * 256 ^ i)"

definition wr64 :: "mem \<Rightarrow> usize \<Rightarrow> nat \<Rightarrow> mem" where
  "wr64 m a v = (\<lambda>x. if a \<le> x \<and> x < a + 8 then of_nat (v div 256 ^ (x - a)) else m x)"

definition wr_bytes :: "mem \<Rightarrow> usize \<Rightarrow> u8 \<Rightarrow> nat \<Rightarrow> mem" where
  "wr_bytes m a v n = (\<lambda>x. if a \<le> x \<and> x < a + n then v else m x)"

lemma digit_sum: "(\<Sum>i<n. v div 256 ^ i mod 256 * 256 ^ i) = v mod 256 ^ n" for v :: nat
proof (induction n)
  case (Suc n)
  then show ?case
    by (simp add: mod_mult2_eq [of v "256 ^ n" 256, unfolded mult.commute [of "256 ^ n"]]
        mult.commute)
qed simp

lemma rd64_wr64_same: "v < 2 ^ 64 \<Longrightarrow> rd64 (wr64 m a v) a = v"
proof -
  assume "v < 2 ^ 64"
  have "rd64 (wr64 m a v) a = (\<Sum>i<8. v div 256 ^ i mod 256 * 256 ^ i)"
    unfolding rd64_def wr64_def by (rule sum.cong) (simp_all add: unat_of_nat)
  also have "\<dots> = v mod 256 ^ 8" by (rule digit_sum)
  also have "\<dots> = v" using \<open>v < 2 ^ 64\<close> by simp
  finally show ?thesis .
qed

lemma rd64_cong: "(\<And>x. a \<le> x \<Longrightarrow> x < a + 8 \<Longrightarrow> m x = m' x) \<Longrightarrow> rd64 m a = rd64 m' a"
  by (simp add: rd64_def)

lemma rd64_wr64_other [mem_frame]:
  "a + 8 \<le> b \<or> b + 8 \<le> a \<Longrightarrow> rd64 (wr64 m a v) b = rd64 m b"
  by (rule rd64_cong) (auto simp: wr64_def)

lemma wr64_byte_other [mem_frame]: "x < a \<or> a + 8 \<le> x \<Longrightarrow> wr64 m a v x = m x"
  by (auto simp: wr64_def)

lemma rd64_upd_other [mem_frame]: "x < a \<or> a + 8 \<le> x \<Longrightarrow> rd64 (m(x := v)) a = rd64 m a"
  by (rule rd64_cong) auto

lemma rd64_wr_bytes_other [mem_frame]:
  "a + n \<le> b \<or> b + 8 \<le> a \<Longrightarrow> rd64 (wr_bytes m a v n) b = rd64 m b"
  by (rule rd64_cong) (auto simp: wr_bytes_def)

lemma wr_bytes_other [mem_frame]: "x < a \<or> a + n \<le> x \<Longrightarrow> wr_bytes m a v n x = m x"
  by (auto simp: wr_bytes_def)

lemma rd64_zeroed: "a \<le> b \<Longrightarrow> b + 8 \<le> a + n \<Longrightarrow> rd64 (wr_bytes m a 0 n) b = 0"
  by (simp add: rd64_def wr_bytes_def)

lemma byte_sum_bound: "(\<Sum>i<n. unat (m (a + i)) * 256 ^ i) < 256 ^ n" for m :: mem
proof (induction n)
  case (Suc n)
  have "unat (m (a + n)) \<le> 255" using unsigned_less [of "m (a + n)", where 'a = nat] by simp
  then have "unat (m (a + n)) * 256 ^ n \<le> 255 * 256 ^ n" by (rule mult_le_mono1)
  with Suc have "(\<Sum>i<n. unat (m (a + i)) * 256 ^ i) + unat (m (a + n)) * 256 ^ n
      < 256 ^ n + 255 * 256 ^ n" by linarith
  then show ?case by simp
qed simp

lemma rd64_bound: "rd64 m a < 2 ^ 64"
  using byte_sum_bound [of m a 8] by (simp add: rd64_def)

text \<open>32-bit loads and stores.\<close>

definition rd32 :: "mem \<Rightarrow> usize \<Rightarrow> nat" where
  "rd32 m a = (\<Sum>i<4. unat (m (a + i)) * 256 ^ i)"

definition wr32 :: "mem \<Rightarrow> usize \<Rightarrow> nat \<Rightarrow> mem" where
  "wr32 m a v = (\<lambda>x. if a \<le> x \<and> x < a + 4 then of_nat (v div 256 ^ (x - a)) else m x)"

lemma rd32_bound: "rd32 m a < 2 ^ 32"
  using byte_sum_bound [of m a 4] by (simp add: rd32_def)

section \<open>Loops\<close>

text \<open>A Rust \<open>for\<close> loop over a sequence, with the loop state threaded through the body; a panic in
  the body ends the loop.\<close>

fun for_in :: "'a list \<Rightarrow> ('a \<Rightarrow> 's \<Rightarrow> 's option) \<Rightarrow> 's \<Rightarrow> 's option" where
  "for_in [] f s = Some s"
| "for_in (x # xs) f s = do { s \<leftarrow> f x s; for_in xs f s }"

lemma for_in_append: "for_in (xs @ ys) f s = do { s \<leftarrow> for_in xs f s; for_in ys f s }"
  by (induction xs arbitrary: s) (auto split: bind_split)

lemma for_in_snoc: "for_in (xs @ [x]) f s = do { s \<leftarrow> for_in xs f s; f x s }"
  by (simp add: for_in_append split: bind_split)

text \<open>The loop rule for \<open>for k in lo..hi\<close>: an invariant indexed by the counter.\<close>

lemma for_range:
  assumes "\<And>k s. lo \<le> k \<Longrightarrow> k < hi \<Longrightarrow> P k s \<Longrightarrow> \<exists>s'. f k s = Some s' \<and> P (Suc k) s'"
    and "lo \<le> hi" and "P lo s"
  shows "\<exists>s'. for_in [lo..<hi] f s = Some s' \<and> P hi s'"
  using assms
proof (induction hi)
  case 0
  then show ?case by simp
next
  case (Suc hi)
  show ?case
  proof (cases "lo \<le> hi")
    case True
    with Suc obtain s1 where s1: "for_in [lo..<hi] f s = Some s1" "P hi s1" by fastforce
    with Suc.prems(1) [OF True _ s1(2)] True show ?thesis by (auto simp: for_in_snoc)
  next
    case False
    with Suc.prems have "lo = Suc hi" by simp
    with Suc.prems(3) show ?thesis by simp
  qed
qed

text \<open>The loop rule for a loop over a list: an invariant indexed by the elements done.\<close>

lemma for_in_inv:
  assumes "\<And>ys y zs s. xs = ys @ y # zs \<Longrightarrow> P ys s \<Longrightarrow> \<exists>s'. f y s = Some s' \<and> P (ys @ [y]) s'"
    and "P [] s"
  shows "\<exists>s'. for_in xs f s = Some s' \<and> P xs s'"
proof -
  have "\<exists>s'. for_in zs f s = Some s' \<and> P (ys @ zs) s'" if "xs = ys @ zs" "P ys s" for ys zs s
    using that
  proof (induction zs arbitrary: ys s)
    case Nil
    then show ?case by simp
  next
    case (Cons z zs)
    from assms(1) [OF Cons.prems] obtain s1 where s1: "f z s = Some s1" "P (ys @ [z]) s1" by blast
    from Cons.IH [of "ys @ [z]" s1] Cons.prems(1) s1 show ?case by auto
  qed
  from this [of "[]" xs s] assms(2) show ?thesis by simp
qed

end
