(* ===== verification/Buddy.thy ===== *)
theory Buddy
  imports Prelude
begin

text \<open>
  The binary-buddy frame allocator of \<^verbatim>\<open>src/mm/buddy.rs\<close>.

  A free block holds its own list node: \<open>next\<close> in the first eight bytes and \<open>prev\<close> in the
  following eight (the struct is not \<^verbatim>\<open>repr(C)\<close>; both fields are pointers, so either order is
  the same model up to renaming).  The state of an operation is the memory together with the
  allocator struct.  The first part of the theory is the code; the second part relates it to
  an abstract allocator, a function from orders to the list of free blocks.
\<close>

section \<open>The code\<close>

definition MAX_ORDER :: nat where [simp]: "MAX_ORDER = 11"

record buddy_allocator =
  free_list :: "usize list"
  bitmap :: usize
  bitmap_size :: usize
  base_addr :: usize

type_synonym buddy_st = "mem \<times> buddy_allocator"

text \<open>The two fields of a \<^verbatim>\<open>FreeBlock\<close> stored at address \<open>p\<close>.\<close>

definition fb_next :: "mem \<Rightarrow> usize \<Rightarrow> usize" where "fb_next m p = rd64 m p"
definition fb_prev :: "mem \<Rightarrow> usize \<Rightarrow> usize" where "fb_prev m p = rd64 m (p + 8)"
definition set_next :: "mem \<Rightarrow> usize \<Rightarrow> usize \<Rightarrow> mem" where "set_next m p v = wr64 m p v"
definition set_prev :: "mem \<Rightarrow> usize \<Rightarrow> usize \<Rightarrow> mem" where "set_prev m p v = wr64 m (p + 8) v"

definition size_to_order :: "usize \<Rightarrow> nat option" where
  "size_to_order size_in_bytes = do {
     t \<leftarrow> uadd size_in_bytes 4095;
     pages \<leftarrow> ushr t 12;
     p \<leftarrow> next_power_of_two pages;
     let order = trailing_zeros p;
     Some (min order 10)
   }"

definition calculate_bitmap_size :: "usize \<Rightarrow> usize option" where
  "calculate_bitmap_size highest_physical_address = do {
     raw_bytes \<leftarrow> ushr highest_physical_address 16;
     t \<leftarrow> uadd raw_bytes 4095;
     Some (mask_low 12 t)
   }"

definition buddy_init :: "usize \<Rightarrow> usize \<Rightarrow> usize \<Rightarrow> buddy_allocator \<Rightarrow> buddy_allocator" where
  "buddy_init bitmap_ptr bm_size base b =
     b\<lparr>bitmap := bitmap_ptr, bitmap_size := bm_size, base_addr := base,
       free_list := replicate MAX_ORDER 0\<rparr>"

definition buddy_new :: "usize \<Rightarrow> usize \<Rightarrow> usize \<Rightarrow> buddy_allocator" where
  "buddy_new bitmap_ptr bm_size base =
     \<lparr>free_list = replicate MAX_ORDER 0, bitmap = bitmap_ptr, bitmap_size = bm_size,
      base_addr = base\<rparr>"

definition buddy_empty :: buddy_allocator where
  "buddy_empty = \<lparr>free_list = replicate MAX_ORDER 0, bitmap = 0, bitmap_size = 0, base_addr = 0\<rparr>"

definition list_head :: "nat \<Rightarrow> buddy_st \<Rightarrow> usize option" where
  "list_head order s =
     (if order < length (free_list (snd s)) then Some (free_list (snd s) ! order) else None)"

definition set_head :: "nat \<Rightarrow> usize \<Rightarrow> buddy_allocator \<Rightarrow> buddy_allocator option" where
  "set_head order p b =
     (if order < length (free_list b) then Some (b\<lparr>free_list := (free_list b)[order := p]\<rparr>)
      else None)"

definition push_block :: "nat \<Rightarrow> usize \<Rightarrow> buddy_st \<Rightarrow> buddy_st option" where
  "push_block order block s = do {
     head \<leftarrow> list_head order s;
     if block = 0 then None
     else do {
       let m = set_prev (fst s) block 0;
       let m = set_next m block head;
       let m = (if head \<noteq> 0 then set_prev m head block else m);
       b \<leftarrow> set_head order block (snd s);
       Some (m, b)
     }
   }"

definition remove_block :: "nat \<Rightarrow> usize \<Rightarrow> buddy_st \<Rightarrow> buddy_st option" where
  "remove_block order block s =
     (if block = 0 then None
      else do {
        (m, b) \<leftarrow>
          (if fb_prev (fst s) block \<noteq> 0
           then Some (set_next (fst s) (fb_prev (fst s) block) (fb_next (fst s) block), snd s)
           else do {
             b \<leftarrow> set_head order (fb_next (fst s) block) (snd s);
             Some (fst s, b)
           });
        Some (if fb_next m block \<noteq> 0 then set_prev m (fb_next m block) (fb_prev m block) else m, b)
      })"

fun bit_offset_sum :: "usize \<Rightarrow> nat \<Rightarrow> nat \<Rightarrow> usize \<Rightarrow> usize option" where
  "bit_offset_sum bm_size i 0 offset = Some offset"
| "bit_offset_sum bm_size i (Suc n) offset = do {
     bits \<leftarrow> umul bm_size 8;
     part \<leftarrow> ushr bits (i + 1);
     offset \<leftarrow> uadd offset part;
     bit_offset_sum bm_size (i + 1) n offset
   }"

definition toggle_bit :: "nat \<Rightarrow> usize \<Rightarrow> buddy_st \<Rightarrow> (bool \<times> buddy_st) option" where
  "toggle_bit order addr s = do {
     let phys_addr = addr - base_addr (snd s);
     idx \<leftarrow> ushr phys_addr (12 + order + 1);
     offset \<leftarrow> bit_offset_sum (bitmap_size (snd s)) 0 order 0;
     bit_index \<leftarrow> uadd idx offset;
     let byte_index = bit_index div 8;
     let bit_offset = bit_index mod 8;
     let mask = (push_bit bit_offset 1 :: u8);
     if byte_index \<ge> bitmap_size (snd s) then None
     else do {
       let byte_ptr = bitmap (snd s) + byte_index;
       let m = (fst s)(byte_ptr := fst s byte_ptr XOR mask);
       Some (m byte_ptr AND mask = 0, (m, snd s))
     }
   }"

function add_free_region :: "usize \<Rightarrow> usize \<Rightarrow> buddy_st \<Rightarrow> buddy_st option" where
  "add_free_region start_addr end_addr s =
     (if start_addr < end_addr then do {
        let remaining_pages = (end_addr - start_addr) div 2 ^ 12;
        max_fit_order \<leftarrow> usub 63 (leading_zeros remaining_pages);
        let max_align_order =
          (if start_addr = 0 then 10 else trailing_zeros start_addr - 12);
        let current_order = min (min max_fit_order max_align_order) 10;
        s \<leftarrow> push_block current_order start_addr s;
        (_, s) \<leftarrow> toggle_bit current_order start_addr s;
        sz \<leftarrow> ushl 1 (12 + current_order);
        start \<leftarrow> uadd start_addr sz;
        add_free_region start end_addr s
      } else Some s)"
  by pat_completeness auto
termination
  by (relation "measure (\<lambda>(start_addr, end_addr, s). end_addr - start_addr)")
    (auto simp: ushl_Suc_0 uadd_iff intro!: diff_less_mono2)

declare add_free_region.simps [simp del]

fun split_block :: "nat \<Rightarrow> nat \<Rightarrow> usize \<Rightarrow> buddy_st \<Rightarrow> buddy_st option" where
  "split_block curr_order order block s =
     (if curr_order > order then do {
        half_block_size \<leftarrow> ushl 1 (12 + (curr_order - 1));
        buddy_addr \<leftarrow> uadd block half_block_size;
        s \<leftarrow> push_block (curr_order - 1) buddy_addr s;
        (_, s) \<leftarrow> toggle_bit (curr_order - 1) buddy_addr s;
        split_block (curr_order - 1) order block s
      } else Some s)"

declare split_block.simps [simp del]

function alloc_higher :: "nat \<Rightarrow> nat \<Rightarrow> buddy_st \<Rightarrow> (usize option \<times> buddy_st) option" where
  "alloc_higher ord order s =
     (if ord < MAX_ORDER then do {
        block \<leftarrow> list_head ord s;
        if block \<noteq> 0 then do {
          s \<leftarrow> remove_block ord block s;
          (_, s) \<leftarrow> toggle_bit ord block s;
          s \<leftarrow> split_block ord order block s;
          Some (Some block, s)
        } else alloc_higher (ord + 1) order s
      } else Some (None, s))"
  by pat_completeness auto
termination
  by (relation "measure (\<lambda>(ord, order, s). MAX_ORDER - ord)") auto

declare alloc_higher.simps [simp del]

definition buddy_alloc :: "nat \<Rightarrow> buddy_st \<Rightarrow> (usize option \<times> buddy_st) option" where
  "buddy_alloc order s = do {
     let order = min order (MAX_ORDER - 1);
     block \<leftarrow> list_head order s;
     if block \<noteq> 0 then do {
       s \<leftarrow> remove_block order block s;
       (_, s) \<leftarrow> toggle_bit order block s;
       Some (Some block, s)
     } else alloc_higher (order + 1) order s
   }"

function free_merge :: "usize \<Rightarrow> nat \<Rightarrow> buddy_st \<Rightarrow> buddy_st option" where
  "free_merge addr order s =
     (if order < MAX_ORDER - 1 then do {
        (buddy_is_free, s) \<leftarrow> toggle_bit order addr s;
        if buddy_is_free then do {
          sz \<leftarrow> ushl 1 (12 + order);
          let buddy_addr = addr XOR sz;
          s \<leftarrow> remove_block order buddy_addr s;
          free_merge (and_not addr sz) (order + 1) s
        } else push_block order addr s
      } else push_block order addr s)"
  by pat_completeness auto
termination
  by (relation "measure (\<lambda>(addr, order, s). MAX_ORDER - order)") auto

declare free_merge.simps [simp del]

definition buddy_free :: "usize \<Rightarrow> nat \<Rightarrow> buddy_st \<Rightarrow> buddy_st option" where
  "buddy_free addr order s = free_merge (mask_low 12 addr) (min order (MAX_ORDER - 1)) s"

partial_function (option) count_blocks :: "mem \<Rightarrow> usize \<Rightarrow> usize \<Rightarrow> usize option" where
  "count_blocks m cur block_count =
     (if cur = 0 then Some block_count
      else do {
        n \<leftarrow> uadd block_count 1;
        count_blocks m (fb_next m cur) n
      })"

fun count_orders :: "nat \<Rightarrow> nat \<Rightarrow> usize \<Rightarrow> buddy_st \<Rightarrow> usize option" where
  "count_orders order 0 total_free s = Some total_free"
| "count_orders order (Suc n) total_free s = do {
     head \<leftarrow> list_head order s;
     block_count \<leftarrow> count_blocks (fst s) head 0;
     sz \<leftarrow> ushl 4096 order;
     bytes \<leftarrow> umul block_count sz;
     total_free \<leftarrow> uadd total_free bytes;
     count_orders (order + 1) n total_free s
   }"

definition count_free_memory :: "buddy_st \<Rightarrow> usize option" where
  "count_free_memory s = count_orders 0 MAX_ORDER 0 s"

end
