(* ===== verification/Blocks.thy ===== *)
theory Blocks
  imports Prelude
begin

text \<open>
  Power-of-two memory blocks: the address arithmetic of buddy pairs, and the interface a
  block allocator offers to the code above it.  The buddy allocator provides the interface;
  the frame functions, the kernel heap and the page tables are its clients.
\<close>

section \<open>Blocks and buddies\<close>

text \<open>Byte size of a block of a given order.\<close>

definition bsz :: "nat \<Rightarrow> nat" where "bsz ord = 2 ^ (12 + ord)"

lemma bsz_pos [simp]: "0 < bsz ord" "bsz ord \<noteq> 0"
  by (simp_all add: bsz_def)

lemma bsz_Suc: "bsz (Suc ord) = 2 * bsz ord"
  by (simp only: bsz_def add_Suc_right power_Suc)

lemma bsz_0: "bsz 0 = 4096"
  by (simp add: bsz_def)

lemma bsz_dvd: "i \<le> j \<Longrightarrow> bsz i dvd bsz j"
  by (simp add: bsz_def le_imp_power_dvd)

lemma bsz_ge: "4096 \<le> bsz ord"
  by (simp add: bsz_def power_add)

lemma bsz_shl: "ord \<le> 10 \<Longrightarrow> ushl (Suc 0) (12 + ord) = Some (bsz ord)"
  by (simp add: bsz_def ushl_Suc_0)

lemma bit_imp_ge: "bit a k \<Longrightarrow> 2 ^ k \<le> a" for a :: nat
  by (rule ccontr) (simp add: bit_iff_odd)

lemma xor_power: "a XOR 2 ^ k = (if bit a k then a - 2 ^ k else a + 2 ^ k)" for a :: nat
proof -
  have "int (a XOR 2 ^ k) = flip_bit k (int a)"
    by (simp add: of_nat_xor_eq flip_bit_int_def)
  also have "\<dots> = (if bit a k then int a - 2 ^ k else int a + 2 ^ k)"
    by (simp add: flip_bit_eq_if set_bit_eq unset_bit_eq bit_of_nat_iff_bit)
  also have "\<dots> = int (if bit a k then a - 2 ^ k else a + 2 ^ k)"
    by (simp add: bit_imp_ge of_nat_diff)
  finally show ?thesis by linarith
qed

lemma and_power: "a AND 2 ^ k = of_bool (bit a k) * 2 ^ k" for a :: nat
  by (rule bit_eqI) (auto simp: bit_simps)

lemma and_not_power: "and_not a (2 ^ k) = (if bit a k then a - 2 ^ k else a)"
  by (simp add: and_not_def and_power)

definition buddy_of :: "nat \<Rightarrow> usize \<Rightarrow> usize" where
  "buddy_of ord a = a XOR bsz ord"

lemma aligned_bit: "bit (bsz ord * q) (12 + ord) \<longleftrightarrow> odd q" for q :: nat
  by (simp add: bit_iff_odd bsz_def)

lemma buddy_cases:
  assumes "bsz ord dvd a"
  obtains (lower) "bsz (Suc ord) dvd a" "buddy_of ord a = a + bsz ord"
      "and_not a (bsz ord) = a"
  | (upper) p where "bsz (Suc ord) dvd p" "a = p + bsz ord" "buddy_of ord a = p"
      "and_not a (bsz ord) = p"
proof -
  note unf = buddy_of_def and_not_power [of _ "12 + ord", folded bsz_def]
    xor_power [of _ "12 + ord", folded bsz_def]
  from assms obtain q where q: "a = bsz ord * q" by blast
  show ?thesis
  proof (cases "even q")
    case True
    then obtain r where r: "q = 2 * r" by blast
    have b: "\<not> bit a (12 + ord)" using q True by (simp only: aligned_bit not_not)
    have "bsz (Suc ord) dvd a" using q r by (simp add: bsz_Suc)
    then show ?thesis using b by (intro lower) (simp_all only: unf if_False)
  next
    case False
    then obtain r where r: "q = 2 * r + 1" by (rule oddE)
    have b: "bit a (12 + ord)" using q False by (simp add: aligned_bit)
    have "a = bsz (Suc ord) * r + bsz ord" using q r by (simp add: bsz_Suc algebra_simps)
    then show ?thesis using b
      by (intro upper [of "bsz (Suc ord) * r"]) (simp_all only: unf if_True dvd_triv_left add_diff_cancel_right')
  qed
qed

text \<open>Address ranges of blocks.\<close>

definition blk :: "nat \<Rightarrow> usize \<Rightarrow> nat set" where
  "blk ord a = {a ..< a + bsz ord}"

lemma blk_self [simp]: "a \<in> blk ord a"
  by (simp add: blk_def)

lemma card_blk [simp]: "card (blk ord a) = bsz ord"
  by (simp add: blk_def)

lemma finite_blk [simp]: "finite (blk ord a)"
  by (simp add: blk_def)

lemma buddy_blk:
  assumes "bsz ord dvd a"
  shows "blk ord a \<union> blk ord (buddy_of ord a) = blk (Suc ord) (and_not a (bsz ord))"
    and "blk ord a \<inter> blk ord (buddy_of ord a) = {}"
    and "bsz (Suc ord) dvd and_not a (bsz ord)"
    and "bsz ord dvd buddy_of ord a"
    and "buddy_of ord a \<noteq> a"
    and "and_not a (bsz ord) = min a (buddy_of ord a)"
    and "buddy_of ord a div bsz (Suc ord) = a div bsz (Suc ord)"
proof -
  have d: "bsz ord dvd bsz (Suc ord)" by (simp add: bsz_Suc)
  have *: "(x + bsz ord) div bsz (Suc ord) = x div bsz (Suc ord)" if "bsz (Suc ord) dvd x" for x
    using that by (auto simp: bsz_Suc elim!: dvdE)
  from assms show "blk ord a \<union> blk ord (buddy_of ord a) = blk (Suc ord) (and_not a (bsz ord))"
    by (rule buddy_cases) (auto simp: blk_def bsz_Suc)
  from assms show "blk ord a \<inter> blk ord (buddy_of ord a) = {}"
    by (rule buddy_cases) (auto simp: blk_def)
  from assms show "bsz (Suc ord) dvd and_not a (bsz ord)"
    by (rule buddy_cases) simp_all
  from assms show "bsz ord dvd buddy_of ord a"
    by (rule buddy_cases) (auto intro: dvd_trans [OF d])
  from assms show "buddy_of ord a \<noteq> a"
    by (rule buddy_cases) auto
  from assms show "and_not a (bsz ord) = min a (buddy_of ord a)"
    by (rule buddy_cases) auto
  from assms show "buddy_of ord a div bsz (Suc ord) = a div bsz (Suc ord)"
    by (rule buddy_cases) (auto simp: *)
qed

lemma same_pair:
  assumes "bsz ord dvd a" "bsz ord dvd a'" "a div bsz (Suc ord) = a' div bsz (Suc ord)"
  shows "a' = a \<or> a' = buddy_of ord a"
proof -
  have *: "x = y" if "bsz (Suc ord) dvd x" "bsz (Suc ord) dvd y"
    "(x + i) div bsz (Suc ord) = (y + j) div bsz (Suc ord)" "i < bsz (Suc ord)" "j < bsz (Suc ord)" for x y i j
    using that by (auto elim!: dvdE)
  have lt: "bsz ord < bsz (Suc ord)" "0 < bsz (Suc ord)" by (simp_all add: bsz_Suc)
  from assms(1) show ?thesis
  proof (cases rule: buddy_cases)
    case lower
    from assms(2) show ?thesis
      by (cases rule: buddy_cases) (use lower assms(3) * [of a a' 0 0] * [of a _ 0 "bsz ord"] lt in auto)
  next
    case (upper p)
    from assms(2) show ?thesis
      by (cases rule: buddy_cases) (use upper assms(3) * [of p a' "bsz ord" 0] * [of p _ "bsz ord" "bsz ord"] lt in auto)
  qed
qed

section \<open>Writes confined to a set of bytes\<close>

text \<open>Two memories that may differ on \<open>X\<close> only.\<close>

definition agree_off :: "nat set \<Rightarrow> mem \<Rightarrow> mem \<Rightarrow> bool" where
  "agree_off X m m' \<longleftrightarrow> (\<forall>x. x \<notin> X \<longrightarrow> m' x = m x)"

lemma agree_off_refl [simp]: "agree_off X m m"
  by (simp add: agree_off_def)

lemma agree_off_trans: "agree_off X m m' \<Longrightarrow> agree_off Y m' m'' \<Longrightarrow> X \<union> Y \<subseteq> Z \<Longrightarrow> agree_off Z m m''"
  unfolding agree_off_def by fastforce

lemma agree_off_mono: "agree_off X m m' \<Longrightarrow> X \<subseteq> Z \<Longrightarrow> agree_off Z m m'"
  unfolding agree_off_def by blast

text \<open>Sets of (order, address) pairs: the bytes they cover, and that they do not overlap.\<close>

definition live_bytes :: "(nat \<times> usize) set \<Rightarrow> nat set" where
  "live_bytes live = (\<Union>(ord, a) \<in> live. blk ord a)"

definition live_apart :: "(nat \<times> usize) set \<Rightarrow> bool" where
  "live_apart live \<longleftrightarrow> (\<forall>ord a ord' a'. (ord, a) \<in> live \<longrightarrow> (ord', a') \<in> live \<longrightarrow>
     (ord, a) \<noteq> (ord', a') \<longrightarrow> blk ord a \<inter> blk ord' a' = {})"

lemma live_bytes_simps [simp]:
  "live_bytes {} = {}" "live_bytes (insert (ord, a) live) = blk ord a \<union> live_bytes live"
  by (simp_all add: live_bytes_def)

lemma blk_live: "(ord, a) \<in> live \<Longrightarrow> blk ord a \<subseteq> live_bytes live"
  unfolding live_bytes_def by blast

lemma live_apart_insert:
  assumes "live_apart live" "blk ord a \<inter> live_bytes live = {}"
  shows "live_apart (insert (ord, a) live)"
proof -
  have "blk ord a \<inter> blk ord' a' = {}" if "(ord', a') \<in> live" for ord' a'
    using assms(2) blk_live [OF that] by blast
  with assms(1) show ?thesis unfolding live_apart_def by blast
qed

lemma live_apart_remove:
  assumes "live_apart live" "(ord, a) \<in> live"
  shows "live_apart (live - {(ord, a)})" "live_bytes (live - {(ord, a)}) = live_bytes live - blk ord a"
proof -
  show "live_apart (live - {(ord, a)})" using assms(1) unfolding live_apart_def by blast
  have "blk ord' a' \<inter> blk ord a = {}" if "(ord', a') \<in> live - {(ord, a)}" for ord' a'
    using assms that unfolding live_apart_def by blast
  then have "live_bytes (live - {(ord, a)}) \<inter> blk ord a = {}" unfolding live_bytes_def by blast
  moreover have "live_bytes live = blk ord a \<union> live_bytes (live - {(ord, a)})"
    using assms(2) unfolding live_bytes_def by blast
  ultimately show "live_bytes (live - {(ord, a)}) = live_bytes live - blk ord a" by blast
qed

section \<open>The interface of a block allocator\<close>

text \<open>
  \<open>ainv F s\<close>: the allocator state \<open>s\<close> is well formed and \<open>F\<close> are the bytes it can still hand
  out.  \<open>own b\<close> are the bytes of its bookkeeping, \<open>valid b ord a\<close> the blocks it may ever be
  given back.  An allocator never panics on valid requests, gives out only free bytes, writes
  only to free memory and to its bookkeeping, and does not read anything else.
\<close>

locale block_source =
  fixes ainv :: "nat set \<Rightarrow> mem \<times> 'b \<Rightarrow> bool"
    and own :: "'b \<Rightarrow> nat set"
    and valid :: "'b \<Rightarrow> nat \<Rightarrow> usize \<Rightarrow> bool"
    and alloc :: "nat \<Rightarrow> mem \<times> 'b \<Rightarrow> (usize option \<times> mem \<times> 'b) option"
    and free :: "usize \<Rightarrow> nat \<Rightarrow> mem \<times> 'b \<Rightarrow> (mem \<times> 'b) option"
  assumes alloc_total: "ainv F s \<Longrightarrow> \<exists>r s'. alloc ord s = Some (r, s')"
    and alloc_None: "ainv F s \<Longrightarrow> alloc ord s = Some (None, s') \<Longrightarrow> s' = s"
    and alloc_Some: "ainv F (m, b) \<Longrightarrow> ord \<le> 10 \<Longrightarrow> alloc ord (m, b) = Some (Some a, (m', b')) \<Longrightarrow>
      valid b ord a \<and> blk ord a \<subseteq> F \<and> ainv (F - blk ord a) (m', b') \<and> own b' = own b \<and>
      valid b' = valid b \<and> agree_off (F \<union> own b) m m'"
    and free_ok: "ainv F (m, b) \<Longrightarrow> valid b ord a \<Longrightarrow> blk ord a \<inter> F = {} \<Longrightarrow>
      \<exists>m' b'. free a ord (m, b) = Some (m', b') \<and> ainv (F \<union> blk ord a) (m', b') \<and> own b' = own b \<and>
      valid b' = valid b \<and> agree_off (F \<union> blk ord a \<union> own b) m m'"
    and valid_block: "valid b ord a \<Longrightarrow> ord \<le> 10 \<and> bsz ord dvd a \<and> a \<noteq> 0 \<and> a + bsz ord < 2 ^ 64 \<and> blk ord a \<inter> own b = {}"
    and ainv_own: "ainv F (m, b) \<Longrightarrow> F \<inter> own b = {}"
    and ainv_frame: "ainv F (m, b) \<Longrightarrow> agree_off X m m' \<Longrightarrow> X \<inter> (F \<union> own b) = {} \<Longrightarrow> ainv F (m', b)"
begin

text \<open>The client's side: a ledger of the blocks it holds out of the managed bytes \<open>T\<close>.\<close>

definition ledger :: "nat set \<Rightarrow> (nat \<times> usize) set \<Rightarrow> mem \<times> 'b \<Rightarrow> bool" where
  "ledger T live s \<longleftrightarrow> ainv (T - live_bytes live) s \<and> live_bytes live \<subseteq> T \<and> live_apart live \<and>
     (\<forall>(ord, a) \<in> live. valid (snd s) ord a)"

lemma ledgerD:
  assumes "ledger T live s" "(ord, a) \<in> live"
  shows "valid (snd s) ord a" "blk ord a \<subseteq> T" "bsz ord dvd a" "a \<noteq> 0" "blk ord a \<inter> own (snd s) = {}"
proof -
  show v: "valid (snd s) ord a" using assms unfolding ledger_def by blast
  show "blk ord a \<subseteq> T" using assms blk_live [OF assms(2)] unfolding ledger_def by blast
  show "bsz ord dvd a" "a \<noteq> 0" "blk ord a \<inter> own (snd s) = {}"
    using valid_block [OF v] by auto
qed

lemma ledger_alloc:
  assumes "ledger T live (m, b)" "ord \<le> 10" "alloc ord (m, b) = Some (Some a, (m', b'))"
  shows "ledger T (insert (ord, a) live) (m', b')" "blk ord a \<subseteq> T - live_bytes live"
    and "agree_off (T - live_bytes live \<union> own b) m m'"
proof -
  let ?F = "T - live_bytes live"
  from assms(1) have "ainv ?F (m, b)" by (simp add: ledger_def)
  from alloc_Some [OF this assms(2,3)] have a: "valid b ord a" "blk ord a \<subseteq> ?F"
    "ainv (?F - blk ord a) (m', b')" "valid b' = valid b" and ag: "agree_off (?F \<union> own b) m m'" by auto
  show "blk ord a \<subseteq> ?F" "agree_off (?F \<union> own b) m m'" by fact+
  have "T - live_bytes (insert (ord, a) live) = ?F - blk ord a" by auto
  moreover have "live_apart (insert (ord, a) live)"
    using assms(1) a(2) by (intro live_apart_insert) (auto simp: ledger_def)
  ultimately show "ledger T (insert (ord, a) live) (m', b')"
    using assms(1) a unfolding ledger_def by (auto simp: case_prod_unfold)
qed

lemma ledger_free:
  assumes "ledger T live (m, b)" "(ord, a) \<in> live"
  obtains m' b' where "free a ord (m, b) = Some (m', b')" "ledger T (live - {(ord, a)}) (m', b')"
    "agree_off (T - live_bytes (live - {(ord, a)}) \<union> own b) m m'"
proof -
  let ?F = "T - live_bytes live" and ?live = "live - {(ord, a)}"
  from assms(1) have inv: "ainv ?F (m, b)" and ap: "live_apart live" by (simp_all add: ledger_def)
  note v = ledgerD [OF assms] and r = live_apart_remove [OF ap assms(2)]
  have dj: "blk ord a \<inter> ?F = {}" using blk_live [OF assms(2)] by blast
  from free_ok [OF inv _ dj] v obtain m' b' where f: "free a ord (m, b) = Some (m', b')"
    "ainv (?F \<union> blk ord a) (m', b')" "valid b' = valid b" "agree_off (?F \<union> blk ord a \<union> own b) m m'" by auto
  have F: "?F \<union> blk ord a = T - live_bytes ?live" using v(2) blk_live [OF assms(2)] unfolding r(2) by blast
  have "ledger T ?live (m', b')"
    using assms(1) f(2,3) r unfolding ledger_def F by auto
  moreover have "agree_off (T - live_bytes ?live \<union> own b) m m'" using f(4) unfolding F .
  ultimately show thesis using f(1) that by blast
qed

lemma ledger_frame:
  assumes "ledger T live (m, b)" "agree_off (live_bytes live) m m'"
  shows "ledger T live (m', b)"
proof -
  have "(ord, a) \<in> live \<Longrightarrow> blk ord a \<inter> own b = {}" for ord a using ledgerD(5) [OF assms(1)] by simp
  then have "live_bytes live \<inter> (T - live_bytes live \<union> own b) = {}" unfolding live_bytes_def by blast
  from ainv_frame [OF _ assms(2) this] assms(1) show ?thesis by (simp add: ledger_def)
qed

end

end
