(* ===== verification/Buddy_Inv.thy ===== *)
theory Buddy_Inv
  imports Buddy Blocks
begin

text \<open>
  Correctness of the buddy allocator: the geometry of buddy pairs, the bitmap layout, the
  doubly linked free lists, the invariant that ties them together and what \<^verbatim>\<open>alloc\<close>,
  \<^verbatim>\<open>free\<close>, \<^verbatim>\<open>add_free_region\<close> and \<^verbatim>\<open>count_free_memory\<close> do to the set of free bytes.
\<close>

section \<open>The bitmap\<close>

text \<open>What the allocator's configuration must satisfy to manage \<open>L\<close> bytes from \<open>base_addr\<close> on.\<close>

definition geometry :: "nat \<Rightarrow> buddy_allocator \<Rightarrow> bool" where
  "geometry L b \<longleftrightarrow>
     length (free_list b) = MAX_ORDER \<and>
     2 ^ 12 dvd bitmap_size b \<and> bitmap_size b < 2 ^ 50 \<and> L \<le> bitmap_size b * 2 ^ 15 \<and>
     bsz 10 dvd base_addr b \<and> base_addr b + L < 2 ^ 64"

definition region_start :: "usize \<Rightarrow> nat \<Rightarrow> nat" where
  "region_start bm_size ord = (\<Sum>i<ord. (bm_size * 8) div 2 ^ (i + 1))"

definition bit_pos :: "buddy_allocator \<Rightarrow> nat \<Rightarrow> usize \<Rightarrow> nat" where
  "bit_pos b ord a = (a - base_addr b) div bsz (Suc ord) + region_start (bitmap_size b) ord"

definition bm_bit :: "mem \<Rightarrow> buddy_allocator \<Rightarrow> nat \<Rightarrow> bool" where
  "bm_bit m b i = bit (m (bitmap b + i div 8)) (i mod 8)"

definition bitmap_bytes :: "buddy_allocator \<Rightarrow> nat set" where
  "bitmap_bytes b = {bitmap b ..< bitmap b + bitmap_size b}"

lemma region_start_eq:
  assumes "2 ^ 12 dvd n" "ord \<le> 11"
  shows "region_start n ord + n * 8 div 2 ^ ord = n * 8"
  using assms(2)
proof (induction ord)
  case (Suc ord)
  define N where "N = n * 8"
  have "(2::nat) ^ 15 dvd N" using assms(1) unfolding N_def by (auto elim!: dvdE)
  moreover have "(2::nat) ^ Suc ord dvd 2 ^ 15" using Suc.prems by (intro le_imp_power_dvd) simp
  ultimately have "2 ^ Suc ord dvd N" by (rule dvd_trans [rotated])
  then obtain r where r: "N = 2 ^ Suc ord * r" by blast
  have "N = 2 ^ ord * (2 * r)" by (simp add: r)
  then have "N div 2 ^ ord = 2 * r" by (simp only: nonzero_mult_div_cancel_left power_not_zero zero_neq_numeral not_False_eq_True simp_thms)
  moreover have "N div 2 ^ Suc ord = r" by (simp only: r nonzero_mult_div_cancel_left power_not_zero zero_neq_numeral not_False_eq_True simp_thms)
  ultimately show ?case using Suc.IH Suc.prems unfolding region_start_def N_def [symmetric]
    by (simp del: power_Suc)
qed (simp add: region_start_def)

lemma region_start_Suc: "region_start n (Suc ord) = region_start n ord + n * 8 div 2 ^ Suc ord"
  by (simp add: region_start_def)

lemma region_start_mono: "i \<le> j \<Longrightarrow> region_start n i \<le> region_start n j"
  unfolding region_start_def by (rule sum_mono2) auto

lemma region_start_le: "2 ^ 12 dvd n \<Longrightarrow> ord \<le> 11 \<Longrightarrow> region_start n ord \<le> n * 8"
  using region_start_eq [of n ord] by linarith

lemma bit_pos_bounds:
  assumes g: "geometry L b" and "ord \<le> 10" and a: "base_addr b \<le> a" "a < base_addr b + L"
  shows "region_start (bitmap_size b) ord \<le> bit_pos b ord a"
    and "bit_pos b ord a < region_start (bitmap_size b) (Suc ord)"
proof -
  show "region_start (bitmap_size b) ord \<le> bit_pos b ord a" by (simp add: bit_pos_def)
  define N where "N = bitmap_size b * 8"
  have "(2::nat) ^ 15 dvd N" using g unfolding N_def geometry_def by (auto elim!: dvdE)
  moreover have "(2::nat) ^ Suc ord dvd 2 ^ 15" using assms(2) by (intro le_imp_power_dvd) simp
  ultimately obtain r where r: "N = 2 ^ Suc ord * r" by (meson dvd_trans dvdE)
  have "a - base_addr b < L" using a by linarith
  also have "L \<le> N * 2 ^ 12" using g by (simp add: geometry_def N_def)
  also have "N * 2 ^ 12 = r * bsz (Suc ord)"
    by (simp add: r bsz_def power_add algebra_simps)
  finally have "(a - base_addr b) div bsz (Suc ord) < r"
    by (simp add: less_mult_imp_div_less)
  moreover have "N div 2 ^ Suc ord = r" by (simp add: r del: power_Suc)
  ultimately show "bit_pos b ord a < region_start (bitmap_size b) (Suc ord)"
    by (simp add: bit_pos_def region_start_Suc N_def del: power_Suc)
qed

lemma bit_pos_byte:
  assumes "geometry L b" "ord \<le> 10" "base_addr b \<le> a" "a < base_addr b + L"
  shows "bit_pos b ord a div 8 < bitmap_size b"
proof -
  have "bit_pos b ord a < region_start (bitmap_size b) (Suc ord)"
    using assms by (rule bit_pos_bounds)
  also have "\<dots> \<le> bitmap_size b * 8"
    using assms by (intro region_start_le) (simp_all add: geometry_def)
  finally show ?thesis by (simp add: less_mult_imp_div_less)
qed

lemma bit_pos_orders:
  assumes "geometry L b" "ord \<le> 10" "ord' \<le> 10" "ord \<noteq> ord'"
    and "base_addr b \<le> a" "a < base_addr b + L" "base_addr b \<le> a'" "a' < base_addr b + L"
  shows "bit_pos b ord a \<noteq> bit_pos b ord' a'"
proof (cases "ord < ord'")
  case True
  with assms bit_pos_bounds(2) [of L b ord a] bit_pos_bounds(1) [of L b ord' a']
    region_start_mono [of "Suc ord" ord' "bitmap_size b"] show ?thesis by simp
next
  case False
  with assms bit_pos_bounds(2) [of L b ord' a'] bit_pos_bounds(1) [of L b ord a]
    region_start_mono [of "Suc ord'" ord "bitmap_size b"] show ?thesis by simp
qed

lemma bit_pos_pair:
  assumes "geometry L b" "ord < 10" "base_addr b \<le> a" "base_addr b \<le> a'"
  shows "bit_pos b ord a = bit_pos b ord a' \<longleftrightarrow> a div bsz (Suc ord) = a' div bsz (Suc ord)"
proof -
  have "bsz (Suc ord) dvd base_addr b"
    using assms bsz_dvd [of "Suc ord" 10] by (auto simp: geometry_def intro: dvd_trans)
  then obtain q where q: "base_addr b = bsz (Suc ord) * q" by blast
  have "(x - base_addr b) div bsz (Suc ord) = x div bsz (Suc ord) - q"
    and "q \<le> x div bsz (Suc ord)" if "base_addr b \<le> x" for x
  proof -
    from that obtain d where d: "x = bsz (Suc ord) * q + d" unfolding q by (auto simp: le_iff_add)
    show "(x - base_addr b) div bsz (Suc ord) = x div bsz (Suc ord) - q"
      and "q \<le> x div bsz (Suc ord)" by (simp_all add: d q)
  qed
  from this [OF assms(3)] this [OF assms(4)] show ?thesis by (auto simp: bit_pos_def)
qed

definition flip_bm :: "mem \<Rightarrow> buddy_allocator \<Rightarrow> nat \<Rightarrow> mem" where
  "flip_bm m b i =
     m(bitmap b + i div 8 := m (bitmap b + i div 8) XOR push_bit (i mod 8) 1)"

lemma bm_bit_flip: "bm_bit (flip_bm m b i) b j = (if j = i then \<not> bm_bit m b i else bm_bit m b j)"
proof -
  have "i mod 8 < 8" "j mod 8 < 8" by simp_all
  moreover have "j \<noteq> i \<Longrightarrow> j div 8 = i div 8 \<Longrightarrow> j mod 8 \<noteq> i mod 8"
    by (metis div_mod_decomp)
  ultimately show ?thesis
    by (auto simp: bm_bit_def flip_bm_def bit_simps)
qed

lemma bit_offset_sum_eq:
  assumes "n * 8 < 2 ^ 64" "i + k < 64"
    and "off + (\<Sum>j<k. (n * 8) div 2 ^ (i + j + 1)) < 2 ^ 64"
  shows "bit_offset_sum n i k off = Some (off + (\<Sum>j<k. (n * 8) div 2 ^ (i + j + 1)))"
  using assms
proof (induction k arbitrary: i off)
  case (Suc k)
  let ?p = "n * 8 div 2 ^ (i + 1)"
  have sh: "(\<Sum>j<Suc k. (n * 8) div 2 ^ (i + j + 1)) = ?p + (\<Sum>j<k. (n * 8) div 2 ^ (i + 1 + j + 1))"
    unfolding sum.lessThan_Suc_shift by (simp del: power_Suc)
  with Suc.prems have "off + ?p < 2 ^ 64" by linarith
  with Suc.prems Suc.IH [of "i + 1" "off + ?p"] sh show ?case
    by (simp add: umul_ok ushr_ok uadd_ok del: power_Suc sum.lessThan_Suc)
qed simp

lemma toggle_bit_raw:
  assumes "2 ^ 12 dvd bitmap_size b" "bitmap_size b < 2 ^ 50" "ord \<le> 10"
    and byte: "bit_pos b ord a div 8 < bitmap_size b"
  shows "toggle_bit ord a (m, b) =
    Some (bm_bit m b (bit_pos b ord a), (flip_bm m b (bit_pos b ord a), b))"
proof -
  let ?n = "bitmap_size b" and ?i = "bit_pos b ord a"
  have n: "?n * 8 < 2 ^ 53" using assms(2) by simp
  have "?i < ?n * 8" using byte by linarith
  moreover have "region_start ?n ord \<le> ?n * 8"
    using assms by (intro region_start_le) simp_all
  ultimately have *: "bit_offset_sum ?n 0 ord 0 = Some (region_start ?n ord)"
    using bit_offset_sum_eq [of ?n 0 ord 0] n assms(3) by (simp add: region_start_def)
  have sh: "ushr (a - base_addr b) (13 + ord) = Some ((a - base_addr b) div bsz (Suc ord))"
    using assms(3) by (simp add: ushr_ok bsz_def)
  have i: "uadd ((a - base_addr b) div bsz (Suc ord)) (region_start ?n ord) = Some ?i"
    using \<open>?i < ?n * 8\<close> n by (simp add: uadd_def bit_pos_def)
  have bit: "(w XOR 2 ^ k) AND 2 ^ k = 0 \<longleftrightarrow> bit w k" if "k < 8" for w :: u8 and k
    using that by (auto simp: bit_eq_iff [where 'a = "8 word"] bit_simps)
  show ?thesis
    using byte by (simp add: toggle_bit_def sh * i Let_def bit bm_bit_def flip_bm_def)
qed

lemma toggle_bit_spec:
  assumes "geometry L b" "ord \<le> 10" "base_addr b \<le> a" "a < base_addr b + L"
  shows "toggle_bit ord a (m, b) =
    Some (bm_bit m b (bit_pos b ord a), (flip_bm m b (bit_pos b ord a), b))"
  using assms bit_pos_byte [OF assms] by (intro toggle_bit_raw) (simp_all add: geometry_def)

lemma flip_bm_flip: "flip_bm (flip_bm m b i) b i = m"
  by (auto simp: flip_bm_def fun_eq_iff xor.assoc)

section \<open>The free lists\<close>

text \<open>\<open>dlist m pr p xs\<close>: from \<open>p\<close> on, memory holds the doubly linked list \<open>xs\<close>, whose first
  node points back to \<open>pr\<close>.\<close>

fun dlist :: "mem \<Rightarrow> usize \<Rightarrow> usize \<Rightarrow> usize list \<Rightarrow> bool" where
  "dlist m pr p [] \<longleftrightarrow> p = 0"
| "dlist m pr p (x # xs) \<longleftrightarrow> p = x \<and> x \<noteq> 0 \<and> fb_prev m x = pr \<and> dlist m x (fb_next m x) xs"

definition node_bytes :: "usize \<Rightarrow> nat set" where
  "node_bytes p = {p ..< p + 16}"

lemma fb_cong:
  assumes "\<And>x. x \<in> node_bytes p \<Longrightarrow> m' x = m x"
  shows "fb_next m' p = fb_next m p" "fb_prev m' p = fb_prev m p"
  unfolding fb_next_def fb_prev_def using assms
  by (auto intro!: rd64_cong simp: node_bytes_def)

lemma dlist_cong:
  assumes "\<And>p x. p \<in> set xs \<Longrightarrow> x \<in> node_bytes p \<Longrightarrow> m' x = m x"
  shows "dlist m' pr p xs = dlist m pr p xs"
  using assms
proof (induction xs arbitrary: pr p)
  case (Cons a xs)
  then have "fb_next m' a = fb_next m a" "fb_prev m' a = fb_prev m a"
    by (auto intro!: fb_cong)
  moreover have "dlist m' a (fb_next m a) xs = dlist m a (fb_next m a) xs"
    by (rule Cons.IH) (use Cons.prems in auto)
  ultimately show ?case by simp
qed simp

lemma fb_upd [simp]:
  assumes "v < 2 ^ 64"
  shows "fb_next (set_next m p v) p = v" "fb_prev (set_next m p v) p = fb_prev m p"
    "fb_prev (set_prev m p v) p = v" "fb_next (set_prev m p v) p = fb_next m p"
  using assms by (simp_all add: fb_next_def fb_prev_def set_next_def set_prev_def
      rd64_wr64_same mem_frame)

lemma set_outside:
  "x \<notin> node_bytes p \<Longrightarrow> set_next m p v x = m x"
  "x \<notin> node_bytes p \<Longrightarrow> set_prev m p v x = m x"
  by (auto simp: set_next_def set_prev_def node_bytes_def wr64_def)

lemma fb_other:
  assumes "node_bytes p \<inter> node_bytes q = {}"
  shows "fb_next (set_next m p v) q = fb_next m q" "fb_prev (set_next m p v) q = fb_prev m q"
    "fb_prev (set_prev m p v) q = fb_prev m q" "fb_next (set_prev m p v) q = fb_next m q"
  using assms by (auto intro!: fb_cong set_outside)

lemma fb_bound [simp]:
  "fb_next m p < 18446744073709551616" "fb_prev m p < 18446744073709551616"
  using rd64_bound [of m p] rd64_bound [of m "p + 8"] by (simp_all add: fb_next_def fb_prev_def)

text \<open>Nodes whose bytes do not overlap.\<close>

definition apart :: "usize set \<Rightarrow> bool" where
  "apart A \<longleftrightarrow> (\<forall>x \<in> A. \<forall>y \<in> A. x \<noteq> y \<longrightarrow> node_bytes x \<inter> node_bytes y = {})"

lemma apartD: "apart A \<Longrightarrow> x \<in> A \<Longrightarrow> y \<in> A \<Longrightarrow> x \<noteq> y \<Longrightarrow> node_bytes x \<inter> node_bytes y = {}"
  by (simp add: apart_def)

lemma apart_subset: "apart A \<Longrightarrow> B \<subseteq> A \<Longrightarrow> apart B"
  unfolding apart_def by blast

lemma apart_outside: "apart A \<Longrightarrow> p \<in> A \<Longrightarrow> q \<in> A \<Longrightarrow> p \<noteq> q \<Longrightarrow> x \<in> node_bytes p \<Longrightarrow> x \<notin> node_bytes q"
  unfolding apart_def by blast

definition hd0 :: "usize list \<Rightarrow> usize" where
  "hd0 xs = (case xs of [] \<Rightarrow> 0 | x # _ \<Rightarrow> x)"

lemma hd0_simps [simp]: "hd0 [] = 0" "hd0 (x # xs) = x"
  by (simp_all add: hd0_def)

lemma dlist_head: "dlist m pr p xs \<Longrightarrow> p = hd0 xs"
  by (cases xs) auto

lemma dlist_nonzero: "dlist m pr p xs \<Longrightarrow> 0 \<notin> set xs"
  by (induction xs arbitrary: pr p) auto

lemma dlist_next: "dlist m pr p (ys @ x # zs) \<Longrightarrow> fb_next m x = hd0 zs"
  by (induction ys arbitrary: pr p) (auto dest: dlist_head)

lemma dlist_prev: "dlist m pr p (ys @ y # x # zs) \<Longrightarrow> fb_prev m x = y"
  by (induction ys arbitrary: pr p) auto

lemma dlist_relink:
  assumes "dlist m pr p xs" "apart (set xs)" "distinct xs" "q < 2 ^ 64"
  shows "dlist (if p \<noteq> 0 then set_prev m p q else m) q p xs"
proof (cases xs)
  case (Cons y ys)
  have "dlist (set_prev m y q) y (fb_next m y) ys = dlist m y (fb_next m y) ys"
    using assms Cons by (intro dlist_cong set_outside(2)) (auto dest: apart_outside)
  with assms Cons show ?thesis by simp
qed (use assms in simp)

lemma dlist_push:
  assumes "dlist m 0 p xs" "apart (insert x (set xs))" "distinct (x # xs)" "x \<noteq> 0" "x < 2 ^ 64"
    "p < 2 ^ 64"
  shows "dlist (if p \<noteq> 0 then set_prev (set_next (set_prev m x 0) x p) p x
                else set_next (set_prev m x 0) x p) 0 x (x # xs)"
proof -
  let ?m = "set_next (set_prev m x 0) x p"
  have "dlist ?m 0 p xs = dlist m 0 p xs"
  proof (rule dlist_cong)
    fix q z assume "q \<in> set xs" "z \<in> node_bytes q"
    then have "z \<notin> node_bytes x" using assms(2,3) by (auto dest: apart_outside)
    then show "?m z = m z" by (simp add: set_outside)
  qed
  then have l: "dlist (if p \<noteq> 0 then set_prev ?m p x else ?m) x p xs"
    using assms by (intro dlist_relink) (auto intro: apart_subset)
  have "p \<noteq> 0 \<Longrightarrow> p \<in> set xs" using assms(1) by (cases xs) auto
  then have "p \<noteq> 0 \<Longrightarrow> node_bytes p \<inter> node_bytes x = {}"
    using assms(3) by (intro apartD [OF assms(2)]) auto
  then have "fb_next (if p \<noteq> 0 then set_prev ?m p x else ?m) x = p"
    "fb_prev (if p \<noteq> 0 then set_prev ?m p x else ?m) x = 0"
    using assms by (auto simp: fb_other)
  with l assms show ?thesis by simp
qed

text \<open>Unlinking a node from anywhere in the list, as \<^verbatim>\<open>remove_block\<close> does it.\<close>

definition unlink :: "mem \<Rightarrow> usize \<Rightarrow> mem" where
  "unlink m x =
     (let m1 = (if fb_prev m x \<noteq> 0 then set_next m (fb_prev m x) (fb_next m x) else m)
      in if fb_next m1 x \<noteq> 0 then set_prev m1 (fb_next m1 x) (fb_prev m1 x) else m1)"

lemma unlink_outside:
  "z \<notin> node_bytes (fb_prev m x) \<Longrightarrow> fb_prev m x \<noteq> x \<Longrightarrow> z \<notin> node_bytes (fb_next m x) \<Longrightarrow>
    node_bytes (fb_prev m x) \<inter> node_bytes x = {} \<Longrightarrow> unlink m x z = m z"
  by (simp add: unlink_def Let_def set_outside fb_other)

lemma dlist_unlink_head:
  assumes "dlist m 0 p (x # zs)" "apart (set (x # zs))" "distinct (x # zs)"
  shows "dlist (unlink m x) 0 (fb_next m x) zs"
proof -
  have "apart (set zs)" by (rule apart_subset [OF assms(2)]) auto
  with assms dlist_relink [of m x "fb_next m x" zs 0] show ?thesis
    by (auto simp: unlink_def Let_def)
qed

lemma dlist_unlink_inner:
  assumes "dlist m pr p (ys @ y # x # zs)" "apart (set (ys @ y # x # zs))"
    "distinct (ys @ y # x # zs)" "\<forall>a \<in> set (ys @ y # x # zs). a < 2 ^ 64"
  shows "dlist (unlink m x) pr p (ys @ y # zs)"
  using assms
proof (induction ys arbitrary: pr p)
  case Nil
  let ?h = "fb_next m x" and ?m1 = "set_next m y (fb_next m x)"
  from Nil have y: "y \<noteq> 0" "p = y" "fb_prev m y = pr" "fb_prev m x = y" and h: "?h = hd0 zs"
    and l: "dlist m x ?h zs" by (auto dest: dlist_head)
  have yx: "node_bytes y \<inter> node_bytes x = {}"
    using Nil.prems(3) by (intro apartD [OF Nil.prems(2)]) auto
  have "dlist ?m1 x ?h zs = dlist m x ?h zs"
    using Nil by (intro dlist_cong set_outside(1)) (auto dest: apart_outside)
  with l have l1: "dlist (if ?h \<noteq> 0 then set_prev ?m1 ?h y else ?m1) y ?h zs"
    using Nil by (intro dlist_relink) (auto intro: apart_subset)
  have "?h \<noteq> 0 \<Longrightarrow> ?h \<in> set zs" using h by (cases zs) auto
  then have "?h \<noteq> 0 \<Longrightarrow> node_bytes ?h \<inter> node_bytes y = {}"
    using Nil.prems(3) by (intro apartD [OF Nil.prems(2)]) auto
  with y yx l1 show ?case
    by (auto simp: unlink_def Let_def fb_other)
next
  case (Cons w ys)
  then have IH: "dlist (unlink m x) w (fb_next m w) (ys @ y # zs)"
    by (auto intro!: Cons.IH intro: apart_subset)
  have prv: "fb_prev m x = y" and nxt: "fb_next m x = hd0 zs"
    using Cons.prems(1) dlist_prev [of m pr p "w # ys" y x zs] dlist_next [of m pr p "w # ys @ [y]" x zs]
    by simp_all
  have "hd0 zs \<in> set zs \<or> hd0 zs = 0" by (cases zs) auto
  then have "z \<notin> node_bytes (hd0 zs) \<or> hd0 zs = 0" "z \<notin> node_bytes y" if "z \<in> node_bytes w" for z
    using Cons.prems(2,3) that by (auto dest: apart_outside)
  moreover have "node_bytes y \<inter> node_bytes x = {}"
    using Cons.prems(3) by (intro apartD [OF Cons.prems(2)]) auto
  ultimately have "unlink m x z = m z" if "z \<in> node_bytes w" for z
    using that prv nxt by (auto simp: unlink_def Let_def set_outside fb_other)
  then have "fb_next (unlink m x) w = fb_next m w" "fb_prev (unlink m x) w = fb_prev m w"
    by (simp_all add: fb_cong [of w "unlink m x" m])
  with IH Cons.prems(1) show ?case by simp
qed


section \<open>The invariant\<close>

type_synonym frees = "nat \<Rightarrow> usize list"

definition in_region :: "nat \<Rightarrow> buddy_allocator \<Rightarrow> nat \<Rightarrow> usize \<Rightarrow> bool" where
  "in_region L b ord a \<longleftrightarrow> ord \<le> 10 \<and> a \<noteq> 0 \<and> bsz ord dvd a \<and> base_addr b \<le> a \<and>
     a + bsz ord \<le> base_addr b + L \<and> blk ord a \<inter> bitmap_bytes b = {}"

text \<open>The free blocks as (order, address) pairs, and the bytes they cover.\<close>

definition fblocks :: "frees \<Rightarrow> (nat \<times> usize) set" where
  "fblocks fl = {(ord, a). ord \<le> 10 \<and> a \<in> set (fl ord)}"

definition free_bytes :: "frees \<Rightarrow> nat set" where
  "free_bytes fl = (\<Union>(ord, a) \<in> fblocks fl. blk ord a)"

definition disjoint_blocks :: "frees \<Rightarrow> bool" where
  "disjoint_blocks fl \<longleftrightarrow> (\<forall>(ord, a) \<in> fblocks fl. \<forall>(ord', a') \<in> fblocks fl.
     (ord, a) \<noteq> (ord', a') \<longrightarrow> blk ord a \<inter> blk ord' a' = {})"

definition lists_ok :: "nat \<Rightarrow> buddy_st \<Rightarrow> frees \<Rightarrow> bool" where
  "lists_ok L s fl \<longleftrightarrow> geometry L (snd s) \<and>
     (\<forall>ord \<le> 10. dlist (fst s) 0 (free_list (snd s) ! ord) (fl ord) \<and> distinct (fl ord) \<and>
        (\<forall>a \<in> set (fl ord). in_region L (snd s) ord a)) \<and>
     disjoint_blocks fl"

definition bits_ok :: "nat \<Rightarrow> buddy_allocator \<Rightarrow> (nat \<Rightarrow> bool) \<Rightarrow> frees \<Rightarrow> bool" where
  "bits_ok L b bm fl \<longleftrightarrow> (\<forall>ord < 10. \<forall>a. bsz ord dvd a \<longrightarrow> base_addr b \<le> a \<longrightarrow> a < base_addr b + L \<longrightarrow>
     bm (bit_pos b ord a) = ((a \<in> set (fl ord)) \<noteq> (buddy_of ord a \<in> set (fl ord))))"

definition buddy_inv :: "nat \<Rightarrow> buddy_st \<Rightarrow> frees \<Rightarrow> bool" where
  "buddy_inv L s fl \<longleftrightarrow> lists_ok L s fl \<and> bits_ok L (snd s) (bm_bit (fst s) (snd s)) fl"

text \<open>Two allocators with the same configuration; only the list heads may differ.\<close>

definition same_conf :: "buddy_allocator \<Rightarrow> buddy_allocator \<Rightarrow> bool" where
  "same_conf b b' \<longleftrightarrow> bitmap b' = bitmap b \<and> bitmap_size b' = bitmap_size b \<and>
     base_addr b' = base_addr b \<and> length (free_list b') = length (free_list b)"

lemma same_conf_refl [simp]: "same_conf b b"
  by (simp add: same_conf_def)

lemma same_conf_trans: "same_conf b c \<Longrightarrow> same_conf c d \<Longrightarrow> same_conf b d"
  by (simp add: same_conf_def)

lemma same_conf_sym: "same_conf b c \<Longrightarrow> same_conf c b"
  by (simp add: same_conf_def)

lemma conf_cong:
  assumes "same_conf b b'"
  shows "geometry L b' = geometry L b" "in_region L b' = in_region L b"
    "bit_pos b' = bit_pos b" "bm_bit m b' = bm_bit m b" "flip_bm m b' = flip_bm m b"
    "bits_ok L b' = bits_ok L b" "bitmap_bytes b' = bitmap_bytes b"
proof -
  show *: "bitmap_bytes b' = bitmap_bytes b" "geometry L b' = geometry L b" "bit_pos b' = bit_pos b" "bm_bit m b' = bm_bit m b" "flip_bm m b' = flip_bm m b"
    using assms by (auto simp: same_conf_def geometry_def bit_pos_def fun_eq_iff bm_bit_def flip_bm_def bitmap_bytes_def)
  show "in_region L b' = in_region L b" "bits_ok L b' = bits_ok L b"
    using assms by (auto simp: * fun_eq_iff in_region_def bits_ok_def same_conf_def)
qed

lemma blk_node: "node_bytes a \<subseteq> blk ord a"
  using bsz_ge [of ord] by (auto simp: node_bytes_def blk_def)

lemma fblocks_iff [simp]: "(ord, a) \<in> fblocks fl \<longleftrightarrow> ord \<le> 10 \<and> a \<in> set (fl ord)"
  by (simp add: fblocks_def)

lemma disjoint_blocksD:
  "disjoint_blocks fl \<Longrightarrow> (ord, a) \<in> fblocks fl \<Longrightarrow> (ord', a') \<in> fblocks fl \<Longrightarrow>
    (ord, a) \<noteq> (ord', a') \<Longrightarrow> blk ord a \<inter> blk ord' a' = {}"
  unfolding disjoint_blocks_def by blast

lemma blk_free: "(ord, a) \<in> fblocks fl \<Longrightarrow> blk ord a \<subseteq> free_bytes fl"
  unfolding free_bytes_def by blast

lemma fblocks_Cons: "ord \<le> 10 \<Longrightarrow> fblocks (fl(ord := a # fl ord)) = insert (ord, a) (fblocks fl)"
  by (auto simp: fblocks_def split: if_splits)

lemma fblocks_remove1:
  "distinct (fl ord) \<Longrightarrow> fblocks (fl(ord := remove1 a (fl ord))) = fblocks fl - {(ord, a)}"
  by (auto simp: fblocks_def split: if_splits)

lemma free_bytes_Cons:
  "ord \<le> 10 \<Longrightarrow> free_bytes (fl(ord := a # fl ord)) = blk ord a \<union> free_bytes fl"
  by (simp add: free_bytes_def fblocks_Cons)

lemma disjoint_blocks_apart:
  assumes "disjoint_blocks fl" "ord \<le> 10"
  shows "apart (set (fl ord))"
proof -
  have "node_bytes x \<inter> node_bytes y = {}" if "x \<in> set (fl ord)" "y \<in> set (fl ord)" "x \<noteq> y" for x y
  proof -
    have "blk ord x \<inter> blk ord y = {}" using assms that by (intro disjoint_blocksD) auto
    then show ?thesis using blk_node [of x ord] blk_node [of y ord] by blast
  qed
  then show ?thesis by (simp add: apart_def)
qed

lemma free_bytes_region: "lists_ok L s fl \<Longrightarrow> free_bytes fl \<inter> bitmap_bytes (snd s) = {}"
  by (auto simp: lists_ok_def in_region_def free_bytes_def fblocks_def)

lemma lists_ok_mem:
  assumes "lists_ok L (m, b) fl" "\<And>x. x \<in> free_bytes fl \<Longrightarrow> m' x = m x"
  shows "lists_ok L (m', b) fl"
proof -
  have "dlist m' 0 (free_list b ! ord) (fl ord) = dlist m 0 (free_list b ! ord) (fl ord)"
    if "ord \<le> 10" for ord
    using that assms(2) blk_node [of _ ord] blk_free [of ord _ fl]
    by (intro dlist_cong) (auto simp: subset_iff)
  with assms(1) show ?thesis by (simp add: lists_ok_def)
qed

lemma disjoint_blocks_Cons:
  assumes "disjoint_blocks fl" "ord \<le> 10" "blk ord a \<inter> free_bytes fl = {}"
  shows "disjoint_blocks (fl(ord := a # fl ord))"
proof -
  have "blk ord a \<inter> blk ord' a' = {}" if "(ord', a') \<in> fblocks fl" for ord' a'
    using assms(3) blk_free [OF that] by blast
  moreover have "blk ord1 a1 \<inter> blk ord2 a2 = {}"
    if "(ord1, a1) \<in> fblocks fl" "(ord2, a2) \<in> fblocks fl" "(ord1, a1) \<noteq> (ord2, a2)" for ord1 a1 ord2 a2
    using assms(1) that by (rule disjoint_blocksD)
  ultimately show ?thesis unfolding disjoint_blocks_def fblocks_Cons [OF assms(2)] by blast
qed

lemma disjoint_blocks_subset:
  assumes "disjoint_blocks fl" "fblocks fl' \<subseteq> fblocks fl"
  shows "disjoint_blocks fl'"
  using assms unfolding disjoint_blocks_def by blast

lemma free_bytes_remove1:
  assumes "disjoint_blocks fl" "distinct (fl ord)" "(ord, a) \<in> fblocks fl"
  shows "free_bytes (fl(ord := remove1 a (fl ord))) = free_bytes fl - blk ord a"
proof -
  have "blk ord' a' \<inter> blk ord a = {}" if "(ord', a') \<in> fblocks fl - {(ord, a)}" for ord' a'
    using that assms by (intro disjoint_blocksD [OF assms(1)]) auto
  then have "free_bytes (fl(ord := remove1 a (fl ord))) \<inter> blk ord a = {}"
    unfolding free_bytes_def fblocks_remove1 [of fl ord a, OF assms(2)] by blast
  moreover have "free_bytes fl = blk ord a \<union> free_bytes (fl(ord := remove1 a (fl ord)))"
    using assms(3) unfolding free_bytes_def fblocks_remove1 [of fl ord a, OF assms(2)] by blast
  ultimately show ?thesis by blast
qed


section \<open>List operations\<close>

definition placeable :: "nat \<Rightarrow> buddy_allocator \<Rightarrow> frees \<Rightarrow> nat \<Rightarrow> usize \<Rightarrow> bool" where
  "placeable L b fl ord a \<longleftrightarrow> in_region L b ord a \<and> blk ord a \<inter> free_bytes fl = {}"

lemma in_region_less: "geometry L b \<Longrightarrow> in_region L b ord a \<Longrightarrow> a < 2 ^ 64"
  by (auto simp: geometry_def in_region_def)

lemma lists_okD:
  assumes "lists_ok L (m, b) fl"
  shows "geometry L b" "disjoint_blocks fl" "length (free_list b) = 11"
    and "ord \<le> 10 \<Longrightarrow> dlist m 0 (free_list b ! ord) (fl ord)"
    and "ord \<le> 10 \<Longrightarrow> distinct (fl ord)"
    and "(ord, a) \<in> fblocks fl \<Longrightarrow> in_region L b ord a"
  using assms by (auto simp: lists_ok_def geometry_def)

lemma nodes_free: "ord \<le> 10 \<Longrightarrow> (\<Union>p \<in> set (fl ord). node_bytes p) \<subseteq> free_bytes fl"
  using blk_node [of _ ord] by (fastforce simp: free_bytes_def fblocks_def)

lemma lists_ok_update:
  assumes ok: "lists_ok L (m, b) fl" and ord: "ord \<le> 10"
    and dj: "disjoint_blocks (fl(ord := ys))"
    and touch: "\<And>x. x \<notin> (\<Union>p \<in> set ys. node_bytes p) \<Longrightarrow> m' x = m x"
    and new: "dlist m' 0 p xs" "distinct xs" "set xs \<subseteq> set ys" "\<And>a. a \<in> set xs \<Longrightarrow> in_region L b ord a"
  shows "lists_ok L (m', b\<lparr>free_list := (free_list b)[ord := p]\<rparr>) (fl(ord := xs))"
proof -
  note g = lists_okD [OF ok]
  have conf: "same_conf b (b\<lparr>free_list := (free_list b)[ord := p]\<rparr>)" by (simp add: same_conf_def)
  have old: "dlist m' 0 (free_list b ! ord') (fl ord')" if "ord' \<le> 10" "ord' \<noteq> ord" for ord'
  proof -
    have "m' x = m x" if "q \<in> set (fl ord')" "x \<in> node_bytes q" for q x
    proof (rule touch)
      have "blk ord' q \<inter> blk ord r = {}" if "r \<in> set ys" for r
        using \<open>ord' \<le> 10\<close> \<open>ord' \<noteq> ord\<close> \<open>q \<in> set (fl ord')\<close> ord that
        by (intro disjoint_blocksD [OF dj]) auto
      then show "x \<notin> (\<Union>p \<in> set ys. node_bytes p)"
        using \<open>x \<in> node_bytes q\<close> blk_node [of q ord'] blk_node [of _ ord] by blast
    qed
    then show ?thesis using dlist_cong [of "fl ord'" m' m] g(4) [OF \<open>ord' \<le> 10\<close>] by simp
  qed
  moreover have "disjoint_blocks (fl(ord := xs))"
    by (rule disjoint_blocks_subset [OF dj]) (use new(3) in \<open>auto simp: fblocks_def split: if_splits\<close>)
  ultimately show ?thesis
    using g(1,3,5,6) new(1,2,4) ord
    by (auto simp: lists_ok_def conf_cong [OF conf] nth_list_update)
qed

lemma push_block_spec:
  assumes ok: "lists_ok L (m, b) fl" and pl: "placeable L b fl ord a"
  shows "\<exists>m' b'. push_block ord a (m, b) = Some (m', b') \<and>
    lists_ok L (m', b') (fl(ord := a # fl ord)) \<and> same_conf b b' \<and>
    (\<forall>x. x \<notin> free_bytes fl \<union> blk ord a \<longrightarrow> m' x = m x)"
proof -
  let ?h = "free_list b ! ord" and ?ys = "a # fl ord"
  let ?b = "b\<lparr>free_list := (free_list b)[ord := a]\<rparr>"
  let ?m1 = "set_next (set_prev m a 0) a ?h"
  let ?m = "if ?h \<noteq> 0 then set_prev ?m1 ?h a else ?m1"
  from pl have ord: "ord \<le> 10" and reg: "in_region L b ord a" and "a \<noteq> 0"
    and dj: "blk ord a \<inter> free_bytes fl = {}"
    by (auto simp: placeable_def in_region_def)
  note g = lists_okD [OF ok]
  have a64: "a < 2 ^ 64" using g(1) reg by (rule in_region_less)
  have dl: "dlist m 0 ?h (fl ord)" using g(4) ord by blast
  have h: "?h \<noteq> 0 \<Longrightarrow> ?h \<in> set (fl ord)" using dlist_head [OF dl] by (cases "fl ord") auto
  then have h64: "?h < 2 ^ 64"
    using in_region_less [OF g(1) g(6), of ord ?h] ord by (cases "?h = 0") auto
  have eq: "push_block ord a (m, b) = Some (?m, ?b)"
    using ord g(3) \<open>a \<noteq> 0\<close> by (simp add: push_block_def list_head_def set_head_def Let_def)
  have touch: "?m x = m x" if "x \<notin> (\<Union>p \<in> set ?ys. node_bytes p)" for x
    using that h by (auto simp: set_outside)
  have dj': "disjoint_blocks (fl(ord := ?ys))" using g(2) ord dj by (rule disjoint_blocks_Cons)
  have nin: "a \<notin> set (fl ord)" using dj blk_free [of ord a fl] ord blk_self [of a ord] unfolding fblocks_iff by blast
  have new: "dlist ?m 0 a ?ys"
    using dl disjoint_blocks_apart [OF dj' ord] nin g(5) [OF ord] \<open>a \<noteq> 0\<close> a64 h64
    by (intro dlist_push) auto
  have "lists_ok L (?m, ?b) (fl(ord := ?ys))"
    using nin g(5) [OF ord] reg g(6) [of ord] ord
    by (intro lists_ok_update [OF ok ord dj' touch new]) auto
  moreover have "\<forall>x. x \<notin> free_bytes fl \<union> blk ord a \<longrightarrow> ?m x = m x"
    using touch nodes_free [of ord fl, OF ord] blk_node [of a ord] unfolding list.set by blast
  ultimately show ?thesis using eq by (auto simp: same_conf_def)
qed

lemma remove_block_spec:
  assumes ok: "lists_ok L (m, b) fl" and mem: "(ord, a) \<in> fblocks fl"
  shows "\<exists>m' b'. remove_block ord a (m, b) = Some (m', b') \<and>
    lists_ok L (m', b') (fl(ord := remove1 a (fl ord))) \<and> same_conf b b' \<and>
    (\<forall>x. x \<notin> free_bytes fl \<longrightarrow> m' x = m x)"
proof -
  note g = lists_okD [OF ok]
  let ?xs = "fl ord" and ?m = "unlink m a"
  from mem have ord: "ord \<le> 10" and a: "a \<in> set ?xs" by auto
  have dl: "dlist m 0 (free_list b ! ord) ?xs" and dist: "distinct ?xs" using g ord by auto
  have ap: "apart (set ?xs)" using g(2) ord by (rule disjoint_blocks_apart)
  have x64: "\<forall>x \<in> set ?xs. x < 2 ^ 64" using in_region_less [OF g(1) g(6), of ord] ord by auto
  have "a \<noteq> 0" using dlist_nonzero [OF dl] a by metis
  from a obtain ys zs where xs: "?xs = ys @ a # zs" "a \<notin> set ys" by (meson split_list_first)
  have rem: "remove1 a ?xs = ys @ zs" using xs by (simp add: remove1_append)
  define p where "p = (if ys = [] then fb_next m a else free_list b ! ord)"
  let ?b = "b\<lparr>free_list := (free_list b)[ord := p]\<rparr>"
  have nx: "fb_next m a = hd0 zs" using dlist_next dl xs by metis
  have core: "remove_block ord a (m, b) = Some (?m, ?b) \<and> dlist ?m 0 p (ys @ zs) \<and>
    (\<forall>x. x \<notin> (\<Union>p \<in> set ?xs. node_bytes p) \<longrightarrow> ?m x = m x)"
  proof (cases ys rule: rev_cases)
    case Nil
    have "fb_prev m a = 0" using dl xs Nil by auto
    moreover have "dlist ?m 0 (fb_next m a) zs"
      using dl xs Nil ap dist dlist_unlink_head [of m "free_list b ! ord" a zs] by simp
    moreover have "hd0 zs \<noteq> 0 \<Longrightarrow> hd0 zs \<in> set ?xs" using xs by (cases zs) auto
    ultimately show ?thesis using Nil g(3) ord \<open>a \<noteq> 0\<close> nx
      by (auto simp: p_def remove_block_def set_head_def unlink_def Let_def set_outside)
  next
    case (snoc ws w)
    have pv: "fb_prev m a = w" using dlist_prev [of m 0 "free_list b ! ord" ws w a zs] dl xs snoc by simp
    have "w \<noteq> 0" using dlist_nonzero [OF dl] xs snoc by auto
    have "dlist ?m 0 (free_list b ! ord) (ws @ w # zs)"
      using dlist_unlink_inner [of m 0 "free_list b ! ord" ws w a zs] dl ap dist x64 xs snoc by simp
    moreover have "hd0 zs \<noteq> 0 \<Longrightarrow> hd0 zs \<in> set ?xs" using xs by (cases zs) auto
    moreover have "node_bytes w \<inter> node_bytes a = {}"
      using dist xs snoc by (intro apartD [OF ap]) auto
    ultimately show ?thesis using snoc xs \<open>a \<noteq> 0\<close> \<open>w \<noteq> 0\<close> pv nx
      by (auto simp: p_def remove_block_def unlink_def Let_def set_outside fb_other)
  qed
  have "lists_ok L (?m, ?b) (fl(ord := remove1 a ?xs))"
  proof (rule lists_ok_update [OF ok ord])
    show "disjoint_blocks (fl(ord := ?xs))" using g(2) by simp
    show "dlist ?m 0 p (remove1 a ?xs)" using core rem by simp
    show "distinct (remove1 a ?xs)" "set (remove1 a ?xs) \<subseteq> set ?xs" using dist by (auto dest: notin_set_remove1)
    show "in_region L b ord x" if "x \<in> set (remove1 a ?xs)" for x using that g(6) [of ord x] ord dist by simp
  qed (use core in blast)
  moreover have "\<forall>x. x \<notin> free_bytes fl \<longrightarrow> ?m x = m x"
    using core nodes_free [of ord fl, OF ord] by blast
  ultimately show ?thesis using core by (auto simp: same_conf_def)
qed


section \<open>One list change and one bit flip\<close>

lemma agree_flip:
  assumes "geometry L b" "in_region L b ord a"
  shows "agree_off (bitmap_bytes b) m (flip_bm m b (bit_pos b ord a))"
  using assms bit_pos_byte [of L b ord a] bsz_pos(1) [of ord]
  by (auto simp: agree_off_def flip_bm_def bitmap_bytes_def in_region_def simp del: bsz_pos)

lemma bm_bit_agree:
  assumes "agree_off X m m'" "X \<inter> bitmap_bytes b = {}" "i div 8 < bitmap_size b"
  shows "bm_bit m' b i = bm_bit m b i"
proof -
  have "bitmap b + i div 8 \<in> bitmap_bytes b" using assms(3) by (simp add: bitmap_bytes_def)
  then show ?thesis using assms(1,2) unfolding bm_bit_def agree_off_def by (metis disjoint_iff)
qed

lemma in_regionD:
  assumes "in_region L b ord a"
  shows "ord \<le> 10" "a \<noteq> 0" "bsz ord dvd a" "base_addr b \<le> a" "a < base_addr b + L"
    "blk ord a \<inter> bitmap_bytes b = {}"
  using assms bsz_pos(1) [of ord] unfolding in_region_def by (simp_all del: bsz_pos)

lemma bits_ok_flip:
  assumes bits: "bits_ok L b bm fl" and g: "geometry L b" and a: "in_region L b ord a"
    and mem: "\<And>o' x. o' \<le> 10 \<Longrightarrow> (x \<in> set (fl' o')) = ((x \<in> set (fl o')) \<noteq> (o' = ord \<and> x = a))"
    and bm: "\<And>i. i div 8 < bitmap_size b \<Longrightarrow> bm' i = (bm i \<noteq> (i = bit_pos b ord a))"
  shows "bits_ok L b bm' fl'"
  unfolding bits_ok_def
proof (intro allI impI)
  fix o' x assume o': "o' < 10" and x: "bsz o' dvd x" "base_addr b \<le> x" "x < base_addr b + L"
  note a' = in_regionD [OF a]
  have old: "bm (bit_pos b o' x) = ((x \<in> set (fl o')) \<noteq> (buddy_of o' x \<in> set (fl o')))"
    using bits o' x unfolding bits_ok_def by blast
  have new: "bm' (bit_pos b o' x) = (bm (bit_pos b o' x) \<noteq> (bit_pos b o' x = bit_pos b ord a))"
    using bit_pos_byte [OF g _ x(2,3), of o'] o' by (intro bm) simp
  have same: "bit_pos b o' x = bit_pos b ord a \<longleftrightarrow> o' = ord \<and> (x = a \<or> buddy_of o' x = a)"
  proof (cases "o' = ord")
    case True
    have "x div bsz (Suc ord) = a div bsz (Suc ord) \<longleftrightarrow> x = a \<or> buddy_of ord x = a"
      using same_pair [of ord x a] buddy_blk(7) [of ord x] x a' True by metis
    then show ?thesis using bit_pos_pair [OF g, of ord x a] o' x a' True by simp
  next
    case False
    then show ?thesis using bit_pos_orders [OF g, of o' ord x a] o' x a' by auto
  qed
  show "bm' (bit_pos b o' x) = ((x \<in> set (fl' o')) \<noteq> (buddy_of o' x \<in> set (fl' o')))"
    unfolding mem [OF less_imp_le [OF o']] old new same using buddy_blk(5) [OF x(1)]
    by (cases "x = a"; cases "buddy_of o' x = a"; cases "o' = ord") simp_all
qed

lemma buddy_inv_flip:
  assumes inv: "buddy_inv L (m, b) fl" and ok: "lists_ok L (m', b') fl'" and conf: "same_conf b b'"
    and a: "in_region L b ord a"
    and mem: "\<And>o' x. o' \<le> 10 \<Longrightarrow> (x \<in> set (fl' o')) = ((x \<in> set (fl o')) \<noteq> (o' = ord \<and> x = a))"
    and bm: "\<And>i. i div 8 < bitmap_size b \<Longrightarrow> bm_bit m' b i = (bm_bit m b i \<noteq> (i = bit_pos b ord a))"
  shows "buddy_inv L (m', b') fl'"
proof -
  have "bits_ok L b (bm_bit m' b) fl'"
    using inv by (intro bits_ok_flip [OF _ _ a mem bm]) (simp_all add: buddy_inv_def lists_ok_def)
  with ok show ?thesis by (simp add: buddy_inv_def conf_cong [OF conf])
qed

lemma push_toggle:
  assumes inv: "buddy_inv L (m, b) fl" and pl: "placeable L b fl ord a"
  obtains m1 m' b' f where "push_block ord a (m, b) = Some (m1, b')"
    "toggle_bit ord a (m1, b') = Some (f, (m', b'))"
    "buddy_inv L (m', b') (fl(ord := a # fl ord))" "same_conf b b'"
    "agree_off (free_bytes fl \<union> blk ord a \<union> bitmap_bytes b) m m'"
proof -
  from inv have ok: "lists_ok L (m, b) fl" by (simp add: buddy_inv_def)
  from pl have a: "in_region L b ord a" and dj: "blk ord a \<inter> free_bytes fl = {}"
    by (simp_all add: placeable_def)
  note a' = in_regionD [OF a]
  obtain m1 b' where p: "push_block ord a (m, b) = Some (m1, b')" "same_conf b b'"
      "lists_ok L (m1, b') (fl(ord := a # fl ord))" "agree_off (free_bytes fl \<union> blk ord a) m m1"
    using push_block_spec [OF ok pl] unfolding agree_off_def by blast
  note c = conf_cong [OF p(2)]
  let ?m = "flip_bm m1 b (bit_pos b ord a)"
  have g: "geometry L b" using ok by (rule lists_okD)
  have t: "toggle_bit ord a (m1, b') = Some (bm_bit m1 b' (bit_pos b' ord a), (?m, b'))"
    using toggle_bit_spec [of L b' ord a m1] a' g p(2) by (simp add: c same_conf_def)
  have ag: "agree_off (bitmap_bytes b) m1 ?m" using g a by (rule agree_flip)
  have "free_bytes (fl(ord := a # fl ord)) \<inter> bitmap_bytes b = {}"
    using free_bytes_region [OF p(3)] by (simp add: c)
  then have ok': "lists_ok L (?m, b') (fl(ord := a # fl ord))" and off: "(free_bytes fl \<union> blk ord a) \<inter> bitmap_bytes b = {}"
    using ag a' by (auto intro!: lists_ok_mem [OF p(3)] simp: agree_off_def free_bytes_Cons)
  have "a \<notin> set (fl ord)" using dj blk_free [of ord a fl] blk_self [of a ord] a' unfolding fblocks_iff by blast
  then have "buddy_inv L (?m, b') (fl(ord := a # fl ord))"
    by (intro buddy_inv_flip [OF inv ok' p(2) a])
      (auto simp: bm_bit_flip bm_bit_agree [OF p(4) off])
  then show thesis using that p t agree_off_trans [OF p(4) ag] by blast
qed

lemma remove_toggle:
  assumes inv: "buddy_inv L (m, b) fl" and blk: "(ord, a) \<in> fblocks fl"
  obtains m1 m' b' f where "remove_block ord a (m, b) = Some (m1, b')"
    "toggle_bit ord a (m1, b') = Some (f, (m', b'))"
    "buddy_inv L (m', b') (fl(ord := remove1 a (fl ord)))" "same_conf b b'"
    "agree_off (free_bytes fl \<union> bitmap_bytes b) m m'"
proof -
  from inv have ok: "lists_ok L (m, b) fl" by (simp add: buddy_inv_def)
  let ?fl = "fl(ord := remove1 a (fl ord))"
  have a: "in_region L b ord a" and dist: "distinct (fl ord)" using lists_okD [OF ok] blk by auto
  note a' = in_regionD [OF a]
  obtain m1 b' where p: "remove_block ord a (m, b) = Some (m1, b')" "same_conf b b'"
      "lists_ok L (m1, b') ?fl" "agree_off (free_bytes fl) m m1"
    using remove_block_spec [OF ok blk] unfolding agree_off_def by blast
  note c = conf_cong [OF p(2)]
  let ?m = "flip_bm m1 b (bit_pos b ord a)"
  have g: "geometry L b" using ok by (rule lists_okD)
  have t: "toggle_bit ord a (m1, b') = Some (bm_bit m1 b' (bit_pos b' ord a), (?m, b'))"
    using toggle_bit_spec [of L b' ord a m1] a' g p(2) by (simp add: c same_conf_def)
  have ag: "agree_off (bitmap_bytes b) m1 ?m" using g a by (rule agree_flip)
  have off: "free_bytes fl \<inter> bitmap_bytes b = {}" using free_bytes_region [OF ok] by simp
  have ok': "lists_ok L (?m, b') ?fl"
    using ag free_bytes_region [OF p(3)] by (auto intro!: lists_ok_mem [OF p(3)] simp: agree_off_def c)
  have "buddy_inv L (?m, b') ?fl"
    using dist blk by (intro buddy_inv_flip [OF inv ok' p(2) a])
      (auto simp: bm_bit_flip bm_bit_agree [OF p(4) off])
  then show thesis using that p t agree_off_trans [OF p(4) ag] by blast
qed

end
