(* ===== verification/Buddy_Spec.thy ===== *)
theory Buddy_Spec
  imports Buddy_Inv
begin

text \<open>
  What \<^verbatim>\<open>alloc\<close>, \<^verbatim>\<open>free\<close>, \<^verbatim>\<open>add_free_region\<close> and \<^verbatim>\<open>count_free_memory\<close> of
  \<^verbatim>\<open>src/mm/buddy.rs\<close> do to the set of free bytes, from the one-step lemmas of
  \<^verbatim>\<open>Buddy_Inv\<close>.
\<close>


section \<open>Allocation\<close>

text \<open>What taking a block out of the free memory, and giving one back, mean for the state.\<close>

definition took :: "nat \<Rightarrow> nat \<Rightarrow> usize \<Rightarrow> buddy_st \<Rightarrow> frees \<Rightarrow> buddy_st \<Rightarrow> frees \<Rightarrow> bool" where
  "took L ord a s fl s' fl' \<longleftrightarrow> buddy_inv L s' fl' \<and> same_conf (snd s) (snd s') \<and>
     in_region L (snd s) ord a \<and> blk ord a \<subseteq> free_bytes fl \<and>
     free_bytes fl' = free_bytes fl - blk ord a \<and>
     agree_off (free_bytes fl \<union> bitmap_bytes (snd s)) (fst s) (fst s')"

definition gave :: "nat \<Rightarrow> nat set \<Rightarrow> buddy_st \<Rightarrow> frees \<Rightarrow> buddy_st \<Rightarrow> frees \<Rightarrow> bool" where
  "gave L X s fl s' fl' \<longleftrightarrow> buddy_inv L s' fl' \<and> same_conf (snd s) (snd s') \<and>
     free_bytes fl' = free_bytes fl \<union> X \<and>
     agree_off (free_bytes fl \<union> X \<union> bitmap_bytes (snd s)) (fst s) (fst s')"

lemma buddy_invD: "buddy_inv L (m, b) fl \<Longrightarrow> lists_ok L (m, b) fl"
  "buddy_inv L (m, b) fl \<Longrightarrow> geometry L b"
  by (simp_all add: buddy_inv_def lists_ok_def)

lemma in_region_blk: "in_region L b ord a \<Longrightarrow> blk ord a \<inter> bitmap_bytes b = {}"
  by (simp add: in_region_def)

lemma in_region_sub:
  assumes "in_region L b ord a" "blk ord' a' \<subseteq> blk ord a" "ord' \<le> 10" "bsz ord' dvd a'"
  shows "in_region L b ord' a'"
proof -
  have "a \<le> a'" "a' + bsz ord' \<le> a + bsz ord"
    using assms(2) bsz_pos(1) [of ord'] atLeastLessThan_subset_iff unfolding blk_def by force+
  then show ?thesis using assms unfolding in_region_def by auto
qed

lemma halves:
  assumes "bsz (Suc ord) dvd a"
  shows "blk (Suc ord) a = blk ord a \<union> blk ord (a + bsz ord)" "blk ord a \<inter> blk ord (a + bsz ord) = {}"
    "bsz ord dvd a" "bsz ord dvd a + bsz ord"
  using assms by (auto simp: blk_def bsz_Suc intro: dvd_trans)

lemma push_half:
  assumes inv: "buddy_inv L (m, b) fl" and pl: "placeable L b fl (Suc ord) a"
  obtains m1 m' b' f fl' where "push_block ord (a + bsz ord) (m, b) = Some (m1, b')"
    "toggle_bit ord (a + bsz ord) (m1, b') = Some (f, (m', b'))"
    "gave L (blk ord (a + bsz ord)) (m, b) fl (m', b') fl'" "placeable L b' fl' ord a"
proof -
  from pl have reg: "in_region L b (Suc ord) a" and dj: "blk (Suc ord) a \<inter> free_bytes fl = {}"
    by (simp_all add: placeable_def)
  note h = halves [OF in_regionD(3) [OF reg]]
  have ord: "Suc ord \<le> 10" using reg by (rule in_regionD)
  have regs: "in_region L b ord a" "in_region L b ord (a + bsz ord)"
    using h ord by (auto intro!: in_region_sub [OF reg])
  then have "placeable L b fl ord (a + bsz ord)" using dj h by (auto simp: placeable_def)
  then obtain m1 m' b' f where r: "push_block ord (a + bsz ord) (m, b) = Some (m1, b')"
    "toggle_bit ord (a + bsz ord) (m1, b') = Some (f, (m', b'))"
    "buddy_inv L (m', b') (fl(ord := (a + bsz ord) # fl ord))" "same_conf b b'"
    "agree_off (free_bytes fl \<union> blk ord (a + bsz ord) \<union> bitmap_bytes b) m m'"
    by (rule push_toggle [OF inv])
  have "placeable L b' (fl(ord := (a + bsz ord) # fl ord)) ord a"
    using regs dj h ord by (auto simp: placeable_def free_bytes_Cons conf_cong [OF r(4)])
  then show thesis using r ord
    by (intro that [of m1 b' f m' "fl(ord := (a + bsz ord) # fl ord)"])
      (auto simp: gave_def free_bytes_Cons)
qed

lemma gave_trans:
  assumes "gave L X s fl s' fl'" "gave L Y s' fl' s'' fl''" "Z = X \<union> Y"
  shows "gave L Z s fl s'' fl''"
proof -
  have bm: "bitmap_bytes (snd s') = bitmap_bytes (snd s)"
    using assms(1) conf_cong(7) unfolding gave_def by blast
  have "agree_off (free_bytes fl \<union> X \<union> bitmap_bytes (snd s)) (fst s) (fst s')"
    "agree_off (free_bytes fl' \<union> Y \<union> bitmap_bytes (snd s')) (fst s') (fst s'')"
    using assms(1,2) by (simp_all add: gave_def)
  then have "agree_off (free_bytes fl \<union> Z \<union> bitmap_bytes (snd s)) (fst s) (fst s'')"
    by (rule agree_off_trans) (use assms bm in \<open>auto simp: gave_def\<close>)
  with assms show ?thesis
    unfolding gave_def by (auto intro: same_conf_trans)
qed

lemma remove_took:
  assumes inv: "buddy_inv L (m, b) fl" and blk: "(ord, a) \<in> fblocks fl"
  obtains m1 m' b' f fl' where "remove_block ord a (m, b) = Some (m1, b')"
    "toggle_bit ord a (m1, b') = Some (f, (m', b'))" "took L ord a (m, b) fl (m', b') fl'"
proof -
  obtain m1 m' b' f where r: "remove_block ord a (m, b) = Some (m1, b')"
    "toggle_bit ord a (m1, b') = Some (f, (m', b'))"
    "buddy_inv L (m', b') (fl(ord := remove1 a (fl ord)))" "same_conf b b'"
    "agree_off (free_bytes fl \<union> bitmap_bytes b) m m'"
    using inv blk by (rule remove_toggle)
  note g = lists_okD [OF buddy_invD(1) [OF inv]]
  have "distinct (fl ord)" using g(5) [of ord] blk by auto
  with r blk have "took L ord a (m, b) fl (m', b') (fl(ord := remove1 a (fl ord)))"
    using free_bytes_remove1 [of fl ord a, OF g(2)] blk_free [OF blk] g(6) [OF blk]
    by (simp add: took_def)
  then show thesis using r that by blast
qed

lemma took_gave:
  assumes "took L cur a s fl s' fl'" "gave L (blk cur a - blk ord a) s' fl' s'' fl''"
    "blk ord a \<subseteq> blk cur a" "ord \<le> cur" "bsz ord dvd a"
  shows "took L ord a s fl s'' fl''"
proof -
  from assms(1) have conf: "same_conf (snd s) (snd s')" and reg: "in_region L (snd s) cur a"
    and sub: "blk cur a \<subseteq> free_bytes fl" and fr: "free_bytes fl' = free_bytes fl - blk cur a"
    by (simp_all add: took_def)
  have "agree_off (free_bytes fl \<union> bitmap_bytes (snd s)) (fst s) (fst s')"
    "agree_off (free_bytes fl' \<union> (blk cur a - blk ord a) \<union> bitmap_bytes (snd s')) (fst s') (fst s'')"
    using assms(1,2) by (simp_all add: took_def gave_def)
  then have "agree_off (free_bytes fl \<union> bitmap_bytes (snd s)) (fst s) (fst s'')"
    by (rule agree_off_trans) (use sub fr conf_cong(7) [OF conf] in auto)
  moreover have "in_region L (snd s) ord a"
    using assms(3-5) in_regionD(1) [OF reg] by (intro in_region_sub [OF reg]) auto
  moreover have "free_bytes fl'' = free_bytes fl - blk ord a"
    using assms(2,3) sub fr by (auto simp: gave_def)
  ultimately show ?thesis
    using assms(2,3) sub conf unfolding took_def gave_def by (blast intro: same_conf_trans)
qed

lemma split_block_spec:
  assumes "buddy_inv L (m, b) fl" "placeable L b fl cur a" "ord \<le> cur"
  shows "\<exists>m' b' fl'. split_block cur ord a (m, b) = Some (m', b') \<and>
    gave L (blk cur a - blk ord a) (m, b) fl (m', b') fl' \<and> blk ord a \<subseteq> blk cur a \<and> bsz ord dvd a"
  using assms
proof (induction cur arbitrary: m b fl)
  case 0
  then show ?case
    by (auto simp: split_block.simps [of 0] gave_def placeable_def in_region_def)
next
  case (Suc cur)
  have al: "bsz (Suc cur) dvd a" and c: "Suc cur \<le> 10" and a: "a + bsz (Suc cur) \<le> base_addr b + L"
    using Suc.prems(2) by (auto simp: placeable_def in_region_def)
  note h = halves [OF al]
  show ?case
  proof (cases "ord = Suc cur")
    case True
    with Suc.prems al show ?thesis by (auto simp: split_block.simps [of "Suc cur"] gave_def)
  next
    case False
    with Suc.prems have le: "ord \<le> cur" by simp
    obtain m1 m2 b2 f fl2 where r: "push_block cur (a + bsz cur) (m, b) = Some (m1, b2)"
      "toggle_bit cur (a + bsz cur) (m1, b2) = Some (f, (m2, b2))"
      "gave L (blk cur (a + bsz cur)) (m, b) fl (m2, b2) fl2" "placeable L b2 fl2 cur a"
      using Suc.prems by (elim push_half)
    then obtain m' b' fl' where IH: "split_block cur ord a (m2, b2) = Some (m', b')"
      "gave L (blk cur a - blk ord a) (m2, b2) fl2 (m', b') fl'" "blk ord a \<subseteq> blk cur a" "bsz ord dvd a"
      using Suc.IH [of m2 b2 fl2] le by (auto simp: gave_def)
    have "base_addr b + L < 2 ^ 64" using buddy_invD(2) [OF Suc.prems(1)] by (simp add: geometry_def)
    then have "uadd a (bsz cur) = Some (a + bsz cur)" using a by (simp add: uadd_def bsz_Suc)
    then have "split_block (Suc cur) ord a (m, b) = Some (m', b')"
      using le c r IH by (simp add: split_block.simps [of "Suc cur"] bsz_shl)
    moreover have "gave L (blk (Suc cur) a - blk ord a) (m, b) fl (m', b') fl'"
      using h IH(3) by (intro gave_trans [OF r(3) IH(2)]) blast
    ultimately show ?thesis using IH h by blast
  qed
qed

lemma head_free:
  assumes "lists_ok L (m, b) fl" "ord \<le> 10"
  shows "list_head ord (m, b) = Some (hd0 (fl ord))"
    and "hd0 (fl ord) = 0 \<longleftrightarrow> fl ord = []" and "fl ord \<noteq> [] \<Longrightarrow> (ord, hd0 (fl ord)) \<in> fblocks fl"
  using lists_okD(3) [OF assms(1)] lists_okD(4) [OF assms(1), of ord] assms(2)
    dlist_head [of m 0 "free_list b ! ord" "fl ord"]
  by (cases "fl ord"; force simp: list_head_def)+

text \<open>The outcome of a search among the orders from \<open>lo\<close> on for a block of order \<open>ord\<close>.\<close>

definition alloc_outcome ::
  "nat \<Rightarrow> nat \<Rightarrow> nat \<Rightarrow> buddy_st \<Rightarrow> frees \<Rightarrow> (usize option \<times> buddy_st) option \<Rightarrow> bool" where
  "alloc_outcome L lo ord s fl r \<longleftrightarrow>
     (if \<forall>i \<in> {lo..10}. fl i = [] then r = Some (None, s)
      else \<exists>a s' fl'. r = Some (Some a, s') \<and> took L ord a s fl s' fl')"

lemma alloc_outcome_skip:
  assumes "lo \<le> 10" "fl lo = []"
  shows "alloc_outcome L lo ord s fl r = alloc_outcome L (Suc lo) ord s fl r"
proof -
  have "{lo..10} = insert lo {Suc lo..10}" using assms(1) by auto
  then show ?thesis unfolding alloc_outcome_def using assms(2) by (simp only: ball_simps simp_thms)
qed

lemma alloc_higher_spec:
  assumes "buddy_inv L (m, b) fl" "ord \<le> lo" "lo \<le> 11"
  shows "alloc_outcome L lo ord (m, b) fl (alloc_higher lo ord (m, b))"
  using assms(2,3)
proof (induction "11 - lo" arbitrary: lo)
  case 0
  then show ?case by (simp add: alloc_outcome_def alloc_higher.simps [of 11])
next
  case (Suc n)
  then have lo: "lo \<le> 10" by simp
  note h = head_free [OF buddy_invD(1) [OF assms(1)] lo]
  show ?case
  proof (cases "fl lo = []")
    case True
    then have "alloc_higher lo ord (m, b) = alloc_higher (lo + 1) ord (m, b)"
      using h lo by (simp add: alloc_higher.simps [of lo])
    with Suc.hyps(1) [of "Suc lo"] Suc.hyps(2) Suc.prems True lo show ?thesis
      by (simp add: alloc_outcome_skip [of lo])
  next
    case False
    define a where "a = hd0 (fl lo)"
    have a: "(lo, a) \<in> fblocks fl" "a \<noteq> 0" using h False by (auto simp: a_def)
    obtain m1 m2 b2 f fl2 where r: "remove_block lo a (m, b) = Some (m1, b2)"
      "toggle_bit lo a (m1, b2) = Some (f, (m2, b2))" and t: "took L lo a (m, b) fl (m2, b2) fl2"
      using assms(1) a(1) by (rule remove_took)
    from t have "buddy_inv L (m2, b2) fl2" "placeable L b2 fl2 lo a"
      by (auto simp: took_def placeable_def conf_cong)
    from split_block_spec [OF this Suc.prems(1)] obtain m3 b3 fl3 where
      s: "split_block lo ord a (m2, b2) = Some (m3, b3)"
      and g: "gave L (blk lo a - blk ord a) (m2, b2) fl2 (m3, b3) fl3" "blk ord a \<subseteq> blk lo a" "bsz ord dvd a"
      by blast
    have "alloc_higher lo ord (m, b) = Some (Some a, (m3, b3))"
      using h lo a(2) r s by (simp add: alloc_higher.simps [of lo] a_def [symmetric])
    moreover have "took L ord a (m, b) fl (m3, b3) fl3"
      using t g(1,2) Suc.prems(1) g(3) by (rule took_gave)
    ultimately show ?thesis using False lo unfolding alloc_outcome_def by auto
  qed
qed

lemma buddy_alloc_spec:
  assumes inv: "buddy_inv L (m, b) fl"
  shows "alloc_outcome L (min ord 10) (min ord 10) (m, b) fl (buddy_alloc ord (m, b))"
proof -
  define lo where "lo = min ord 10"
  have lo: "lo \<le> 10" by (simp add: lo_def)
  note h = head_free [OF buddy_invD(1) [OF inv] lo]
  have "alloc_outcome L lo lo (m, b) fl (buddy_alloc ord (m, b))"
  proof (cases "fl lo = []")
    case True
    then have "buddy_alloc ord (m, b) = alloc_higher (lo + 1) lo (m, b)"
      using h by (simp add: buddy_alloc_def Let_def lo_def [symmetric])
    with alloc_higher_spec [OF inv, of lo "Suc lo"] lo True show ?thesis
      by (simp add: alloc_outcome_skip [of lo])
  next
    case False
    define a where "a = hd0 (fl lo)"
    have a: "(lo, a) \<in> fblocks fl" "a \<noteq> 0" using h False by (auto simp: a_def)
    obtain m1 m2 b2 f fl2 where r: "remove_block lo a (m, b) = Some (m1, b2)"
      "toggle_bit lo a (m1, b2) = Some (f, (m2, b2))" and t: "took L lo a (m, b) fl (m2, b2) fl2"
      using inv a(1) by (rule remove_took)
    then have "buddy_alloc ord (m, b) = Some (Some a, (m2, b2))"
      using h a(2) by (simp add: buddy_alloc_def Let_def lo_def [symmetric] a_def [symmetric])
    with t False lo show ?thesis unfolding alloc_outcome_def by auto
  qed
  then show ?thesis by (simp add: lo_def)
qed


section \<open>Freeing\<close>

lemma flip_lists_ok:
  assumes "lists_ok L (m, b) fl" "in_region L b ord a"
  shows "lists_ok L (flip_bm m b (bit_pos b ord a), b) fl"
  using agree_flip [OF lists_okD(1) [OF assms(1)] assms(2), of m] free_bytes_region [OF assms(1)]
  by (intro lists_ok_mem [OF assms(1)]) (auto simp: agree_off_def)

lemma placeable_notin: "placeable L b fl ord a \<Longrightarrow> a \<notin> set (fl ord)"
  using blk_free [of ord a fl] blk_self [of a ord]
  unfolding placeable_def in_region_def fblocks_iff by blast

lemma in_region_merge:
  assumes a: "in_region L b ord a" and y: "in_region L b ord (buddy_of ord a)" and "ord < 10"
  shows "in_region L b (Suc ord) (and_not a (bsz ord))"
proof -
  note bb = buddy_blk [OF in_regionD(3) [OF a]]
  have "blk (Suc ord) (and_not a (bsz ord)) \<inter> bitmap_bytes b = {}"
    using in_region_blk [OF a] in_region_blk [OF y] by (auto simp flip: bb(1))
  moreover from in_regionD(3) [OF a]
  have "and_not a (bsz ord) \<noteq> 0 \<and> base_addr b \<le> and_not a (bsz ord) \<and>
    and_not a (bsz ord) + bsz (Suc ord) \<le> base_addr b + L"
    by (rule buddy_cases) (use a y in \<open>auto simp: in_region_def bsz_Suc\<close>)
  ultimately show ?thesis using assms(3) bb(3) by (simp add: in_region_def)
qed

lemma toggle_free:
  assumes inv: "buddy_inv L (m, b) fl" and pl: "placeable L b fl ord a" and ord: "ord < 10"
  shows "toggle_bit ord a (m, b) =
    Some (buddy_of ord a \<in> set (fl ord), (flip_bm m b (bit_pos b ord a), b))"
proof -
  from pl have "in_region L b ord a" and dj: "blk ord a \<inter> free_bytes fl = {}"
    by (simp_all add: placeable_def)
  note a = in_regionD [OF this(1)]
  have "a \<notin> set (fl ord)" using pl by (rule placeable_notin)
  moreover have "bm_bit m b (bit_pos b ord a) = ((a \<in> set (fl ord)) \<noteq> (buddy_of ord a \<in> set (fl ord)))"
    using inv a ord unfolding buddy_inv_def bits_ok_def by auto
  ultimately show ?thesis
    using toggle_bit_spec [OF buddy_invD(2) [OF inv] a(1,4,5), of m] by simp
qed

lemma toggle_push:
  assumes inv: "buddy_inv L (m, b) fl" and pl: "placeable L b fl ord a" and ord: "ord < 10"
  obtains s' where "push_block ord a (flip_bm m b (bit_pos b ord a), b) = Some s'"
    "gave L (blk ord a) (m, b) fl s' (fl(ord := a # fl ord))"
proof -
  let ?m = "flip_bm m b (bit_pos b ord a)" and ?fl = "fl(ord := a # fl ord)"
  from pl have a: "in_region L b ord a" and dj: "blk ord a \<inter> free_bytes fl = {}"
    by (simp_all add: placeable_def)
  note ok = buddy_invD(1) [OF inv]
  obtain m' b' where p: "push_block ord a (?m, b) = Some (m', b')" "lists_ok L (m', b') ?fl"
      "same_conf b b'" "agree_off (free_bytes fl \<union> blk ord a) ?m m'"
    using push_block_spec [OF flip_lists_ok [OF ok a] pl] unfolding agree_off_def by blast
  have off: "(free_bytes fl \<union> blk ord a) \<inter> bitmap_bytes b = {}"
    using free_bytes_region [OF ok] in_region_blk [OF a] by auto
  have "a \<notin> set (fl ord)" using pl by (rule placeable_notin)
  then have "buddy_inv L (m', b') ?fl"
    by (intro buddy_inv_flip [OF inv p(2,3) a]) (auto simp: bm_bit_agree [OF p(4) off] bm_bit_flip)
  moreover have "agree_off (bitmap_bytes b) m ?m" using buddy_invD(2) [OF inv] a by (rule agree_flip)
  then have "agree_off (free_bytes fl \<union> blk ord a \<union> bitmap_bytes b) m m'"
    using p(4) by (rule agree_off_trans) auto
  ultimately show thesis using p ord by (intro that [of "(m', b')"]) (auto simp: gave_def free_bytes_Cons)
qed

lemma toggle_remove:
  assumes inv: "buddy_inv L (m, b) fl" and pl: "placeable L b fl ord a" and ord: "ord < 10"
    and buddy: "buddy_of ord a \<in> set (fl ord)"
  obtains m' b' fl' where "remove_block ord (buddy_of ord a) (flip_bm m b (bit_pos b ord a), b) = Some (m', b')"
    "took L ord (buddy_of ord a) (m, b) fl (m', b') fl'" "placeable L b' fl' (Suc ord) (and_not a (bsz ord))"
proof -
  let ?m = "flip_bm m b (bit_pos b ord a)" and ?y = "buddy_of ord a"
  let ?fl = "fl(ord := remove1 ?y (fl ord))"
  from pl have a: "in_region L b ord a" and dj: "blk ord a \<inter> free_bytes fl = {}"
    by (simp_all add: placeable_def)
  note ok = buddy_invD(1) [OF inv] and bb = buddy_blk [OF in_regionD(3) [OF a]]
  note g = lists_okD [OF ok]
  have y: "(ord, ?y) \<in> fblocks fl" using ord buddy by simp
  have yr: "in_region L b ord ?y" using y by (rule g(6))
  obtain m' b' where p: "remove_block ord ?y (?m, b) = Some (m', b')" "lists_ok L (m', b') ?fl"
      "same_conf b b'" "agree_off (free_bytes fl) ?m m'"
    using remove_block_spec [OF flip_lists_ok [OF ok a] y] unfolding agree_off_def by blast
  have off: "free_bytes fl \<inter> bitmap_bytes b = {}" using free_bytes_region [OF ok] by simp
  have dist: "distinct (fl ord)" using g(5) ord by simp
  have pos: "bit_pos b ord ?y = bit_pos b ord a"
    using bit_pos_pair [OF g(1) ord in_regionD(4) [OF yr] in_regionD(4) [OF a]] bb(7) by simp
  have "buddy_inv L (m', b') ?fl"
    using dist buddy by (intro buddy_inv_flip [OF inv p(2,3) yr])
      (auto simp: bm_bit_agree [OF p(4) off] bm_bit_flip pos)
  moreover have "agree_off (bitmap_bytes b) m ?m" using g(1) a by (rule agree_flip)
  then have "agree_off (free_bytes fl \<union> bitmap_bytes b) m m'"
    using p(4) by (rule agree_off_trans) auto
  moreover have fr: "free_bytes ?fl = free_bytes fl - blk ord ?y"
    using free_bytes_remove1 [of fl ord ?y, OF g(2) dist y] .
  ultimately have t: "took L ord ?y (m, b) fl (m', b') ?fl"
    using p(3) yr blk_free [OF y] by (simp add: took_def)
  have "in_region L b (Suc ord) (and_not a (bsz ord))"
    using a yr ord by (rule in_region_merge)
  then have "placeable L b' ?fl (Suc ord) (and_not a (bsz ord))"
    using dj by (auto simp: placeable_def conf_cong [OF p(3)] fr bb(1) [symmetric])
  with p(1) t show thesis by (rule that)
qed

lemma took_gave_merge:
  assumes "took L ord y s fl s' fl'" "gave L Z s' fl' s'' fl''" "Z = blk ord a \<union> blk ord y"
  shows "gave L (blk ord a) s fl s'' fl''"
proof -
  from assms(1) have conf: "same_conf (snd s) (snd s')"
    and sub: "blk ord y \<subseteq> free_bytes fl" and fr: "free_bytes fl' = free_bytes fl - blk ord y"
    by (simp_all add: took_def)
  have "agree_off (free_bytes fl \<union> bitmap_bytes (snd s)) (fst s) (fst s')"
    "agree_off (free_bytes fl' \<union> Z \<union> bitmap_bytes (snd s')) (fst s') (fst s'')"
    using assms(1,2) by (simp_all add: took_def gave_def)
  then have "agree_off (free_bytes fl \<union> blk ord a \<union> bitmap_bytes (snd s)) (fst s) (fst s'')"
    by (rule agree_off_trans) (use sub fr assms(3) conf_cong(7) [OF conf] in auto)
  moreover have "free_bytes fl'' = free_bytes fl \<union> blk ord a"
    using assms(2,3) sub fr by (auto simp: gave_def)
  ultimately show ?thesis
    using assms(2) conf unfolding gave_def by (blast intro: same_conf_trans)
qed

lemma push_gave:
  assumes inv: "buddy_inv L (m, b) fl" and pl: "placeable L b fl 10 a"
  obtains s' where "push_block 10 a (m, b) = Some s'"
    "gave L (blk 10 a) (m, b) fl s' (fl(10 := a # fl 10))"
proof -
  note ok = buddy_invD(1) [OF inv]
  have off: "(free_bytes fl \<union> blk 10 a) \<inter> bitmap_bytes b = {}"
    using free_bytes_region [OF ok] pl by (auto simp: placeable_def dest: in_region_blk)
  obtain m' b' where p: "push_block 10 a (m, b) = Some (m', b')"
      "lists_ok L (m', b') (fl(10 := a # fl 10))"
      "same_conf b b'" "agree_off (free_bytes fl \<union> blk 10 a) m m'"
    using push_block_spec [OF ok pl] unfolding agree_off_def by blast
  have "bm_bit m' b (bit_pos b ord x) = bm_bit m b (bit_pos b ord x)"
    if "ord < 10" "base_addr b \<le> x" "x < base_addr b + L" for ord x
    using that bit_pos_byte [OF buddy_invD(2) [OF inv]] by (intro bm_bit_agree [OF p(4) off]) simp
  then have "buddy_inv L (m', b') (fl(10 := a # fl 10))"
    using inv p(2) unfolding buddy_inv_def by (simp add: conf_cong [OF p(3)] bits_ok_def)
  with p show thesis
    by (intro that [of "(m', b')"]) (auto simp: gave_def free_bytes_Cons elim: agree_off_mono)
qed

lemma free_merge_spec:
  assumes "buddy_inv L (m, b) fl" "placeable L b fl ord a"
  shows "\<exists>s' fl'. free_merge a ord (m, b) = Some s' \<and> gave L (blk ord a) (m, b) fl s' fl'"
  using assms
proof (induction "10 - ord" arbitrary: ord a m b fl)
  case 0
  then have "ord = 10" by (simp add: placeable_def in_region_def)
  with 0 show ?case by (auto simp: free_merge.simps [of _ 10] elim!: push_gave)
next
  case (Suc n)
  then have ord: "ord < 10" by simp
  note t = toggle_free [OF Suc.prems ord]
  show ?case
  proof (cases "buddy_of ord a \<in> set (fl ord)")
    case True
    obtain m' b' fl' where r: "remove_block ord (buddy_of ord a) (flip_bm m b (bit_pos b ord a), b) = Some (m', b')"
      "took L ord (buddy_of ord a) (m, b) fl (m', b') fl'" "placeable L b' fl' (Suc ord) (and_not a (bsz ord))"
      using Suc.prems ord True by (rule toggle_remove)
    have "n = 10 - Suc ord" "buddy_inv L (m', b') fl'" using Suc.hyps(2) r(2) by (simp_all add: took_def)
    from Suc.hyps(1) [OF this r(3)] obtain s'' fl'' where IH: "free_merge (and_not a (bsz ord)) (Suc ord) (m', b') = Some s''"
      "gave L (blk (Suc ord) (and_not a (bsz ord))) (m', b') fl' s'' fl''"
      by blast
    have "free_merge a ord (m, b) = Some s''"
      using ord True t r(1) IH(1) by (simp add: free_merge.simps [of a ord] bsz_shl buddy_of_def)
    moreover have "bsz ord dvd a" using Suc.prems(2) by (simp add: placeable_def in_region_def)
    then have "gave L (blk ord a) (m, b) fl s'' fl''"
      by (intro took_gave_merge [OF r(2) IH(2)]) (simp add: buddy_blk(1))
    ultimately show ?thesis by blast
  next
    case False
    obtain s' where "push_block ord a (flip_bm m b (bit_pos b ord a), b) = Some s'"
      "gave L (blk ord a) (m, b) fl s' (fl(ord := a # fl ord))"
      using Suc.prems ord by (rule toggle_push)
    with ord False t show ?thesis by (auto simp: free_merge.simps [of a ord])
  qed
qed

lemma mask_low_aligned: "bsz ord dvd a \<Longrightarrow> mask_low 12 a = a"
  using bsz_dvd [of 0 ord] by (intro mask_low_id) (auto simp: bsz_0 intro: dvd_trans)

lemma buddy_free_spec:
  assumes "buddy_inv L (m, b) fl" "placeable L b fl ord a" "x div 4096 = a div 4096"
  shows "\<exists>s' fl'. buddy_free x ord (m, b) = Some s' \<and> gave L (blk ord a) (m, b) fl s' fl'"
proof -
  have ord: "ord \<le> 10" and al: "bsz ord dvd a" using assms(2) by (auto simp: placeable_def in_region_def)
  have "mask_low 12 x = a" using assms(3) mask_low_aligned [OF al] by (simp add: mask_low_def)
  then show ?thesis using free_merge_spec [OF assms(1,2)] ord by (simp add: buddy_free_def min_def)
qed


section \<open>Adding a region\<close>

definition carve_order :: "usize \<Rightarrow> usize \<Rightarrow> nat" where
  "carve_order start_addr end_addr =
     min (min (bit_length ((end_addr - start_addr) div 4096) - 1) (trailing_zeros start_addr - 12)) 10"

lemma carve_order:
  assumes "start_addr < end_addr" "4096 dvd start_addr" "4096 dvd end_addr" "start_addr \<noteq> 0" "end_addr < 2 ^ 64"
  shows "bsz (carve_order start_addr end_addr) dvd start_addr"
    and "start_addr + bsz (carve_order start_addr end_addr) \<le> end_addr"
    and "usub 63 (leading_zeros ((end_addr - start_addr) div 4096)) = Some (bit_length ((end_addr - start_addr) div 4096) - 1)"
proof -
  let ?o = "carve_order start_addr end_addr" and ?r = "(end_addr - start_addr) div 4096"
  have d: "4096 dvd end_addr - start_addr" using assms by auto
  then have "?r \<noteq> 0" using assms(1) by auto
  have "?o \<le> trailing_zeros start_addr - 12" by (simp add: carve_order_def)
  moreover have "12 \<le> trailing_zeros start_addr" using assms(2,4) by (intro trailing_zeros_max) simp_all
  ultimately have "12 + ?o \<le> trailing_zeros start_addr" by linarith
  then have "bsz ?o dvd 2 ^ trailing_zeros start_addr" unfolding bsz_def by (rule le_imp_power_dvd)
  then show "bsz ?o dvd start_addr" using trailing_zeros_dvd [OF assms(4)] by (rule dvd_trans)
  have "2 ^ ?o \<le> (2::nat) ^ (bit_length ?r - 1)" by (simp add: carve_order_def)
  also have "\<dots> \<le> ?r" using \<open>?r \<noteq> 0\<close> by (rule bit_length_ge)
  finally have "2 ^ ?o * 4096 \<le> ?r * 4096" by (rule mult_le_mono1)
  also have "?r * 4096 = end_addr - start_addr" using d by (rule dvd_div_mult_self)
  finally have "bsz ?o \<le> end_addr - start_addr" by (simp add: bsz_def power_add)
  then show "start_addr + bsz ?o \<le> end_addr" using assms(1) by linarith
  have "?r < 2 ^ 64" using assms(5) by (meson div_le_dividend diff_le_self le_less_trans)
  then have "bit_length ?r \<le> 64" "bit_length ?r \<noteq> 0"
    using bit_length_le \<open>?r \<noteq> 0\<close> by (auto simp: bit_length.simps)
  then show "usub 63 (leading_zeros ?r) = Some (bit_length ?r - 1)"
    by (simp add: usub_def leading_zeros_def)
qed

lemma add_free_region_step:
  assumes "start_addr < end_addr" "4096 dvd start_addr" "4096 dvd end_addr" "start_addr \<noteq> 0" "end_addr < 2 ^ 64"
    and "push_block (carve_order start_addr end_addr) start_addr s = Some s1"
    and "toggle_bit (carve_order start_addr end_addr) start_addr s1 = Some (f, s2)"
  shows "add_free_region start_addr end_addr s =
    add_free_region (start_addr + bsz (carve_order start_addr end_addr)) end_addr s2"
proof -
  have o: "carve_order start_addr end_addr \<le> 10" by (simp add: carve_order_def)
  note c = carve_order [OF assms(1-5)]
  have "uadd start_addr (bsz (carve_order start_addr end_addr)) = Some (start_addr + bsz (carve_order start_addr end_addr))"
    using c(2) assms(5) by (simp add: uadd_def)
  moreover have "min (min (bit_length ((end_addr - start_addr) div 4096) - Suc 0) (trailing_zeros start_addr - 12)) 10 =
    carve_order start_addr end_addr" by (simp add: carve_order_def)
  ultimately show ?thesis
    using assms bsz_shl [OF o] c(3) by (subst add_free_region.simps) (simp add: Let_def)
qed

text \<open>A page range that can be handed to the allocator.\<close>

definition addable :: "nat \<Rightarrow> buddy_allocator \<Rightarrow> frees \<Rightarrow> usize \<Rightarrow> usize \<Rightarrow> bool" where
  "addable L b fl start_addr end_addr \<longleftrightarrow> 4096 dvd start_addr \<and> 4096 dvd end_addr \<and> start_addr \<noteq> 0 \<and>
     base_addr b \<le> start_addr \<and> end_addr \<le> base_addr b + L \<and>
     {start_addr ..< end_addr} \<inter> (free_bytes fl \<union> bitmap_bytes b) = {}"

lemma add_free_region_spec:
  assumes "buddy_inv L (m, b) fl" "addable L b fl start_addr end_addr"
  shows "\<exists>s' fl'. add_free_region start_addr end_addr (m, b) = Some s' \<and>
    gave L {start_addr ..< end_addr} (m, b) fl s' fl'"
  using assms
proof (induction "end_addr - start_addr" arbitrary: start_addr m b fl rule: less_induct)
  case less
  show ?case
  proof (cases "start_addr < end_addr")
    case False
    with less.prems show ?thesis by (auto simp: add_free_region.simps gave_def)
  next
    case True
    define co where "co = carve_order start_addr end_addr"
    from less.prems have al: "4096 dvd start_addr" "4096 dvd end_addr" "start_addr \<noteq> 0" "end_addr < 2 ^ 64"
      and rng: "base_addr b \<le> start_addr" "end_addr \<le> base_addr b + L"
        "{start_addr ..< end_addr} \<inter> (free_bytes fl \<union> bitmap_bytes b) = {}"
      by (auto simp: addable_def dest!: buddy_invD(2) simp: geometry_def)
    note c = carve_order [OF True al, folded co_def]
    have co: "co \<le> 10" by (simp add: co_def carve_order_def)
    have sub: "blk co start_addr \<subseteq> {start_addr ..< end_addr}" using c(2) by (auto simp: blk_def)
    have "placeable L b fl co start_addr"
      using sub rng c al(3) co by (auto simp: placeable_def in_region_def)
    then obtain m1 m2 b2 f where r: "push_block co start_addr (m, b) = Some (m1, b2)"
      "toggle_bit co start_addr (m1, b2) = Some (f, (m2, b2))"
      "buddy_inv L (m2, b2) (fl(co := start_addr # fl co))" "same_conf b b2"
      "agree_off (free_bytes fl \<union> blk co start_addr \<union> bitmap_bytes b) m m2"
      by (rule push_toggle [OF less.prems(1)])
    let ?fl = "fl(co := start_addr # fl co)" and ?start = "start_addr + bsz co"
    have g: "gave L (blk co start_addr) (m, b) fl (m2, b2) ?fl"
      using r co by (auto simp: gave_def free_bytes_Cons)
    have "4096 dvd bsz co" using bsz_dvd [of 0 co] by (simp add: bsz_0)
    then have "4096 dvd ?start" using al(1) by (rule dvd_add [rotated])
    moreover have "{?start ..< end_addr} \<inter> (free_bytes ?fl \<union> bitmap_bytes b) = {}"
      using rng(3) unfolding free_bytes_Cons [OF co] blk_def disjoint_iff by auto
    ultimately have "addable L b2 ?fl ?start end_addr"
      using rng(1,2) al(2,3) r(4) unfolding addable_def conf_cong(7) [OF r(4)] by (simp add: same_conf_def)
    moreover have "end_addr - ?start < end_addr - start_addr"
      using True bsz_pos(1) [of co] by (simp del: bsz_pos)
    ultimately obtain s' fl' where IH: "add_free_region ?start end_addr (m2, b2) = Some s'"
      "gave L {?start ..< end_addr} (m2, b2) ?fl s' fl'"
      using less.hyps [OF _ r(3)] by blast
    have "add_free_region start_addr end_addr (m, b) = Some s'"
      using add_free_region_step [OF True al, folded co_def, OF r(1,2)] IH(1) by simp
    moreover have "gave L {start_addr ..< end_addr} (m, b) fl s' fl'"
      using c(2) by (intro gave_trans [OF g IH(2)]) (auto simp: blk_def)
    ultimately show ?thesis by blast
  qed
qed

section \<open>Counting\<close>

declare count_blocks.simps [simp del]

lemma count_blocks_dlist:
  "dlist m pr p xs \<Longrightarrow> n + length xs < 2 ^ 64 \<Longrightarrow> count_blocks m p n = Some (n + length xs)"
proof (induction xs arbitrary: pr p n)
  case Nil
  then show ?case by (simp add: count_blocks.simps [of m 0])
next
  case (Cons x xs)
  then have "uadd n 1 = Some (Suc n)" by (simp add: uadd_def)
  with Cons.prems Cons.IH [of x "fb_next m x" "Suc n"] show ?case by (simp add: count_blocks.simps [of m x])
qed

lemma card_free_bytes:
  assumes dj: "disjoint_blocks fl" and dist: "\<And>ord. ord \<le> 10 \<Longrightarrow> distinct (fl ord)"
  shows "card (free_bytes fl) = (\<Sum>ord<11. length (fl ord) * bsz ord)"
proof -
  have fb: "fblocks fl = (SIGMA ord:{..<11}. set (fl ord))" by (auto simp: fblocks_def)
  have "card (free_bytes fl) = (\<Sum>(ord, a) \<in> fblocks fl. card (blk ord a))"
    unfolding free_bytes_def
    by (subst card_UN_disjoint) (use disjoint_blocksD [OF dj] in \<open>auto simp: fb case_prod_unfold\<close>)
  also have "\<dots> = (\<Sum>ord<11. \<Sum>a \<in> set (fl ord). bsz ord)"
    unfolding fb by (subst sum.Sigma) auto
  also have "\<dots> = (\<Sum>ord<11. length (fl ord) * bsz ord)"
    using dist by (intro sum.cong) (auto simp: distinct_card)
  finally show ?thesis .
qed

lemma count_orders_spec:
  assumes ok: "lists_ok L (m, b) fl" and "i + n \<le> 11"
    and "tot + (\<Sum>ord = i..<i + n. length (fl ord) * bsz ord) < 2 ^ 64"
  shows "count_orders i n tot (m, b) = Some (tot + (\<Sum>ord = i..<i + n. length (fl ord) * bsz ord))"
  using assms(2,3)
proof (induction n arbitrary: i tot)
  case (Suc n)
  have i: "i \<le> 10" using Suc.prems by simp
  let ?k = "length (fl i) * bsz i"
  have sum: "(\<Sum>ord = i..<i + Suc n. length (fl ord) * bsz ord) = ?k + (\<Sum>ord = Suc i..<Suc i + n. length (fl ord) * bsz ord)"
    by (simp add: sum.atLeast_Suc_lessThan)
  have "length (fl i) * 1 \<le> ?k" by (intro mult_le_mono) (simp_all add: Suc_le_eq)
  then have lt: "length (fl i) < 2 ^ 64" "?k < 2 ^ 64" "tot + ?k < 2 ^ 64"
    using Suc.prems(2) unfolding sum by linarith+
  have "ushl 4096 i = Some (bsz i)"
    using i power_increasing [of i 10 "2::nat"] by (simp add: ushl_def bsz_def power_add)
  moreover have "count_blocks m (free_list b ! i) 0 = Some (length (fl i))"
    using count_blocks_dlist [OF lists_okD(4) [OF ok i], of 0] lt(1) by simp
  moreover have "list_head i (m, b) = Some (free_list b ! i)"
    using lists_okD(3) [OF ok] i by (simp add: list_head_def)
  ultimately have "count_orders i (Suc n) tot (m, b) = count_orders (Suc i) n (tot + ?k) (m, b)"
    using lt by (simp add: umul_def uadd_def)
  also have "\<dots> = Some (tot + (\<Sum>ord = i..<i + Suc n. length (fl ord) * bsz ord))"
    using Suc.IH [of "Suc i" "tot + ?k"] Suc.prems unfolding sum by simp
  finally show ?case .
qed simp

lemma free_bytes_bound:
  assumes "lists_ok L (m, b) fl"
  shows "free_bytes fl \<subseteq> {base_addr b ..< base_addr b + L}" "card (free_bytes fl) \<le> L"
proof -
  have *: "{a ..< a + bsz ord} \<subseteq> {base_addr b ..< base_addr b + L}" if "(ord, a) \<in> fblocks fl" for ord a
    using lists_okD(6) [OF assms that] by (auto simp: in_region_def)
  then show "free_bytes fl \<subseteq> {base_addr b ..< base_addr b + L}"
    unfolding free_bytes_def blk_def by blast
  from card_mono [OF _ this] show "card (free_bytes fl) \<le> L" by simp
qed

lemma count_free_memory_spec:
  assumes "lists_ok L (m, b) fl"
  shows "count_free_memory (m, b) = Some (card (free_bytes fl))"
proof -
  have c: "card (free_bytes fl) = (\<Sum>ord<11. length (fl ord) * bsz ord)"
    using lists_okD(2,5) [OF assms] by (intro card_free_bytes) auto
  have "card (free_bytes fl) < 2 ^ 64"
    using free_bytes_bound(2) [OF assms] lists_okD(1) [OF assms] by (simp add: geometry_def)
  then show ?thesis
    using count_orders_spec [OF assms, of 0 11 0]
    by (simp add: count_free_memory_def c atLeast0LessThan)
qed


section \<open>The buddy allocator as a block source\<close>

definition buddy_ainv :: "nat \<Rightarrow> nat set \<Rightarrow> buddy_st \<Rightarrow> bool" where
  "buddy_ainv L F s \<longleftrightarrow> (\<exists>fl. buddy_inv L s fl \<and> free_bytes fl = F)"

definition buddy_valid :: "nat \<Rightarrow> buddy_allocator \<Rightarrow> nat \<Rightarrow> usize \<Rightarrow> bool" where
  "buddy_valid L b ord a \<longleftrightarrow> geometry L b \<and> in_region L b ord a"

lemma buddy_valid_conf: "same_conf b b' \<Longrightarrow> buddy_valid L b' = buddy_valid L b"
  by (simp add: buddy_valid_def fun_eq_iff conf_cong)

lemma buddy_inv_frame:
  assumes inv: "buddy_inv L (m, b) fl" and ag: "agree_off X m m'"
    and X: "X \<inter> (free_bytes fl \<union> bitmap_bytes b) = {}"
  shows "buddy_inv L (m', b) fl"
proof -
  have "lists_ok L (m', b) fl"
    using ag X by (intro lists_ok_mem [OF buddy_invD(1) [OF inv]]) (auto simp: agree_off_def)
  moreover have "bm_bit m' b (bit_pos b ord x) = bm_bit m b (bit_pos b ord x)"
    if "ord < 10" "base_addr b \<le> x" "x < base_addr b + L" for ord x
    using that X bit_pos_byte [OF buddy_invD(2) [OF inv]] by (intro bm_bit_agree [OF ag]) auto
  ultimately show ?thesis using inv by (simp add: buddy_inv_def bits_ok_def)
qed

lemma buddy_alloc_cases:
  assumes "buddy_inv L (m, b) fl"
  obtains (none) "buddy_alloc ord (m, b) = Some (None, (m, b))" "\<forall>i \<in> {min ord 10..10}. fl i = []"
  | (some) a m' b' fl' where "buddy_alloc ord (m, b) = Some (Some a, (m', b'))"
      "took L (min ord 10) a (m, b) fl (m', b') fl'"
  using buddy_alloc_spec [OF assms, of ord] unfolding alloc_outcome_def
  by (auto split: if_splits)

interpretation bd: block_source "buddy_ainv L" bitmap_bytes "buddy_valid L" buddy_alloc buddy_free for L
proof unfold_locales
  fix F s ord assume "buddy_ainv L F s"
  then show "\<exists>r s'. buddy_alloc ord s = Some (r, s')"
    unfolding buddy_ainv_def by (cases s) (metis buddy_alloc_cases)
next
  fix F s ord s' assume "buddy_ainv L F s" "buddy_alloc ord s = Some (None, s')"
  then show "s' = s"
    unfolding buddy_ainv_def by (cases s) (auto elim: buddy_alloc_cases [of L _ _ _ ord])
next
  fix F m b ord a m' b'
  assume "buddy_ainv L F (m, b)" "ord \<le> 10" and r: "buddy_alloc ord (m, b) = Some (Some a, (m', b'))"
  then obtain fl where fl: "buddy_inv L (m, b) fl" "F = free_bytes fl" by (auto simp: buddy_ainv_def)
  have "geometry L b" using fl(1) by (rule buddy_invD)
  from fl(1) show "buddy_valid L b ord a \<and> blk ord a \<subseteq> F \<and> buddy_ainv L (F - blk ord a) (m', b') \<and>
    bitmap_bytes b' = bitmap_bytes b \<and> buddy_valid L b' = buddy_valid L b \<and> agree_off (F \<union> bitmap_bytes b) m m'"
    using r \<open>ord \<le> 10\<close> \<open>geometry L b\<close> fl(2)
    by (cases rule: buddy_alloc_cases [where ord = ord])
      (auto simp: took_def buddy_valid_def [of L b] buddy_ainv_def conf_cong buddy_valid_conf min_def)
next
  fix F m b ord a
  assume "buddy_ainv L F (m, b)" and v: "buddy_valid L b ord a" and dj: "blk ord a \<inter> F = {}"
  then obtain fl where fl: "buddy_inv L (m, b) fl" "F = free_bytes fl" by (auto simp: buddy_ainv_def)
  then have "placeable L b fl ord a" using v dj by (simp add: placeable_def buddy_valid_def)
  from buddy_free_spec [OF fl(1) this refl] obtain m' b' fl' where
    "buddy_free a ord (m, b) = Some (m', b')" "gave L (blk ord a) (m, b) fl (m', b') fl'" by auto
  then show "\<exists>m' b'. buddy_free a ord (m, b) = Some (m', b') \<and> buddy_ainv L (F \<union> blk ord a) (m', b') \<and>
    bitmap_bytes b' = bitmap_bytes b \<and> buddy_valid L b' = buddy_valid L b \<and>
    agree_off (F \<union> blk ord a \<union> bitmap_bytes b) m m'"
    by (auto simp: gave_def buddy_ainv_def fl(2) conf_cong buddy_valid_conf)
next
  fix b ord a assume "buddy_valid L b ord a"
  then show "ord \<le> 10 \<and> bsz ord dvd a \<and> a \<noteq> 0 \<and> a + bsz ord < 2 ^ 64 \<and> blk ord a \<inter> bitmap_bytes b = {}"
    by (auto simp: buddy_valid_def in_region_def geometry_def)
next
  fix F m b assume "buddy_ainv L F (m, b)"
  then show "F \<inter> bitmap_bytes b = {}"
    using free_bytes_region by (fastforce simp: buddy_ainv_def buddy_inv_def)
next
  fix F m b X m' assume "buddy_ainv L F (m, b)" "agree_off X m m'" "X \<inter> (F \<union> bitmap_bytes b) = {}"
  then show "buddy_ainv L F (m', b)" unfolding buddy_ainv_def by (blast intro: buddy_inv_frame)
qed

lemma buddy_new_inv:
  assumes "geometry L (buddy_new bm_ptr bm_size base)" "\<And>x. bm_ptr \<le> x \<Longrightarrow> x < bm_ptr + bm_size \<Longrightarrow> m x = 0"
  shows "buddy_inv L (m, buddy_new bm_ptr bm_size base) (\<lambda>_. [])"
proof -
  let ?b = "buddy_new bm_ptr bm_size base"
  have "\<not> bm_bit m ?b (bit_pos ?b ord a)" if "ord < 10" "base_addr ?b \<le> a" "a < base_addr ?b + L" for ord a
    using bit_pos_byte [OF assms(1) _ that(2,3)] that(1) assms(2)
    by (auto simp: bm_bit_def buddy_new_def)
  moreover have "lists_ok L (m, ?b) (\<lambda>_. [])"
    using assms(1) by (auto simp: lists_ok_def disjoint_blocks_def fblocks_def buddy_new_def less_Suc_eq_le)
  ultimately show ?thesis by (simp add: buddy_inv_def bits_ok_def)
qed

end
