(* ===== verification/Buddy_Props.thy ===== *)
theory Buddy_Props
  imports Buddy_Spec
begin

text \<open>
  The properties of the buddy allocator: what one call does, what any interleaving of calls and
  client writes keeps, and when the bitmap sized by \<^verbatim>\<open>calculate_bitmap_size\<close> is large enough.
\<close>

section \<open>Runs of the allocator\<close>

text \<open>
  A run interleaves calls with writes of the clients into blocks they hold.  The second
  component is the set of blocks handed out and not yet given back.
\<close>

inductive buddy_step :: "buddy_st \<times> (nat \<times> usize) set \<Rightarrow> buddy_st \<times> (nat \<times> usize) set \<Rightarrow> bool" where
  step_alloc: "buddy_alloc ord s = Some (Some a, s') \<Longrightarrow> buddy_step (s, live) (s', insert (min ord 10, a) live)"
| step_full: "buddy_alloc ord s = Some (None, s') \<Longrightarrow> buddy_step (s, live) (s', live)"
| step_free: "(ord, a) \<in> live \<Longrightarrow> buddy_free a ord s = Some s' \<Longrightarrow> buddy_step (s, live) (s', live - {(ord, a)})"
| step_write: "agree_off (live_bytes live) m m' \<Longrightarrow> buddy_step ((m, b), live) ((m', b), live)"

lemma buddy_alloc_clamp: "buddy_alloc (min ord 10) s = buddy_alloc ord s"
  by (simp add: buddy_alloc_def)

lemma buddy_step_ledger:
  assumes "buddy_step (s, live) (s', live')" "bd.ledger L T live s"
  shows "bd.ledger L T live' s'"
  using assms(1)
proof cases
  case (step_alloc ord a)
  with assms(2) show ?thesis
    using bd.ledger_alloc(1) [of L T live _ _ "min ord 10"] by (cases s; cases s') (auto simp: buddy_alloc_clamp)
next
  case (step_full ord)
  with assms(2) show ?thesis
    using bd.alloc_None [of L "T - live_bytes live" s ord s'] by (auto simp: bd.ledger_def)
next
  case (step_free ord a)
  with assms(2) show ?thesis
    by (cases s) (auto elim!: bd.ledger_free [of L T live _ _ ord a])
next
  case (step_write m m' b)
  with assms(2) show ?thesis by (auto intro: bd.ledger_frame)
qed

lemma buddy_run_ledger:
  assumes "buddy_step\<^sup>*\<^sup>* c c'" "bd.ledger L T (snd c) (fst c)"
  shows "bd.ledger L T (snd c') (fst c')"
  using assms
proof (induction rule: rtranclp_induct)
  case (step c' c'')
  then show ?case using buddy_step_ledger [of "fst c'" "snd c'" "fst c''" "snd c''"] by simp
qed


section \<open>Sizes\<close>

lemma next_power_of_two_spec:
  assumes "n \<le> 2 ^ 63"
  shows "\<exists>k. next_power_of_two n = Some (2 ^ k) \<and> n \<le> 2 ^ k \<and> (k = 0 \<or> 2 ^ (k - 1) < n)"
proof (cases "n \<le> 1")
  case True
  then show ?thesis by (intro exI [of _ 0]) (simp add: next_power_of_two_def)
next
  case False
  let ?k = "bit_length (n - 1)"
  have "?k \<le> 63" using assms False by (intro bit_length_le) simp
  moreover have "n - 1 < 2 ^ ?k" by (rule bit_length_less)
  moreover have "2 ^ (?k - 1) \<le> n - 1" using False by (intro bit_length_ge) simp
  then have "2 ^ (?k - 1) < n" using False by linarith
  ultimately show ?thesis using False by (intro exI [of _ ?k]) (simp add: next_power_of_two_def)
qed

lemma pages_ceiling: "(s + 4095) div 4096 \<le> k \<longleftrightarrow> s \<le> k * 4096" for k s :: nat
  by linarith

lemma size_to_order_spec:
  assumes "s + 4095 < 2 ^ 64"
  obtains k where "size_to_order s = Some (min k 10)" "s \<le> bsz k" "k = 0 \<or> bsz (k - 1) < s"
proof -
  define n where "n = (s + 4095) div 4096"
  have "n < 2 ^ 52" using assms by (simp add: n_def less_mult_imp_div_less)
  then obtain k where k: "next_power_of_two n = Some (2 ^ k)" "n \<le> 2 ^ k" "k = 0 \<or> 2 ^ (k - 1) < n"
    using next_power_of_two_spec [of n] by auto
  have le: "n \<le> 2 ^ j \<longleftrightarrow> s \<le> bsz j" for j
    unfolding n_def bsz_def by (simp only: pages_ceiling power_add) (simp add: mult.commute)
  have "size_to_order s = Some (min k 10)"
    using assms k(1) by (simp add: size_to_order_def uadd_ok ushr_ok n_def)
  moreover have "k = 0 \<or> bsz (k - 1) < s" using k(3) le [of "k - 1"] by linarith
  ultimately show thesis using k(2) le [of k] that by blast
qed

lemma bitmap_size_eq:
  assumes "h < 2 ^ 64"
  shows "calculate_bitmap_size h = Some (mask_low 12 (h div 2 ^ 16 + 4095))"
proof -
  have "h div 2 ^ 16 < 2 ^ 48" using assms by (simp add: less_mult_imp_div_less)
  then show ?thesis by (simp add: calculate_bitmap_size_def ushr_ok uadd_ok)
qed

lemma bitmap_size_adequate:
  assumes "h < 2 ^ 64" "calculate_bitmap_size h = Some n"
  shows "4096 dvd n" "n < 2 ^ 50" "h \<le> n * 2 ^ 15 \<longleftrightarrow> h = 0 \<or> (2 ^ 16 \<le> h \<and> h \<le> 2 ^ 27)"
proof -
  define r where "r = h div 2 ^ 16"
  have "r < 2 ^ 48" using assms(1) by (simp add: r_def less_mult_imp_div_less)
  have n: "n = (r + 4095) div 4096 * 4096"
    using assms bitmap_size_eq [OF assms(1)] by (simp add: mask_low_def r_def)
  then show "4096 dvd n" by simp
  show "n < 2 ^ 50" using \<open>r < 2 ^ 48\<close> unfolding n by simp
  define q where "q = (r + 4095) div 4096"
  have q: "q * 4096 \<le> r + 4095" "r + 4095 < q * 4096 + 4096" unfolding q_def by linarith+
  have h: "r * 65536 \<le> h" "h < r * 65536 + 65536"
    using div_mult_mod_eq [of h 65536] mod_less_divisor [of 65536 h] unfolding r_def by simp_all
  have "h \<le> q * 134217728 \<longleftrightarrow> h = 0 \<or> (65536 \<le> h \<and> h \<le> 134217728)"
  proof (cases "q \<le> 1")
    case True
    then have "q = 0 \<or> q = 1" by auto
    with q h show ?thesis by (elim disjE) auto
  next
    case False
    with q h show ?thesis by linarith
  qed
  then show "h \<le> n * 2 ^ 15 \<longleftrightarrow> h = 0 \<or> (2 ^ 16 \<le> h \<and> h \<le> 2 ^ 27)"
    by (simp add: n q_def mult.commute)
qed

text \<open>The colliding bits when the bitmap is too small.\<close>

lemma toggle_collision:
  assumes "2 ^ 12 dvd bitmap_size b" "bitmap_size b < 2 ^ 50" "bitmap_size b \<noteq> 0"
  shows "\<exists>f g m1. toggle_bit 0 (base_addr b + bitmap_size b * 2 ^ 15) (m, b) = Some (f, (m1, b)) \<and>
    toggle_bit 1 (base_addr b) (m1, b) = Some (g, (m, b)) \<and> m1 \<noteq> m"
proof -
  let ?n = "bitmap_size b"
  from assms(1) obtain c where c: "?n = 4096 * c" by auto
  have p0: "bit_pos b 0 (base_addr b + ?n * 2 ^ 15) = ?n * 4"
    by (simp add: bit_pos_def region_start_def bsz_def)
  have p1: "bit_pos b 1 (base_addr b) = ?n * 4"
    by (simp add: bit_pos_def region_start_def c)
  let ?m1 = "flip_bm m b (?n * 4)"
  have "?m1 (bitmap b + ?n * 4 div 8) \<noteq> m (bitmap b + ?n * 4 div 8)"
    using bm_bit_flip [of m b "?n * 4" "?n * 4"] by (auto simp: bm_bit_def)
  then have "?m1 \<noteq> m" by metis
  moreover have "toggle_bit 0 (base_addr b + ?n * 2 ^ 15) (m, b) = Some (bm_bit m b (?n * 4), (?m1, b))"
    using toggle_bit_raw [OF assms(1,2), of 0 "base_addr b + ?n * 2 ^ 15" m] assms(3) unfolding p0 by simp
  moreover have "toggle_bit 1 (base_addr b) (?m1, b) = Some (bm_bit ?m1 b (?n * 4), (m, b))"
    using toggle_bit_raw [OF assms(1,2), of 1 "base_addr b" ?m1] assms(3) unfolding p1 flip_bm_flip by simp
  ultimately show ?thesis by blast
qed

section \<open>A concrete allocator\<close>

text \<open>One free 4 MiB block at 4 MiB, a zeroed 4 KiB bitmap at 2 MiB, 128 MiB managed.\<close>

definition sample_buddy :: buddy_allocator where
  "sample_buddy = \<lparr>free_list = replicate 10 0 @ [4194304], bitmap = 2097152,
     bitmap_size = 4096, base_addr = 0\<rparr>"

definition sample_frees :: frees where
  "sample_frees = (\<lambda>ord. if ord = 10 then [4194304] else [])"

lemma sample_free_bytes: "free_bytes sample_frees = {4194304 ..< 8388608}"
  by (auto simp: free_bytes_def fblocks_def sample_frees_def blk_def bsz_def split: if_splits)

lemma rd64_zero: "rd64 (\<lambda>_. 0) a = 0"
  by (simp add: rd64_def)

lemma sample_inv: "buddy_inv (2 ^ 27) (\<lambda>_. 0, sample_buddy) sample_frees"
proof -
  have "geometry (2 ^ 27) sample_buddy" by (simp add: geometry_def sample_buddy_def bsz_def)
  moreover have "in_region (2 ^ 27) sample_buddy 10 4194304"
    by (auto simp: in_region_def sample_buddy_def bsz_def blk_def bitmap_bytes_def)
  moreover have "dlist (\<lambda>_. 0) 0 (free_list sample_buddy ! ord) (sample_frees ord)" if "ord \<le> 10" for ord
    using that by (simp add: sample_frees_def sample_buddy_def fb_next_def fb_prev_def rd64_zero nth_append)
  moreover have "disjoint_blocks sample_frees"
    by (auto simp: disjoint_blocks_def fblocks_def sample_frees_def split: if_splits)
  moreover have "bits_ok (2 ^ 27) sample_buddy (bm_bit (\<lambda>_. 0) sample_buddy) sample_frees"
    by (simp add: bits_ok_def bm_bit_def sample_frees_def)
  ultimately show ?thesis
    by (auto simp: buddy_inv_def lists_ok_def sample_frees_def split: if_splits)
qed

section \<open>Properties\<close>

text \<open>
  C1. Allocation is sound and complete.  On a well-formed allocator \<^verbatim>\<open>alloc(order)\<close> never panics.
  It returns \<^verbatim>\<open>None\<close>, changing nothing, exactly when no free list of the (clamped) order or
  above has a block.  Otherwise it returns a block of the clamped order, aligned to its size,
  that lies wholly in free memory; exactly these bytes stop being free, the invariant is kept,
  and no byte outside the free memory and the bitmap is written.
\<close>

theorem buddy_alloc_correct:
  assumes "buddy_inv L (m, b) fl"
  shows "if \<forall>i \<in> {min ord 10..10}. fl i = [] then buddy_alloc ord (m, b) = Some (None, (m, b))
    else \<exists>a m' b' fl'. buddy_alloc ord (m, b) = Some (Some a, (m', b')) \<and>
      bsz (min ord 10) dvd a \<and> blk (min ord 10) a \<subseteq> free_bytes fl \<and>
      buddy_inv L (m', b') fl' \<and> free_bytes fl' = free_bytes fl - blk (min ord 10) a \<and>
      agree_off (free_bytes fl \<union> bitmap_bytes b) m m'"
  using buddy_alloc_spec [OF assms, of ord]
  by (auto simp: alloc_outcome_def took_def in_region_def split: if_splits)

theorem buddy_alloc_correct_witness:
  "\<exists>m' b' fl'. buddy_alloc 0 (\<lambda>_. 0, sample_buddy) = Some (Some 4194304, (m', b')) \<and>
     buddy_inv (2 ^ 27) (m', b') fl' \<and> free_bytes fl' = {4198400 ..< 8388608}"
proof -
  have ne: "\<not> (\<forall>i \<in> {min 0 10..10}. sample_frees i = [])" by (auto simp: sample_frees_def)
  from buddy_alloc_correct [OF sample_inv, of 0, unfolded if_not_P [OF ne]] obtain a m' b' fl' where
    *: "buddy_alloc 0 (\<lambda>_. 0, sample_buddy) = Some (Some a, (m', b'))" "bsz 0 dvd a"
      "buddy_inv (2 ^ 27) (m', b') fl'" "free_bytes fl' = {4194304 ..< 8388608} - blk 0 a"
    by (auto simp: sample_free_bytes)
  have "a = 4194304"
    using *(1) by (simp add: buddy_alloc_def alloc_higher.simps list_head_def sample_buddy_def Let_def
        nth_append split: Option.bind_splits prod.splits)
  then have "{4194304 ..< 8388608} - blk 0 a = {4198400 ..< 8388608}" by (auto simp: blk_def bsz_def)
  with * \<open>a = 4194304\<close> show ?thesis by auto
qed



text \<open>
  C3. \<^verbatim>\<open>add_free_region\<close> hands over a whole page range: for a page-aligned range of the managed
  region that overlaps neither free memory nor the bitmap, the loop terminates without
  a panic and afterwards exactly the bytes of the range have become free.
\<close>

theorem add_free_region_correct:
  assumes "buddy_inv L (m, b) fl" "addable L b fl start_addr end_addr"
  shows "\<exists>m' b' fl'. add_free_region start_addr end_addr (m, b) = Some (m', b') \<and>
    buddy_inv L (m', b') fl' \<and> free_bytes fl' = free_bytes fl \<union> {start_addr ..< end_addr} \<and>
    agree_off (free_bytes fl \<union> {start_addr ..< end_addr} \<union> bitmap_bytes b) m m'"
  using add_free_region_spec [OF assms] by (auto simp: gave_def)

theorem add_free_region_correct_witness:
  "\<exists>m' b' fl'. add_free_region 8388608 8409088 (\<lambda>_. 0, sample_buddy) = Some (m', b') \<and>
     buddy_inv (2 ^ 27) (m', b') fl' \<and> free_bytes fl' = {4194304 ..< 8409088}"
proof -
  have "addable (2 ^ 27) sample_buddy sample_frees 8388608 8409088"
    by (auto simp: addable_def sample_free_bytes sample_buddy_def bitmap_bytes_def)
  from add_free_region_correct [OF sample_inv this] show ?thesis
    unfolding sample_free_bytes by (auto simp: ivl_disj_un(17))
qed

text \<open>
  C4. \<^verbatim>\<open>count_free_memory\<close> walks the eleven lists to their ends and returns the exact number
  of free bytes.
\<close>

theorem count_free_memory_correct:
  assumes "buddy_inv L (m, b) fl"
  shows "count_free_memory (m, b) = Some (card (free_bytes fl))"
  using assms by (intro count_free_memory_spec [of L]) (simp add: buddy_inv_def)

theorem count_free_memory_correct_witness:
  "count_free_memory (\<lambda>_. 0, sample_buddy) = Some 4194304"
  using count_free_memory_correct [OF sample_inv] by (simp add: sample_free_bytes)

text \<open>
  C5. No block is ever handed out twice.  Start from a well-formed allocator whose free bytes
  are \<open>T\<close>, and run any sequence of allocations, frees of blocks held, and arbitrary writes into
  blocks held.  Then at every point the blocks held are pairwise disjoint and inside \<open>T\<close>, the
  counter reports exactly the bytes of \<open>T\<close> not held, allocation never panics and every block
  held can be freed.
\<close>

theorem buddy_run_safe:
  assumes "buddy_ainv L T s" and "buddy_step\<^sup>*\<^sup>* (s, {}) (s', live)"
  shows "live_apart live \<and> live_bytes live \<subseteq> T \<and>
    count_free_memory s' = Some (card (T - live_bytes live)) \<and>
    (\<forall>ord. buddy_alloc ord s' \<noteq> None) \<and> (\<forall>(ord, a) \<in> live. buddy_free a ord s' \<noteq> None)"
proof -
  have "bd.ledger L T {} s" using assms(1) by (simp add: bd.ledger_def live_apart_def)
  with buddy_run_ledger [OF assms(2)] have led: "bd.ledger L T live s'" by simp
  then have inv: "buddy_ainv L (T - live_bytes live) s'"
    and "live_apart live" "live_bytes live \<subseteq> T" by (auto simp: bd.ledger_def)
  moreover have "count_free_memory s' = Some (card (T - live_bytes live))"
    using inv count_free_memory_spec [of L "fst s'" "snd s'"] by (auto simp: buddy_ainv_def buddy_inv_def)
  moreover have "buddy_alloc ord s' \<noteq> None" for ord using bd.alloc_total [OF inv, of ord] by auto
  moreover have "buddy_free a ord s' \<noteq> None" if "(ord, a) \<in> live" for ord a
    using bd.ledger_free [of L T live "fst s'" "snd s'" ord a] led that by (metis option.distinct(1) surjective_pairing)
  ultimately show ?thesis by blast
qed

theorem buddy_run_safe_witness:
  "\<exists>s. buddy_step\<^sup>*\<^sup>* ((\<lambda>_. 0, sample_buddy), {}) (s, {(0, 4194304)}) \<and>
     count_free_memory s = Some 4190208 \<and> buddy_free 4194304 0 s \<noteq> None"
proof -
  have inv: "buddy_ainv (2 ^ 27) {4194304 ..< 8388608} (\<lambda>_. 0, sample_buddy)"
    using sample_inv sample_free_bytes by (auto simp: buddy_ainv_def)
  obtain r s where r: "buddy_alloc 0 (\<lambda>_. 0, sample_buddy) = Some (r, s)"
    using bd.alloc_total [OF inv] by blast
  moreover have "r = Some 4194304"
    using r by (simp add: buddy_alloc_def alloc_higher.simps list_head_def sample_buddy_def Let_def
        nth_append split: Option.bind_splits prod.splits)
  ultimately have run: "buddy_step\<^sup>*\<^sup>* ((\<lambda>_. 0, sample_buddy), {}) (s, {(0, 4194304)})"
    using step_alloc [of 0 "(\<lambda>_. 0, sample_buddy)" 4194304 s "{}"] by auto
  have "{4194304 ..< 8388608} - live_bytes {(0, 4194304)} = {4198400 ..< 8388608}"
    by (auto simp: blk_def bsz_def)
  with buddy_run_safe [OF inv run] have "count_free_memory s = Some 4190208" "buddy_free 4194304 0 s \<noteq> None" by simp_all
  with run show ?thesis by blast
qed

text \<open>
  C6. \<^verbatim>\<open>size_to_order\<close> picks the smallest block that fits: for every request of at most 4 MiB the
  block of the returned order holds the request and the next smaller block does not; larger
  requests are clamped to order 10, and the function panics only if rounding up to pages
  overflows.
\<close>

theorem size_to_order_correct:
  "(size_to_order n = None \<longleftrightarrow> 2 ^ 64 \<le> n + 4095) \<and>
   (\<forall>k. size_to_order n = Some k \<longrightarrow> k \<le> 10 \<and> (n \<le> 2 ^ 22 \<longrightarrow> n \<le> bsz k) \<and> (2 ^ 22 < n \<longrightarrow> k = 10) \<and>
      (k \<noteq> 0 \<longrightarrow> bsz (k - 1) < n))"
proof (cases "n + 4095 < 2 ^ 64")
  case False
  then show ?thesis by (simp add: size_to_order_def uadd_def)
next
  case True
  then obtain k where k: "size_to_order n = Some (min k 10)" "n \<le> bsz k" "k = 0 \<or> bsz (k - 1) < n"
    by (rule size_to_order_spec)
  have mono: "bsz i \<le> bsz j" if "i \<le> j" for i j using that by (simp add: bsz_def)
  have b: "bsz 10 = 2 ^ 22" by (simp add: bsz_def)
  have "n \<le> 2 ^ 22 \<Longrightarrow> k \<le> 10"
    using k(3) mono [of 10 "k - 1"] b by linarith
  moreover have "2 ^ 22 < n \<Longrightarrow> 10 \<le> k" using k(2) mono [of k 10] b by linarith
  moreover have "min k 10 \<noteq> 0 \<Longrightarrow> bsz (min k 10 - 1) < n"
    using k(3) mono [of "min k 10 - 1" "k - 1"] by fastforce
  ultimately show ?thesis using k True by (auto simp: min_def)
qed

theorem size_to_order_correct_witness:
  "size_to_order 5000 = Some 1 \<and> 5000 \<le> bsz 1 \<and> bsz 0 < 5000"
proof -
  have "size_to_order 5000 = Some 1"
    by (simp add: size_to_order_def uadd_def ushr_def next_power_of_two_def bit_length.simps [of "Suc 0"]
        trailing_zeros.simps [of 2] trailing_zeros.simps [of "Suc 0"])
  with size_to_order_correct [of 5000] show ?thesis by auto
qed



end
