(* ===== verification/Frames.thy ===== *)
theory Frames
  imports Buddy_Spec
begin

text \<open>
  Physical frames, \<^verbatim>\<open>src/mm/memory.rs\<close>: the table of reserved regions, the bump allocator that
  serves the boot code, the bootstrap of the buddy allocator from the Multiboot2 memory map,
  and the frame functions the rest of the kernel calls.  Kernel code reaches physical address
  \<open>p\<close> at \<open>p + PHYS_OFFSET\<close>; memory is indexed by these virtual addresses.
\<close>

section \<open>The code\<close>

definition PHYS_OFFSET :: usize where "PHYS_OFFSET = 0xFFFF800000000000"

definition HEAP_START :: usize where "HEAP_START = 0xFFFF900000000000"

definition HEAP_SIZE :: usize where "HEAP_SIZE = 0xA0000000000"

record reserved_region =
  rr_start :: usize
  rr_end :: usize
  rr_name :: string

definition MAX_RESERVED :: nat where [simp]: "MAX_RESERVED = 32"

record region_tracker =
  regions :: "reserved_region list"
  rcount :: usize

definition RESERVED_TRACKER :: region_tracker where
  "RESERVED_TRACKER = \<lparr>regions = replicate MAX_RESERVED \<lparr>rr_start = 0, rr_end = 0, rr_name = ''''\<rparr>, rcount = 0\<rparr>"

definition reserve_region :: "usize \<Rightarrow> usize \<Rightarrow> string \<Rightarrow> region_tracker \<Rightarrow> region_tracker option" where
  "reserve_region st en nm tracker =
     (if rcount tracker < MAX_RESERVED
      then Some (tracker\<lparr>regions := (regions tracker)[rcount tracker := \<lparr>rr_start = st, rr_end = en, rr_name = nm\<rparr>],
        rcount := rcount tracker + 1\<rparr>)
      else None)"

fun reserved_scan :: "usize \<Rightarrow> usize \<Rightarrow> reserved_region list \<Rightarrow> bool" where
  "reserved_scan phys_addr end_addr [] = False"
| "reserved_scan phys_addr end_addr (region # rs) =
     (if phys_addr < rr_end region \<and> end_addr > rr_start region then True
      else reserved_scan phys_addr end_addr rs)"

definition is_reserved :: "region_tracker \<Rightarrow> usize \<Rightarrow> usize \<Rightarrow> bool option" where
  "is_reserved tracker phys_addr sz = do {
     end_addr \<leftarrow> uadd phys_addr sz;
     Some (reserved_scan phys_addr end_addr (take (rcount tracker) (regions tracker)))
   }"

record memory_map_entry =
  mm_base :: usize
  mm_length :: usize
  mm_typ :: nat

record bump_allocator =
  next_free_frame :: usize
  memory_map :: "memory_map_entry list"

definition bump_init :: "usize \<Rightarrow> memory_map_entry list \<Rightarrow> bump_allocator option" where
  "bump_init kernel_end mmap = do {
     t \<leftarrow> uadd kernel_end 4095;
     Some \<lparr>next_free_frame = mask_low 12 t, memory_map = mmap\<rparr>
   }"

definition current_offset :: "bump_allocator \<Rightarrow> usize" where
  "current_offset bump = next_free_frame bump"

text \<open>The inner \<^verbatim>\<open>for\<close> loop: the address of the first reserved frame of the candidate block.\<close>

fun scan_frames :: "region_tracker \<Rightarrow> usize \<Rightarrow> nat \<Rightarrow> nat \<Rightarrow> usize option option" where
  "scan_frames tracker candidate i 0 = Some None"
| "scan_frames tracker candidate i (Suc n) = do {
     off \<leftarrow> umul i 4096;
     check_addr \<leftarrow> uadd candidate off;
     hit \<leftarrow> is_reserved tracker check_addr 4096;
     if hit then Some (Some check_addr) else scan_frames tracker candidate (i + 1) n
   }"

lemma scan_frames_ge: "scan_frames tracker candidate i n = Some (Some a) \<Longrightarrow> candidate \<le> a \<and> a + 4096 < 2 ^ 64"
  by (induction n arbitrary: i)
    (auto simp: is_reserved_def umul_def uadd_def split: if_splits Option.bind_splits)

lemma mask_low_page: "a < mask_low 12 (a + 4096)"
  using mask_low_gt [of "a + 4096" 12] by simp

function bump_search :: "region_tracker \<Rightarrow> usize \<Rightarrow> usize \<Rightarrow> usize \<Rightarrow> nat \<Rightarrow> usize option option" where
  "bump_search tracker region_end candidate sz cnt = do {
     en \<leftarrow> uadd candidate sz;
     if en \<le> region_end then do {
       hit \<leftarrow> scan_frames tracker candidate 0 cnt;
       (case hit of
          Some check_addr \<Rightarrow> do {
            t \<leftarrow> uadd check_addr 4096;
            bump_search tracker region_end (mask_low 12 t) sz cnt
          }
        | None \<Rightarrow> Some (Some candidate))
     } else Some None
   }"
  by pat_completeness auto
termination
proof (relation "measure (\<lambda>(tracker, region_end, candidate, sz, cnt). region_end + 1 - candidate)", goal_cases)
  case (2 tracker region_end candidate sz cnt en hit a t)
  then have "candidate \<le> a" "t = a + 4096" "candidate \<le> region_end"
    by (auto simp: uadd_iff dest: scan_frames_ge)
  with mask_low_page [of a] show ?case by auto
qed simp

declare bump_search.simps [simp del]

fun bump_regions :: "region_tracker \<Rightarrow> usize \<Rightarrow> usize \<Rightarrow> nat \<Rightarrow> memory_map_entry list \<Rightarrow> usize option option" where
  "bump_regions tracker next_free sz cnt [] = Some None"
| "bump_regions tracker next_free sz cnt (mm # rest) =
     (if mm_typ mm = 1 then do {
        let region_base = mm_base mm;
        region_end \<leftarrow> uadd region_base (mm_length mm);
        let candidate = (if next_free > region_base then next_free else region_base);
        t \<leftarrow> uadd candidate 4095;
        found \<leftarrow> bump_search tracker region_end (mask_low 12 t) sz cnt;
        (case found of
           Some c \<Rightarrow> Some (Some c)
         | None \<Rightarrow> bump_regions tracker next_free sz cnt rest)
      } else bump_regions tracker next_free sz cnt rest)"

definition allocate_contiguous_frames ::
  "nat \<Rightarrow> region_tracker \<Rightarrow> bump_allocator \<Rightarrow> (usize option \<times> bump_allocator) option" where
  "allocate_contiguous_frames cnt tracker bump = do {
     sz \<leftarrow> umul cnt 4096;
     found \<leftarrow> bump_regions tracker (next_free_frame bump) sz cnt (memory_map bump);
     (case found of
        None \<Rightarrow> Some (None, bump)
      | Some c \<Rightarrow> do {
          n \<leftarrow> uadd c sz;
          Some (Some c, bump\<lparr>next_free_frame := n\<rparr>)
        })
   }"

text \<open>The frame functions work on the memory and the global \<^verbatim>\<open>FRAME_ALLOCATOR\<close>.\<close>

definition allocate_frame :: "buddy_st \<Rightarrow> (usize option \<times> buddy_st) option" where
  "allocate_frame s = do {
     (block, s) \<leftarrow> buddy_alloc 0 s;
     (case block of
        None \<Rightarrow> Some (None, s)
      | Some virt_addr \<Rightarrow> do {
          phys_addr \<leftarrow> usub virt_addr PHYS_OFFSET;
          Some (Some phys_addr, s)
        })
   }"

definition clear_frame :: "usize \<Rightarrow> buddy_st \<Rightarrow> buddy_st option" where
  "clear_frame phys_addr s = do {
     virt_addr \<leftarrow> uadd phys_addr PHYS_OFFSET;
     buddy_free virt_addr 0 s
   }"

definition allocate_zeroed_frame :: "buddy_st \<Rightarrow> (usize option \<times> buddy_st) option" where
  "allocate_zeroed_frame s = do {
     (frame, s) \<leftarrow> allocate_frame s;
     (case frame of
        None \<Rightarrow> Some (None, s)
      | Some frame_addr \<Rightarrow> do {
          ptr \<leftarrow> uadd frame_addr PHYS_OFFSET;
          Some (Some frame_addr, (wr_bytes (fst s) ptr 0 4096, snd s))
        })
   }"

text \<open>The feeding loops of \<^verbatim>\<open>init_physical_memory\<close>.  The inner loop looks for the end of an
  unreserved run; the counter of free frames is threaded through.\<close>

function run_end :: "region_tracker \<Rightarrow> usize \<Rightarrow> usize \<Rightarrow> usize \<Rightarrow> (usize \<times> usize) option" where
  "run_end tracker region_end chunk_end free_frames =
     (if chunk_end < region_end then do {
        hit \<leftarrow> is_reserved tracker chunk_end 4096;
        if hit then Some (chunk_end, free_frames)
        else do {
          c \<leftarrow> uadd chunk_end 4096;
          f \<leftarrow> uadd free_frames 1;
          run_end tracker region_end c f
        }
      } else Some (chunk_end, free_frames))"
  by pat_completeness auto
termination
  by (relation "measure (\<lambda>(tracker, region_end, chunk_end, free_frames). region_end - chunk_end)")
    (auto simp: uadd_iff)

declare run_end.simps [simp del]

lemma run_end_next:
  assumes "run_end tracker region_end c f = Some (c', f')"
  shows "c < region_end \<and> is_reserved tracker c 4096 = Some False \<and> c + 4096 < 2 ^ 64 \<and>
      run_end tracker region_end (c + 4096) (Suc f) = Some (c', f')
    \<or> (region_end \<le> c \<or> is_reserved tracker c 4096 = Some True) \<and> c' = c \<and> f' = f"
  using assms by (auto simp: run_end.simps [of tracker region_end c f] uadd_def split: if_splits Option.bind_splits)

lemma run_end_ge: "run_end tracker region_end c f = Some (c', f') \<Longrightarrow> c \<le> c'"
proof (induction "region_end - c" arbitrary: c f rule: less_induct)
  case less
  from run_end_next [OF less.prems] less.hyps [of "c + 4096" "Suc f"] show ?case
    by (auto simp: diff_less_mono2)
qed

lemma run_end_step:
  assumes "run_end tracker region_end c f = Some (c', f')" "c < region_end" "is_reserved tracker c 4096 = Some False"
  shows "c < c'"
  using run_end_next [OF assms(1)] assms(2,3) run_end_ge [of tracker region_end "c + 4096" "Suc f" c' f'] by auto

function feed_region ::
  "region_tracker \<Rightarrow> usize \<Rightarrow> usize \<Rightarrow> usize \<Rightarrow> buddy_st \<Rightarrow> (usize \<times> buddy_st) option" where
  "feed_region tracker region_end chunk_start free_frames s =
     (if chunk_start < region_end then do {
        hit \<leftarrow> is_reserved tracker chunk_start 4096;
        if hit then do {
          c \<leftarrow> uadd chunk_start 4096;
          feed_region tracker region_end c free_frames s
        } else do {
          (chunk_end, free_frames) \<leftarrow> run_end tracker region_end chunk_start free_frames;
          virt_start \<leftarrow> uadd chunk_start PHYS_OFFSET;
          virt_end \<leftarrow> uadd chunk_end PHYS_OFFSET;
          s \<leftarrow> add_free_region virt_start virt_end s;
          feed_region tracker region_end chunk_end free_frames s
        }
      } else Some (free_frames, s))"
  by pat_completeness auto
termination
  by (relation "measure (\<lambda>(tracker, region_end, chunk_start, free_frames, s). region_end - chunk_start)")
    (auto simp: uadd_iff dest!: run_end_step intro!: diff_less_mono2)

declare feed_region.simps [simp del]

fun feed_all :: "region_tracker \<Rightarrow> memory_map_entry list \<Rightarrow> usize \<Rightarrow> buddy_st \<Rightarrow> (usize \<times> buddy_st) option" where
  "feed_all tracker [] free_frames s = Some (free_frames, s)"
| "feed_all tracker (mm # rest) free_frames s =
     (if mm_typ mm = 1 then do {
        t \<leftarrow> uadd (mm_base mm) 4095;
        let region_start = mask_low 12 t;
        e \<leftarrow> uadd (mm_base mm) (mm_length mm);
        let region_end = mask_low 12 e;
        (free_frames, s) \<leftarrow> feed_region tracker region_end region_start free_frames s;
        feed_all tracker rest free_frames s
      } else feed_all tracker rest free_frames s)"

text \<open>The result holds the megabytes printed by the last line of the function.\<close>

definition init_physical_memory ::
  "usize \<Rightarrow> memory_map_entry list \<Rightarrow> bump_allocator \<Rightarrow> region_tracker \<Rightarrow> buddy_st \<Rightarrow>
   (usize \<times> bump_allocator \<times> region_tracker \<times> buddy_st) option" where
  "init_physical_memory highest_addr mmap bump tracker s = do {
     bm_size \<leftarrow> calculate_bitmap_size highest_addr;
     t \<leftarrow> uadd bm_size 4095;
     let frames_for_bitmap = t div 4096;
     (found, bump) \<leftarrow> allocate_contiguous_frames frames_for_bitmap tracker bump;
     bitmap_phys_addr \<leftarrow> found;
     bitmap_virt_ptr \<leftarrow> uadd bitmap_phys_addr PHYS_OFFSET;
     len \<leftarrow> umul frames_for_bitmap 4096;
     bitmap_phys_end \<leftarrow> uadd bitmap_phys_addr len;
     tracker \<leftarrow> reserve_region bitmap_phys_addr bitmap_phys_end ''Buddy Allocator Bitmap'' tracker;
     let m = wr_bytes (fst s) bitmap_virt_ptr 0 bm_size;
     let b = buddy_init bitmap_virt_ptr bm_size PHYS_OFFSET (snd s);
     (free_frames, s) \<leftarrow> feed_all tracker mmap 0 (m, b);
     bytes \<leftarrow> umul free_frames 4096;
     Some (bytes div 1024 div 1024, bump, tracker, s)
   }"

definition get_free_memory_mb :: "buddy_st \<Rightarrow> usize option" where
  "get_free_memory_mb s = do {
     n \<leftarrow> count_free_memory s;
     Some (n div (1024 * 1024))
   }"

end
