(* ===== verification/Frames_Spec.thy ===== *)
theory Frames_Spec
  imports Frames
begin

text \<open>
  Correctness of the physical-frame layer of \<^verbatim>\<open>src/mm/memory.rs\<close>: what the bump allocator finds,
  which frames the bootstrap feeds into the buddy allocator, and the frame functions as an
  interface the page-table code builds on.
\<close>

section \<open>Reserved regions\<close>

definition tracker_ok :: "region_tracker \<Rightarrow> bool" where
  "tracker_ok t \<longleftrightarrow> length (regions t) = MAX_RESERVED \<and> rcount t \<le> MAX_RESERVED"

definition active_regions :: "region_tracker \<Rightarrow> reserved_region list" where
  "active_regions t = take (rcount t) (regions t)"

definition reserved_bytes :: "region_tracker \<Rightarrow> nat set" where
  "reserved_bytes t = (\<Union>r \<in> set (active_regions t). {rr_start r ..< rr_end r})"

definition frame_free :: "region_tracker \<Rightarrow> usize \<Rightarrow> bool" where
  "frame_free t f \<longleftrightarrow> is_reserved t f 4096 = Some False"

lemma reserved_scan_iff:
  "reserved_scan p e rs \<longleftrightarrow> (\<exists>r \<in> set rs. p < rr_end r \<and> rr_start r < e)"
  by (induction rs) auto

lemma is_reserved_total: "p + n < 2 ^ 64 \<Longrightarrow>
    is_reserved t p n = Some (\<exists>r \<in> set (active_regions t). p < rr_end r \<and> rr_start r < p + n)"
  by (simp add: is_reserved_def uadd_def reserved_scan_iff active_regions_def)

lemma frame_free_disjoint: "frame_free t f \<Longrightarrow> {f ..< f + 4096} \<inter> reserved_bytes t = {}"
proof -
  assume f: "frame_free t f"
  then have "f + 4096 < 2 ^ 64" by (auto simp: frame_free_def is_reserved_def uadd_def split: if_splits)
  with f have "\<forall>r \<in> set (active_regions t). \<not> (f < rr_end r \<and> rr_start r < f + 4096)"
    by (simp add: frame_free_def is_reserved_total)
  then show ?thesis unfolding reserved_bytes_def by fastforce
qed

lemma reserve_region_ok:
  assumes "tracker_ok t" "rcount t < 32"
  shows "\<exists>t'. reserve_region st en nm t = Some t' \<and> tracker_ok t' \<and>
    active_regions t' = active_regions t @ [\<lparr>rr_start = st, rr_end = en, rr_name = nm\<rparr>]"
  using assms by (auto simp: reserve_region_def tracker_ok_def active_regions_def take_Suc_conv_app_nth)

lemma frame_free_mono:
  "active_regions t' = active_regions t @ rs \<Longrightarrow> frame_free t' f \<Longrightarrow> frame_free t f"
  by (auto simp: frame_free_def is_reserved_def reserved_scan_iff active_regions_def [symmetric]
      split: Option.bind_splits)

section \<open>The bump allocator\<close>

lemma scan_frames_spec:
  assumes "candidate + (i + n) * 4096 < 2 ^ 64"
  shows "(\<exists>k. i \<le> k \<and> k < i + n \<and> scan_frames t candidate i n = Some (Some (candidate + k * 4096)) \<and>
      \<not> frame_free t (candidate + k * 4096))
    \<or> scan_frames t candidate i n = Some None \<and> (\<forall>k. i \<le> k \<longrightarrow> k < i + n \<longrightarrow> frame_free t (candidate + k * 4096))"
  using assms
proof (induction n arbitrary: i)
  case (Suc n)
  have lt: "candidate + i * 4096 + 4096 < 2 ^ 64" using Suc.prems by simp
  then have st: "scan_frames t candidate i (Suc n) =
      (if frame_free t (candidate + i * 4096) then scan_frames t candidate (Suc i) n
       else Some (Some (candidate + i * 4096)))"
    by (auto simp: umul_def uadd_def is_reserved_total frame_free_def)
  have IH: "(\<exists>k. Suc i \<le> k \<and> k < Suc i + n \<and> scan_frames t candidate (Suc i) n = Some (Some (candidate + k * 4096)) \<and>
      \<not> frame_free t (candidate + k * 4096))
    \<or> scan_frames t candidate (Suc i) n = Some None \<and> (\<forall>k. Suc i \<le> k \<longrightarrow> k < Suc i + n \<longrightarrow> frame_free t (candidate + k * 4096))"
    using Suc.prems by (intro Suc.IH) simp
  show ?case
  proof (cases "frame_free t (candidate + i * 4096)")
    case True
    from IH show ?thesis
    proof (elim disjE exE conjE)
      fix k assume "Suc i \<le> k" "k < Suc i + n" "scan_frames t candidate (Suc i) n = Some (Some (candidate + k * 4096))"
        "\<not> frame_free t (candidate + k * 4096)"
      then show ?thesis unfolding st using True by (intro disjI1 exI [of _ k]) simp
    next
      assume *: "scan_frames t candidate (Suc i) n = Some None"
        "\<forall>k. Suc i \<le> k \<longrightarrow> k < Suc i + n \<longrightarrow> frame_free t (candidate + k * 4096)"
      have "\<forall>k. i \<le> k \<longrightarrow> k < i + Suc n \<longrightarrow> frame_free t (candidate + k * 4096)"
        using True *(2) by (metis Suc_leI add_Suc add_Suc_right le_neq_implies_less)
      with *(1) True show ?thesis unfolding st by simp
    qed
  next
    case False
    then show ?thesis unfolding st by (intro disjI1 exI [of _ i]) simp
  qed
qed simp

text \<open>A block of \<open>n\<close> free frames at \<open>c\<close>.\<close>

definition free_run :: "region_tracker \<Rightarrow> usize \<Rightarrow> nat \<Rightarrow> bool" where
  "free_run t c n \<longleftrightarrow> (\<forall>k < n. frame_free t (c + k * 4096))"

text \<open>The outcome of a search among the page-aligned addresses from \<open>lo\<close> on: the block found, or
  none if there is none.\<close>

definition search_outcome :: "region_tracker \<Rightarrow> nat \<Rightarrow> usize \<Rightarrow> usize \<Rightarrow> usize option option \<Rightarrow> bool" where
  "search_outcome t n lo hi r = (case r of
     None \<Rightarrow> False
   | Some None \<Rightarrow> (\<forall>c. 4096 dvd c \<longrightarrow> lo \<le> c \<longrightarrow> c + n * 4096 \<le> hi \<longrightarrow> \<not> free_run t c n)
   | Some (Some c) \<Rightarrow> 4096 dvd c \<and> lo \<le> c \<and> c + n * 4096 \<le> hi \<and> free_run t c n)"

lemma search_outcome_skip:
  assumes "search_outcome t n lo' hi r" "lo \<le> lo'"
    and "\<And>c. 4096 dvd c \<Longrightarrow> lo \<le> c \<Longrightarrow> c < lo' \<Longrightarrow> \<not> free_run t c n"
  shows "search_outcome t n lo hi r"
  using assms by (auto simp: search_outcome_def not_le [symmetric] split: option.splits)

lemma bump_search_spec:
  assumes "4096 dvd c" "c < 2 ^ 62" "region_end < 2 ^ 62" "n * 4096 < 2 ^ 62"
  shows "search_outcome t n c region_end (bump_search t region_end c (n * 4096) n)"
  using assms(1,2)
proof (induction "region_end + 1 - c" arbitrary: c rule: less_induct)
  case less
  have step: "bump_search t region_end c (n * 4096) n =
    (if c + n * 4096 \<le> region_end then do {
       hit \<leftarrow> scan_frames t c 0 n;
       (case hit of Some a \<Rightarrow> do { x \<leftarrow> uadd a 4096; bump_search t region_end (mask_low 12 x) (n * 4096) n }
        | None \<Rightarrow> Some (Some c))
     } else Some None)"
    using less.prems(2) assms(4) by (simp add: bump_search.simps [of t region_end c] uadd_def)
  show ?case
  proof (cases "c + n * 4096 \<le> region_end")
    case False
    then show ?thesis unfolding step by (auto simp: search_outcome_def)
  next
    case True
    have "c + (0 + n) * 4096 < 2 ^ 64" using True assms(3) by simp
    from scan_frames_spec [OF this, of t] show ?thesis
    proof (elim disjE exE conjE)
      fix k assume k: "k < 0 + n" "scan_frames t c 0 n = Some (Some (c + k * 4096))" "\<not> frame_free t (c + k * 4096)"
      let ?c = "c + k * 4096 + 4096"
      have al: "4096 dvd ?c" using less.prems(1) by simp
      have lt: "?c < 2 ^ 62"
        using True k(1) assms(3) mult_le_mono1 [of "Suc k" n 4096] by simp
      have eq: "bump_search t region_end c (n * 4096) n = bump_search t region_end ?c (n * 4096) n"
        using True k(2) lt mask_low_id [of 12 ?c] al unfolding step by (simp add: uadd_def)
      have none: "\<not> free_run t c' n" if "4096 dvd c'" "c \<le> c'" "c' < ?c" for c'
      proof -
        from that less.prems(1) obtain j where j: "c' = c + j * 4096"
          by (metis dvdE dvd_diff_nat le_add_diff_inverse mult.commute)
        with that(3) have "j \<le> k" by simp
        with k(1,3) j show ?thesis unfolding free_run_def
          by (intro notI) (erule allE [of _ "k - j"], auto simp: algebra_simps diff_mult_distrib)
      qed
      have "region_end + 1 - ?c < region_end + 1 - c" using True by simp
      from less.hyps [OF this al lt] show ?thesis
        unfolding eq by (rule search_outcome_skip [OF _ _ none]) (simp_all only: add.assoc le_add1)
    next
      assume "scan_frames t c 0 n = Some None" "\<forall>k. 0 \<le> k \<longrightarrow> k < 0 + n \<longrightarrow> frame_free t (c + k * 4096)"
      with True less.prems(1) show ?thesis unfolding step by (auto simp: free_run_def search_outcome_def)
    qed
  qed
qed


lemma align_up_le: "4096 dvd c \<Longrightarrow> mask_low 12 (x + 4095) \<le> c \<longleftrightarrow> x \<le> c"
proof -
  assume "4096 dvd c"
  then obtain q where q: "c = q * 4096" by (metis dvdE mult.commute)
  have "mask_low 12 (x + 4095) \<le> c \<longleftrightarrow> (x + 4095) div 4096 \<le> q" by (simp add: mask_low_def q)
  also have "\<dots> \<longleftrightarrow> x \<le> c" unfolding q by linarith
  finally show ?thesis .
qed

lemma mask_page_dvd: "4096 dvd mask_low 12 x"
  using mask_low_dvd [of 12 x] by simp

definition usable :: "memory_map_entry list \<Rightarrow> usize \<Rightarrow> usize \<Rightarrow> bool" where
  "usable mmap lo hi \<longleftrightarrow> (\<exists>mm \<in> set mmap. mm_typ mm = 1 \<and> mm_base mm \<le> lo \<and> hi \<le> mm_base mm + mm_length mm)"

lemma usable_Cons: "usable (mm # rest) lo hi \<longleftrightarrow>
    mm_typ mm = 1 \<and> mm_base mm \<le> lo \<and> hi \<le> mm_base mm + mm_length mm \<or> usable rest lo hi"
  by (auto simp: usable_def)

definition map_sane :: "memory_map_entry list \<Rightarrow> bool" where
  "map_sane mmap \<longleftrightarrow> (\<forall>mm \<in> set mmap. mm_typ mm = 1 \<longrightarrow> mm_base mm + mm_length mm < 2 ^ 61)"

definition bump_outcome :: "region_tracker \<Rightarrow> nat \<Rightarrow> usize \<Rightarrow> memory_map_entry list \<Rightarrow> usize option option \<Rightarrow> bool" where
  "bump_outcome t n lo mmap r = (case r of
     None \<Rightarrow> False
   | Some None \<Rightarrow> (\<forall>c. 4096 dvd c \<longrightarrow> lo \<le> c \<longrightarrow> usable mmap c (c + n * 4096) \<longrightarrow> \<not> free_run t c n)
   | Some (Some c) \<Rightarrow> 4096 dvd c \<and> lo \<le> c \<and> usable mmap c (c + n * 4096) \<and> free_run t c n)"

lemma bump_regions_spec:
  assumes "map_sane mmap" "lo < 2 ^ 61" "n * 4096 < 2 ^ 61"
  shows "bump_outcome t n lo mmap (bump_regions t lo (n * 4096) n mmap)"
  using assms(1)
proof (induction mmap)
  case Nil
  then show ?case by (simp add: bump_outcome_def usable_def)
next
  case (Cons mm rest)
  then have IH: "bump_outcome t n lo rest (bump_regions t lo (n * 4096) n rest)"
    and mm: "mm_typ mm = 1 \<Longrightarrow> mm_base mm + mm_length mm < 2 ^ 61" by (auto simp: map_sane_def)
  show ?case
  proof (cases "mm_typ mm = 1")
    case False
    with IH show ?thesis by (auto simp: bump_outcome_def usable_Cons split: option.splits)
  next
    case True
    note mm = mm [OF True]
    define c0 where "c0 = (if lo > mm_base mm then lo else mm_base mm)"
    let ?stop = "mm_base mm + mm_length mm" and ?c = "mask_low 12 (c0 + 4095)"
    define r where "r = bump_search t ?stop ?c (n * 4096) n"
    have c0: "c0 < 2 ^ 61" using assms(2) mm by (simp add: c0_def)
    have "?c \<le> c0 + 4095" by (rule mask_low_le)
    also have "\<dots> < 2 ^ 62" using c0 by simp
    finally have "?c < 2 ^ 62" .
    then have out: "search_outcome t n ?c ?stop r"
      unfolding r_def using mm assms(3) by (intro bump_search_spec mask_page_dvd) simp_all
    have eq: "bump_regions t lo (n * 4096) n (mm # rest) =
        (case r of None \<Rightarrow> None | Some None \<Rightarrow> bump_regions t lo (n * 4096) n rest | Some (Some c) \<Rightarrow> Some (Some c))"
      using True mm c0 by (simp add: Let_def uadd_def c0_def [symmetric] r_def split: option.splits)
    have lo: "4096 dvd c \<Longrightarrow> ?c \<le> c \<longleftrightarrow> mm_base mm \<le> c \<and> lo \<le> c" for c
      by (simp only: align_up_le) (auto simp: c0_def)
    show ?thesis unfolding eq using out IH lo True
      by (auto simp: search_outcome_def bump_outcome_def usable_Cons split: option.splits)
  qed
qed

lemma allocate_contiguous_frames_spec:
  assumes "map_sane (memory_map bump)" "next_free_frame bump < 2 ^ 61" "n * 4096 < 2 ^ 61"
  obtains (found) c where "allocate_contiguous_frames n t bump = Some (Some c, bump\<lparr>next_free_frame := c + n * 4096\<rparr>)"
      "4096 dvd c" "next_free_frame bump \<le> c" "usable (memory_map bump) c (c + n * 4096)" "free_run t c n"
  | (full) "allocate_contiguous_frames n t bump = Some (None, bump)"
      "\<And>c. 4096 dvd c \<Longrightarrow> next_free_frame bump \<le> c \<Longrightarrow> usable (memory_map bump) c (c + n * 4096) \<Longrightarrow> \<not> free_run t c n"
proof -
  define r where "r = bump_regions t (next_free_frame bump) (n * 4096) n (memory_map bump)"
  have out: "bump_outcome t n (next_free_frame bump) (memory_map bump) r"
    unfolding r_def by (intro bump_regions_spec assms)
  have eq: "allocate_contiguous_frames n t bump = do { found \<leftarrow> r; (case found of None \<Rightarrow> Some (None, bump)
     | Some c \<Rightarrow> do { x \<leftarrow> uadd c (n * 4096); Some (Some c, bump\<lparr>next_free_frame := x\<rparr>) }) }"
    using assms(3) by (simp add: allocate_contiguous_frames_def umul_def r_def)
  have lt: "usable (memory_map bump) c (c + n * 4096) \<Longrightarrow> c + n * 4096 < 2 ^ 64" for c
    using assms(1) by (fastforce simp: usable_def map_sane_def)
  show thesis using out eq lt found full
    by (auto simp: bump_outcome_def uadd_def split: option.splits)
qed


section \<open>Feeding the buddy allocator\<close>

text \<open>The bytes of the frame at physical address \<open>f\<close>, and of a set of frames.\<close>

definition page :: "usize \<Rightarrow> nat set" where "page f = blk 0 (f + PHYS_OFFSET)"

definition pages :: "usize set \<Rightarrow> nat set" where "pages F = (\<Union>f \<in> F. page f)"

lemma page_iff: "x \<in> page f \<longleftrightarrow> f + PHYS_OFFSET \<le> x \<and> x < f + PHYS_OFFSET + 4096"
  by (simp add: page_def blk_def bsz_0)

lemma pages_simps [simp]: "pages {} = {}" "pages (insert f F) = page f \<union> pages F" "pages (F \<union> G) = pages F \<union> pages G"
  by (auto simp: pages_def)

lemma card_page [simp]: "card (page f) = 4096" "finite (page f)"
  by (simp_all add: page_def bsz_0)

lemma page_gap: "4096 dvd f \<Longrightarrow> 4096 dvd g \<Longrightarrow> f < g \<Longrightarrow> f + 4096 \<le> g" for f g :: nat
  by (auto elim!: dvdE)

text \<open>Page-aligned addresses of a range.\<close>

definition frames_in :: "usize \<Rightarrow> usize \<Rightarrow> usize set" where
  "frames_in lo hi = {f. 4096 dvd f \<and> lo \<le> f \<and> f < hi}"

lemma frames_in_empty: "hi \<le> lo \<Longrightarrow> frames_in lo hi = {}"
  by (auto simp: frames_in_def)

lemma frames_in_step:
  assumes "4096 dvd lo" "lo < hi"
  shows "frames_in lo hi = insert lo (frames_in (lo + 4096) hi)"
proof -
  have "lo + 4096 \<le> f" if "4096 dvd f" "lo < f" for f
    using assms(1) that by (rule page_gap)
  then have "4096 dvd f \<and> lo \<le> f \<and> f < hi \<longleftrightarrow> f = lo \<or> 4096 dvd f \<and> lo + 4096 \<le> f \<and> f < hi" for f
    using assms by (metis add_leD1 le_eq_less_or_eq)
  then show ?thesis unfolding frames_in_def by blast
qed

lemma frames_in_split: "4096 dvd mid \<Longrightarrow> lo \<le> mid \<Longrightarrow> mid \<le> hi \<Longrightarrow> frames_in lo hi = frames_in lo mid \<union> frames_in mid hi"
  by (auto simp: frames_in_def)

lemma pages_range:
  assumes "4096 dvd lo" "4096 dvd hi"
  shows "pages (frames_in lo hi) = {lo + PHYS_OFFSET ..< hi + PHYS_OFFSET}"
proof (intro set_eqI iffI)
  fix x assume "x \<in> pages (frames_in lo hi)"
  then obtain f where f: "4096 dvd f" "lo \<le> f" "f < hi" "x \<in> page f" by (auto simp: pages_def frames_in_def)
  then have "f + 4096 \<le> hi" using assms(2) page_gap by blast
  with f show "x \<in> {lo + PHYS_OFFSET ..< hi + PHYS_OFFSET}" by (auto simp: page_iff)
next
  fix x assume x: "x \<in> {lo + PHYS_OFFSET ..< hi + PHYS_OFFSET}"
  define f where "f = mask_low 12 (x - PHYS_OFFSET)"
  have "lo \<le> f" using x mask_low_mono [of lo "x - PHYS_OFFSET" 12] assms(1) mask_low_id [of 12 lo] by (auto simp: f_def)
  moreover have "f \<le> x - PHYS_OFFSET" "x - PHYS_OFFSET < f + 4096"
    using mask_low_gt [of "x - PHYS_OFFSET" 12] by (simp_all add: f_def)
  ultimately have "f \<in> frames_in lo hi" "x \<in> page f"
    using x mask_page_dvd [of "x - PHYS_OFFSET"] unfolding frames_in_def page_iff f_def [symmetric]
    by (simp, linarith, simp, linarith)
  then show "x \<in> pages (frames_in lo hi)" unfolding pages_def by blast
qed

lemma page_disjoint:
  assumes "4096 dvd f" "4096 dvd g" "f \<noteq> g"
  shows "page f \<inter> page g = {}"
proof (cases "f < g")
  case True
  then show ?thesis using page_gap [OF assms(1,2)] by (auto simp: page_iff)
next
  case False
  then show ?thesis using page_gap [OF assms(2,1)] assms(3) by (auto simp: page_iff)
qed

lemma page_count_step: "lo + 4096 \<le> hi \<Longrightarrow> (hi - lo) div 4096 = Suc ((hi - (lo + 4096)) div 4096)" for lo hi :: nat
  by (auto dest!: le_Suc_ex simp: add.assoc)

lemma run_end_spec:
  assumes "4096 dvd c" "4096 dvd region_end" "region_end < 2 ^ 62" "f + (region_end - c) div 4096 < 2 ^ 64" "c \<le> region_end"
  shows "\<exists>c'. run_end t region_end c f = Some (c', f + (c' - c) div 4096) \<and> 4096 dvd c' \<and> c \<le> c' \<and> c' \<le> region_end \<and>
    (\<forall>g \<in> frames_in c c'. frame_free t g)"
  using assms(1,4,5)
proof (induction "region_end - c" arbitrary: c f rule: less_induct)
  case less
  have tot: "is_reserved t c 4096 = Some (\<not> frame_free t c)"
    using less.prems(3) assms(3) by (auto simp: frame_free_def is_reserved_total)
  show ?case
  proof (cases "c < region_end \<and> frame_free t c")
    case False
    then have "run_end t region_end c f = Some (c, f)"
      using tot by (auto simp: run_end.simps [of t region_end c f])
    with less.prems show ?thesis by (intro exI [of _ c]) (simp add: frames_in_empty)
  next
    case True
    then have le: "c + 4096 \<le> region_end" using less.prems(1) assms(2) page_gap by blast
    note dv = page_count_step [OF le]
    have f: "Suc f + (region_end - (c + 4096)) div 4096 < 2 ^ 64" using less.prems(2) unfolding dv by simp
    then have "uadd f 1 = Some (Suc f)" "uadd c 4096 = Some (c + 4096)"
      using le assms(3) by (simp_all add: uadd_def)
    then have "run_end t region_end c f = run_end t region_end (c + 4096) (Suc f)"
      using True tot by (simp add: run_end.simps [of t region_end c f])
    moreover have "region_end - (c + 4096) < region_end - c" using le by linarith
    note less.hyps [OF this _ f le]
    then obtain c' where "run_end t region_end (c + 4096) (Suc f) = Some (c', Suc f + (c' - (c + 4096)) div 4096)"
      "4096 dvd c'" "c + 4096 \<le> c'" "c' \<le> region_end" "\<forall>g \<in> frames_in (c + 4096) c'. frame_free t g"
      using less.prems(1) by auto
    moreover note page_count_step [OF \<open>c + 4096 \<le> c'\<close>]
    moreover have "frames_in c c' = insert c (frames_in (c + 4096) c')"
      using less.prems(1) \<open>c + 4096 \<le> c'\<close> by (intro frames_in_step) auto
    ultimately show ?thesis using True by (intro exI [of _ c']) simp
  qed
qed


definition free_frames :: "region_tracker \<Rightarrow> usize \<Rightarrow> usize \<Rightarrow> usize set" where
  "free_frames t lo hi = {g \<in> frames_in lo hi. frame_free t g}"

lemma free_frames_empty: "hi \<le> lo \<Longrightarrow> free_frames t lo hi = {}"
  by (simp add: free_frames_def frames_in_empty)

lemma free_frames_skip:
  "4096 dvd lo \<Longrightarrow> lo < hi \<Longrightarrow> \<not> frame_free t lo \<Longrightarrow> free_frames t lo hi = free_frames t (lo + 4096) hi"
  by (auto simp: free_frames_def frames_in_step)

lemma free_frames_run:
  assumes "4096 dvd mid" "lo \<le> mid" "mid \<le> hi" "\<forall>g \<in> frames_in lo mid. frame_free t g"
  shows "free_frames t lo hi = frames_in lo mid \<union> free_frames t mid hi"
  using assms(4) unfolding free_frames_def frames_in_split [OF assms(1-3)] by blast

lemma pages_disjoint:
  assumes "F \<inter> G = {}" "\<forall>f \<in> F \<union> G. 4096 dvd f"
  shows "pages F \<inter> pages G = {}"
proof -
  have "page f \<inter> page g = {}" if "f \<in> F" "g \<in> G" for f g
    using that assms by (intro page_disjoint) auto
  then show ?thesis unfolding pages_def by blast
qed

lemma gave_card:
  assumes "gave L X (m, b) fl s' fl'" "X \<inter> free_bytes fl = {}" "finite X" "lists_ok L (m, b) fl"
  shows "card (free_bytes fl') = card (free_bytes fl) + card X"
proof -
  have "finite (free_bytes fl)" using free_bytes_bound(1) [OF assms(4)] by (rule finite_subset) simp
  then show ?thesis using assms(1-3) by (simp add: gave_def card_Un_disjoint Int_commute)
qed

text \<open>What the feeding loops maintain: the configuration of the direct map, and the counter of
  frames in step with the free bytes.\<close>

definition feed_inv :: "nat \<Rightarrow> usize \<Rightarrow> buddy_st \<Rightarrow> frees \<Rightarrow> bool" where
  "feed_inv L f s fl \<longleftrightarrow> buddy_inv L s fl \<and> base_addr (snd s) = PHYS_OFFSET \<and> card (free_bytes fl) = 4096 * f"

lemma feed_inv_bounds:
  assumes "feed_inv L f (m, b) fl"
  shows "L + PHYS_OFFSET < 2 ^ 64" "L < 2 ^ 47" "4096 * f \<le> L"
proof -
  from assms have inv: "buddy_inv L (m, b) fl" and b: "base_addr b = PHYS_OFFSET"
    and c: "card (free_bytes fl) = 4096 * f" by (simp_all add: feed_inv_def)
  show "L + PHYS_OFFSET < 2 ^ 64" using buddy_invD(2) [OF inv] b by (simp add: geometry_def add.commute)
  then show "L < 2 ^ 47" by (simp add: PHYS_OFFSET_def)
  show "4096 * f \<le> L" using free_bytes_bound(2) [OF buddy_invD(1) [OF inv]] c by simp
qed

lemma feed_run:
  assumes inv: "feed_inv L f (m, b) fl" and al: "4096 dvd c" "4096 dvd c'" "c \<le> c'" "c' \<le> L"
    and dj: "pages (frames_in c c') \<inter> (free_bytes fl \<union> bitmap_bytes b) = {}"
  shows "\<exists>s' fl'. add_free_region (c + PHYS_OFFSET) (c' + PHYS_OFFSET) (m, b) = Some s' \<and>
    gave L (pages (frames_in c c')) (m, b) fl s' fl' \<and> feed_inv L (f + (c' - c) div 4096) s' fl'"
proof -
  from inv have bi: "buddy_inv L (m, b) fl" and b: "base_addr b = PHYS_OFFSET" by (simp_all add: feed_inv_def)
  have off: "4096 dvd PHYS_OFFSET" by (simp add: PHYS_OFFSET_def)
  have rng: "pages (frames_in c c') = {c + PHYS_OFFSET ..< c' + PHYS_OFFSET}" using al(1,2) by (rule pages_range)
  have "addable L b fl (c + PHYS_OFFSET) (c' + PHYS_OFFSET)"
    unfolding addable_def b using al off dj unfolding rng by (simp add: PHYS_OFFSET_def)
  from add_free_region_spec [OF bi this] obtain s' fl' where
    r: "add_free_region (c + PHYS_OFFSET) (c' + PHYS_OFFSET) (m, b) = Some s'"
      "gave L (pages (frames_in c c')) (m, b) fl s' fl'" unfolding rng by blast
  have "card (free_bytes fl') = card (free_bytes fl) + card (pages (frames_in c c'))"
    using r(2) dj buddy_invD(1) [OF bi] unfolding rng by (intro gave_card) auto
  moreover have "card (pages (frames_in c c')) = c' - c" unfolding rng by simp
  moreover have "4096 * ((c' - c) div 4096) = c' - c" using al by simp
  ultimately have "feed_inv L (f + (c' - c) div 4096) s' fl'"
    using inv r(2) by (auto simp: feed_inv_def gave_def same_conf_def algebra_simps)
  with r show ?thesis by blast
qed

lemma feed_free_step:
  assumes inv: "feed_inv L f (m, b) fl" and c: "4096 dvd c" "c < re" and free: "frame_free t c"
    and re: "4096 dvd re" "re \<le> L"
    and dj: "pages (frames_in c re) \<inter> free_bytes fl = {}" "pages (free_frames t c re) \<inter> bitmap_bytes b = {}"
  obtains c' m2 b2 fl2 where "c < c'" "4096 dvd c'"
    "feed_region t re c f (m, b) = feed_region t re c' (f + (c' - c) div 4096) (m2, b2)"
    "gave L (pages (frames_in c c')) (m, b) fl (m2, b2) fl2" "feed_inv L (f + (c' - c) div 4096) (m2, b2) fl2"
    "pages (frames_in c' re) \<inter> free_bytes fl2 = {}" "pages (free_frames t c' re) \<inter> bitmap_bytes b2 = {}"
    "free_frames t c re = frames_in c c' \<union> free_frames t c' re"
proof -
  note bd = feed_inv_bounds [OF inv]
  have "f + (re - c) div 4096 < 2 ^ 64" using bd(2,3) re(2) div_le_dividend [of "re - c" 4096] by (simp del: div_le_dividend)
  then obtain c' where r: "run_end t re c f = Some (c', f + (c' - c) div 4096)" "4096 dvd c'" "c \<le> c'" "c' \<le> re"
      "\<forall>g \<in> frames_in c c'. frame_free t g"
    using run_end_spec [OF c(1) re(1), of f t] bd(2) re(2) c(2) by auto
  have res: "is_reserved t c 4096 = Some False" using free by (simp add: frame_free_def)
  have lt: "c < c'" using r(1) c(2) res by (rule run_end_step)
  note ff = free_frames_run [OF r(2-5)] and fi = frames_in_split [OF r(2-4)]
  have "pages (frames_in c c') \<inter> (free_bytes fl \<union> bitmap_bytes b) = {}"
    using dj unfolding ff fi by auto
  from feed_run [OF inv c(1) r(2,3) _ this] r(4) re(2) obtain m2 b2 fl2 where
    a: "add_free_region (c + PHYS_OFFSET) (c' + PHYS_OFFSET) (m, b) = Some (m2, b2)"
    and g: "gave L (pages (frames_in c c')) (m, b) fl (m2, b2) fl2"
    and inv2: "feed_inv L (f + (c' - c) div 4096) (m2, b2) fl2" by auto
  have "uadd c PHYS_OFFSET = Some (c + PHYS_OFFSET)" "uadd c' PHYS_OFFSET = Some (c' + PHYS_OFFSET)"
    using bd(1) c(2) r(4) re(2) by (simp_all add: uadd_def)
  then have eq: "feed_region t re c f (m, b) = feed_region t re c' (f + (c' - c) div 4096) (m2, b2)"
    using c(2) res r(1) a by (simp add: feed_region.simps [of t re c])
  have "pages (frames_in c c') \<inter> pages (frames_in c' re) = {}"
    by (intro pages_disjoint) (auto simp: frames_in_def)
  then have "pages (frames_in c' re) \<inter> free_bytes fl2 = {}"
    using g dj(1) unfolding fi gave_def by auto
  moreover have "pages (free_frames t c' re) \<inter> bitmap_bytes b2 = {}"
    using g dj(2) conf_cong(7) [of b b2] unfolding ff gave_def by auto
  ultimately show thesis using that [OF lt r(2) eq g inv2] ff by blast
qed

lemma feed_region_spec:
  assumes "feed_inv L f (m, b) fl" "4096 dvd c" "4096 dvd re" "re \<le> L"
    and "pages (frames_in c re) \<inter> free_bytes fl = {}" "pages (free_frames t c re) \<inter> bitmap_bytes b = {}"
  shows "\<exists>f' s' fl'. feed_region t re c f (m, b) = Some (f', s') \<and>
    gave L (pages (free_frames t c re)) (m, b) fl s' fl' \<and> feed_inv L f' s' fl'"
  using assms(1,2,5,6)
proof (induction "re - c" arbitrary: c f m b fl rule: less_induct)
  case less
  note inv = less.prems(1) and bd = feed_inv_bounds [OF less.prems(1)]
  consider "re \<le> c" | "c < re" "\<not> frame_free t c" | "c < re" "frame_free t c" by linarith
  then show ?case
  proof cases
    case 1
    then have "feed_region t re c f (m, b) = Some (f, (m, b))" by (simp add: feed_region.simps [of t re c])
    with inv 1 show ?thesis by (auto simp: gave_def free_frames_empty feed_inv_def)
  next
    case 2
    have "uadd c 4096 = Some (c + 4096)" "is_reserved t c 4096 = Some (\<not> frame_free t c)"
      using 2 assms(4) bd(2) by (auto simp: uadd_def frame_free_def is_reserved_total)
    then have "feed_region t re c f (m, b) = feed_region t re (c + 4096) f (m, b)"
      using 2 by (simp add: feed_region.simps [of t re c])
    moreover have "free_frames t c re = free_frames t (c + 4096) re"
      using less.prems(2) 2 by (rule free_frames_skip)
    moreover have "pages (frames_in (c + 4096) re) \<inter> free_bytes fl = {}"
      using less.prems(3) unfolding frames_in_step [OF less.prems(2) 2(1)] by auto
    moreover have "re - (c + 4096) < re - c" using 2(1) by linarith
    ultimately show ?thesis using less.hyps [of "c + 4096" f m b fl] less.prems by simp
  next
    case 3
    then obtain c' m2 b2 fl2 where st: "c < c'" "4096 dvd c'"
      "feed_region t re c f (m, b) = feed_region t re c' (f + (c' - c) div 4096) (m2, b2)"
      "gave L (pages (frames_in c c')) (m, b) fl (m2, b2) fl2" "feed_inv L (f + (c' - c) div 4096) (m2, b2) fl2"
      "pages (frames_in c' re) \<inter> free_bytes fl2 = {}" "pages (free_frames t c' re) \<inter> bitmap_bytes b2 = {}"
      "free_frames t c re = frames_in c c' \<union> free_frames t c' re"
      by (rule feed_free_step [OF inv less.prems(2) _ _ assms(3,4) less.prems(3,4)])
    have "re - c' < re - c" using st(1) 3(1) by linarith
    from less.hyps [OF this st(5,2,6,7)] obtain f' s' fl' where
      IH: "feed_region t re c' (f + (c' - c) div 4096) (m2, b2) = Some (f', s')"
        "gave L (pages (free_frames t c' re)) (m2, b2) fl2 s' fl'" "feed_inv L f' s' fl'" by blast
    have "gave L (pages (free_frames t c re)) (m, b) fl s' fl'"
      by (rule gave_trans [OF st(4) IH(2)]) (simp add: st(8))
    with IH st(3) show ?thesis by auto
  qed
qed


definition mapped_frames :: "memory_map_entry list \<Rightarrow> usize set" where
  "mapped_frames mmap = {f. 4096 dvd f \<and> usable mmap f (f + 4096)}"

definition usable_frames :: "region_tracker \<Rightarrow> memory_map_entry list \<Rightarrow> usize set" where
  "usable_frames t mmap = {f \<in> mapped_frames mmap. frame_free t f}"

fun map_apart :: "memory_map_entry list \<Rightarrow> bool" where
  "map_apart [] = True"
| "map_apart (mm # rest) \<longleftrightarrow> (mm_typ mm = 1 \<longrightarrow> (\<forall>mm' \<in> set rest. mm_typ mm' = 1 \<longrightarrow>
       mm_base mm + mm_length mm \<le> mm_base mm' \<or> mm_base mm' + mm_length mm' \<le> mm_base mm)) \<and> map_apart rest"

definition map_below :: "nat \<Rightarrow> memory_map_entry list \<Rightarrow> bool" where
  "map_below L mmap \<longleftrightarrow> (\<forall>mm \<in> set mmap. mm_typ mm = 1 \<longrightarrow> mm_base mm + mm_length mm \<le> L)"

lemma align_down_less: "4096 dvd f \<Longrightarrow> f < mask_low 12 e \<longleftrightarrow> f + 4096 \<le> e"
proof
  assume d: "4096 dvd f"
  assume "f < mask_low 12 e"
  then have "f + 4096 \<le> mask_low 12 e" by (rule page_gap [OF d mask_page_dvd])
  also have "\<dots> \<le> e" by simp
  finally show "f + 4096 \<le> e" .
next
  assume "4096 dvd f" "f + 4096 \<le> e"
  then have "f + 4096 \<le> mask_low 12 e" using mask_low_mono [of "f + 4096" e 12] mask_low_id [of 12 "f + 4096"] by simp
  then show "f < mask_low 12 e" by linarith
qed

lemma entry_frames:
  "frames_in (mask_low 12 (bs + 4095)) (mask_low 12 e) = {f. 4096 dvd f \<and> bs \<le> f \<and> f + 4096 \<le> e}"
  by (auto simp: frames_in_def align_up_le align_down_less)

lemma mapped_frames_Cons:
  "mapped_frames (mm # rest) = (if mm_typ mm = 1 then
     frames_in (mask_low 12 (mm_base mm + 4095)) (mask_low 12 (mm_base mm + mm_length mm)) else {}) \<union> mapped_frames rest"
  by (auto simp: mapped_frames_def usable_Cons entry_frames)

lemma usable_frames_Cons:
  "usable_frames t (mm # rest) = (if mm_typ mm = 1 then
     free_frames t (mask_low 12 (mm_base mm + 4095)) (mask_low 12 (mm_base mm + mm_length mm)) else {}) \<union> usable_frames t rest"
  by (auto simp: usable_frames_def mapped_frames_Cons free_frames_def)

lemma entries_disjoint:
  assumes "map_apart (mm # rest)" "mm_typ mm = 1"
  shows "pages (frames_in (mask_low 12 (mm_base mm + 4095)) (mask_low 12 (mm_base mm + mm_length mm))) \<inter>
    pages (mapped_frames rest) = {}"
proof (rule pages_disjoint)
  show "frames_in (mask_low 12 (mm_base mm + 4095)) (mask_low 12 (mm_base mm + mm_length mm)) \<inter> mapped_frames rest = {}"
    using assms unfolding entry_frames mapped_frames_def usable_def by fastforce
qed (auto simp: frames_in_def mapped_frames_def)

lemma feed_all_spec:
  assumes "feed_inv L f (m, b) fl" "map_apart mmap" "map_below L mmap"
    and "pages (mapped_frames mmap) \<inter> free_bytes fl = {}" "pages (usable_frames t mmap) \<inter> bitmap_bytes b = {}"
  shows "\<exists>f' s' fl'. feed_all t mmap f (m, b) = Some (f', s') \<and>
    gave L (pages (usable_frames t mmap)) (m, b) fl s' fl' \<and> feed_inv L f' s' fl'"
  using assms
proof (induction mmap arbitrary: f m b fl)
  case Nil
  then show ?case by (auto simp: gave_def usable_frames_def mapped_frames_def usable_def feed_inv_def)
next
  case (Cons mm rest)
  have rest: "map_apart rest" "map_below L rest" using Cons.prems(2,3) by (auto simp: map_below_def)
  show ?case
  proof (cases "mm_typ mm = 1")
    case False
    then show ?thesis using Cons.IH [OF Cons.prems(1) rest] Cons.prems(4,5)
      by (simp add: mapped_frames_Cons usable_frames_Cons)
  next
    case True
    let ?e = "mm_base mm + mm_length mm"
    let ?lo = "mask_low 12 (mm_base mm + 4095)" and ?hi = "mask_low 12 ?e"
    have e: "?e \<le> L" using Cons.prems(3) True by (simp add: map_below_def)
    then have hi: "?hi \<le> L" using mask_low_le [of 12 ?e] by linarith
    obtain f1 m1 b1 fl1 where r: "feed_region t ?hi ?lo f (m, b) = Some (f1, (m1, b1))"
      "gave L (pages (free_frames t ?lo ?hi)) (m, b) fl (m1, b1) fl1" "feed_inv L f1 (m1, b1) fl1"
      using feed_region_spec [OF Cons.prems(1) mask_page_dvd mask_page_dvd hi, of "mm_base mm + 4095" t] Cons.prems(4,5) True
      by (auto simp: mapped_frames_Cons usable_frames_Cons Int_Un_distrib2)
    have sub: "pages (free_frames t ?lo ?hi) \<subseteq> pages (frames_in ?lo ?hi)" by (auto simp: pages_def free_frames_def)
    have "pages (mapped_frames rest) \<inter> free_bytes fl1 = {}"
      using r(2) Cons.prems(4) sub entries_disjoint [OF Cons.prems(2) True] True
      unfolding gave_def mapped_frames_Cons by auto
    moreover have "pages (usable_frames t rest) \<inter> bitmap_bytes b1 = {}"
      using r(2) Cons.prems(5) conf_cong(7) [of b b1] unfolding gave_def usable_frames_Cons by auto
    ultimately obtain f' s' fl' where IH: "feed_all t rest f1 (m1, b1) = Some (f', s')"
      "gave L (pages (usable_frames t rest)) (m1, b1) fl1 s' fl'" "feed_inv L f' s' fl'"
      using Cons.IH [OF r(3) rest] by blast
    have "uadd (mm_base mm) 4095 = Some (mm_base mm + 4095)" "uadd (mm_base mm) (mm_length mm) = Some ?e"
      using e feed_inv_bounds(2) [OF Cons.prems(1)] by (simp_all add: uadd_def)
    then have "feed_all t (mm # rest) f (m, b) = Some (f', s')" using True r(1) IH(1) by (simp add: Let_def)
    moreover have "gave L (pages (usable_frames t (mm # rest))) (m, b) fl s' fl'"
      using True by (intro gave_trans [OF r(2) IH(2)]) (simp add: usable_frames_Cons)
    ultimately show ?thesis using IH(3) by blast
  qed
qed


section \<open>The bootstrap\<close>

lemma bitmap_one_frame:
  assumes "2 ^ 16 \<le> h" "h \<le> 2 ^ 27"
  shows "calculate_bitmap_size h = Some 4096"
proof -
  have "1 \<le> h div 2 ^ 16" "h div 2 ^ 16 \<le> 2048"
    using div_le_mono [OF assms(1), of "2 ^ 16"] div_le_mono [OF assms(2), of "2 ^ 16"] by simp_all
  moreover from this have "(h div 2 ^ 16 + 4095) div 4096 = 1" by linarith
  ultimately show ?thesis by (simp add: calculate_bitmap_size_def ushr_def uadd_def mask_low_def)
qed

lemma bitmap_bytes_init: "bitmap_bytes (buddy_init (p + PHYS_OFFSET) 4096 base b) = page p"
  by (auto simp: bitmap_bytes_def buddy_init_def page_iff)

lemma buddy_init_new: "buddy_init p n base b = buddy_new p n base"
  by (simp add: buddy_init_def buddy_new_def)

lemma init_feed:
  assumes "2 ^ 16 \<le> highest" "highest \<le> 2 ^ 27" "map_apart mmap" "map_below highest mmap"
    and t: "\<not> frame_free t p" "4096 dvd p"
    and m: "m' = wr_bytes m (p + PHYS_OFFSET) 0 4096"
    and b: "b = buddy_init (p + PHYS_OFFSET) 4096 PHYS_OFFSET b0"
  obtains f s fl where "feed_all t mmap 0 (m', b) = Some (f, s)" "feed_inv highest f s fl"
    "free_bytes fl = pages (usable_frames t mmap)" "same_conf b (snd s)"
proof -
  have geo: "geometry highest (buddy_new (p + PHYS_OFFSET) 4096 PHYS_OFFSET)"
    using assms(2) by (simp add: geometry_def buddy_new_def bsz_def PHYS_OFFSET_def)
  have "buddy_inv highest (m', b) (\<lambda>_. [])"
    unfolding b m buddy_init_new by (rule buddy_new_inv [OF geo]) (simp add: wr_bytes_def)
  then have fi: "feed_inv highest 0 (m', b) (\<lambda>_. [])"
    by (simp add: feed_inv_def b buddy_init_def free_bytes_def fblocks_def)
  have "usable_frames t mmap \<inter> {p} = {}" "\<forall>f \<in> usable_frames t mmap \<union> {p}. 4096 dvd f"
    using t by (auto simp: usable_frames_def mapped_frames_def)
  from pages_disjoint [OF this] have "pages (usable_frames t mmap) \<inter> page p = {}" by simp
  then have "pages (usable_frames t mmap) \<inter> bitmap_bytes b = {}" unfolding b bitmap_bytes_init .
  moreover have nil: "free_bytes (\<lambda>_. []) = {}" by (simp add: free_bytes_def fblocks_def)
  ultimately obtain f s fl where "feed_all t mmap 0 (m', b) = Some (f, s)"
    "gave highest (pages (usable_frames t mmap)) (m', b) (\<lambda>_. []) s fl" "feed_inv highest f s fl"
    using feed_all_spec [OF fi assms(3,4), of t] by auto
  then show thesis by (intro that) (auto simp: gave_def nil)
qed

text \<open>What the bootstrap needs: a map of disjoint usable regions below \<open>highest\<close>, a slot for the
  bitmap's reservation and one free frame above the bump pointer.\<close>

definition boot_ok :: "usize \<Rightarrow> memory_map_entry list \<Rightarrow> bump_allocator \<Rightarrow> region_tracker \<Rightarrow> bool" where
  "boot_ok highest mmap bump t \<longleftrightarrow> 2 ^ 16 \<le> highest \<and> highest \<le> 2 ^ 27 \<and> map_apart mmap \<and> map_below highest mmap \<and>
     memory_map bump = mmap \<and> next_free_frame bump < 2 ^ 61 \<and> tracker_ok t \<and> rcount t < MAX_RESERVED \<and>
     (\<exists>c \<in> usable_frames t mmap. next_free_frame bump \<le> c)"

lemma init_physical_memory_spec:
  assumes "boot_ok highest mmap bump t"
  shows "\<exists>mb bump' t' s fl p.
    init_physical_memory highest mmap bump t (m, b) = Some (mb, bump', t', s) \<and>
    p \<in> usable_frames t mmap \<and> bitmap_bytes (snd s) = page p \<and> bump' = bump\<lparr>next_free_frame := p + 4096\<rparr> \<and>
    active_regions t' = active_regions t @ [\<lparr>rr_start = p, rr_end = p + 4096, rr_name = ''Buddy Allocator Bitmap''\<rparr>] \<and>
    buddy_inv highest s fl \<and> base_addr (snd s) = PHYS_OFFSET \<and> free_bytes fl = pages (usable_frames t' mmap) \<and>
    mb = card (free_bytes fl) div 2 ^ 20"
proof -
  from assms have h: "2 ^ 16 \<le> highest" "highest \<le> 2 ^ 27" and mm: "map_apart mmap" "map_below highest mmap"
    and bp: "memory_map bump = mmap" "next_free_frame bump < 2 ^ 61" and t: "tracker_ok t" "rcount t < 32"
    and room: "\<exists>c \<in> usable_frames t mmap. next_free_frame bump \<le> c" by (simp_all add: boot_ok_def)
  have run1: "free_run t c 1 \<longleftrightarrow> frame_free t c" for c by (simp add: free_run_def)
  have sane: "map_sane (memory_map bump)" using mm(2) h(2) bp(1) by (fastforce simp: map_sane_def map_below_def)
  obtain p where p: "allocate_contiguous_frames 1 t bump = Some (Some p, bump\<lparr>next_free_frame := p + 4096\<rparr>)"
    "p \<in> usable_frames t mmap"
    by (rule allocate_contiguous_frames_spec [OF sane bp(2), of 1 t])
      (use room bp(1) in \<open>auto simp: usable_frames_def mapped_frames_def run1 [simplified]\<close>)
  have pl: "p + 4096 \<le> highest" "4096 dvd p"
    using p(2) mm(2) by (fastforce simp: usable_frames_def mapped_frames_def usable_def map_below_def)+
  obtain t' where t': "reserve_region p (p + 4096) ''Buddy Allocator Bitmap'' t = Some t'"
    "active_regions t' = active_regions t @ [\<lparr>rr_start = p, rr_end = p + 4096, rr_name = ''Buddy Allocator Bitmap''\<rparr>]"
    using reserve_region_ok [OF t] by blast
  have "\<not> frame_free t' p"
    using frame_free_disjoint [of t' p] by (auto simp: reserved_bytes_def t'(2))
  then obtain f s fl where f: "feed_all t' mmap 0 (wr_bytes m (p + PHYS_OFFSET) 0 4096, buddy_init (p + PHYS_OFFSET) 4096 PHYS_OFFSET b) = Some (f, s)"
    "feed_inv highest f s fl" "free_bytes fl = pages (usable_frames t' mmap)"
    "same_conf (buddy_init (p + PHYS_OFFSET) 4096 PHYS_OFFSET b) (snd s)"
    by (rule init_feed [OF h mm _ pl(2) refl refl])
  have bound: "p + PHYS_OFFSET < 2 ^ 64" "p + 4096 < 2 ^ 64" "f * 4096 < 2 ^ 64"
    using pl(1) h(2) feed_inv_bounds(3) [of highest f "fst s" "snd s" fl] f(2) by (simp_all add: PHYS_OFFSET_def)
  have c: "card (free_bytes fl) = f * 4096" "buddy_inv highest s fl" "base_addr (snd s) = PHYS_OFFSET"
    using f(2) by (simp_all add: feed_inv_def)
  have "init_physical_memory highest mmap bump t (m, b) =
      Some (f * 4096 div 1024 div 1024, bump\<lparr>next_free_frame := p + 4096\<rparr>, t', s)"
    using p(1) t'(1) f(1) bound
    by (simp add: init_physical_memory_def bitmap_one_frame [OF h] uadd_def umul_def Let_def)
  moreover have "f * 4096 div 1024 div 1024 = card (free_bytes fl) div 2 ^ 20"
    by (simp add: c(1) div_mult2_eq [symmetric])
  moreover have "bitmap_bytes (snd s) = page p" using conf_cong(7) [OF f(4)] by (simp add: bitmap_bytes_init)
  ultimately show ?thesis using p(2) t'(2) c(2,3) f(3) by (intro exI conjI) (assumption | rule refl)+
qed


section \<open>The interface of the frame functions\<close>

text \<open>
  \<open>finv F s\<close>: \<open>F\<close> are the bytes of the frames that can be handed out.  \<open>fvalid b p\<close>: \<open>p\<close> is the
  physical address of a frame the allocator may be given back.
\<close>

locale frame_source =
  fixes finv :: "nat set \<Rightarrow> mem \<times> 'b \<Rightarrow> bool"
    and own :: "'b \<Rightarrow> nat set"
    and fvalid :: "'b \<Rightarrow> usize \<Rightarrow> bool"
    and falloc :: "mem \<times> 'b \<Rightarrow> (usize option \<times> mem \<times> 'b) option"
    and fzalloc :: "mem \<times> 'b \<Rightarrow> (usize option \<times> mem \<times> 'b) option"
    and ffree :: "usize \<Rightarrow> mem \<times> 'b \<Rightarrow> (mem \<times> 'b) option"
  assumes falloc_total: "finv F s \<Longrightarrow> \<exists>r s'. falloc s = Some (r, s')"
    and falloc_None: "finv F s \<Longrightarrow> falloc s = Some (None, s') \<Longrightarrow> s' = s \<and> F = {}"
    and falloc_Some: "finv F (m, b) \<Longrightarrow> falloc (m, b) = Some (Some p, (m', b')) \<Longrightarrow>
      fvalid b p \<and> page p \<subseteq> F \<and> finv (F - page p) (m', b') \<and> own b' = own b \<and> fvalid b' = fvalid b \<and>
      agree_off (F \<union> own b) m m'"
    and fzalloc_total: "finv F s \<Longrightarrow> \<exists>r s'. fzalloc s = Some (r, s')"
    and fzalloc_None: "finv F s \<Longrightarrow> fzalloc s = Some (None, s') \<Longrightarrow> s' = s \<and> F = {}"
    and fzalloc_Some: "finv F (m, b) \<Longrightarrow> fzalloc (m, b) = Some (Some p, (m', b')) \<Longrightarrow>
      fvalid b p \<and> page p \<subseteq> F \<and> finv (F - page p) (m', b') \<and> own b' = own b \<and> fvalid b' = fvalid b \<and>
      agree_off (F \<union> own b) m m' \<and> (\<forall>x \<in> page p. m' x = 0)"
    and ffree_ok: "finv F (m, b) \<Longrightarrow> fvalid b p \<Longrightarrow> page p \<inter> F = {} \<Longrightarrow>
      \<exists>m' b'. ffree p (m, b) = Some (m', b') \<and> finv (F \<union> page p) (m', b') \<and> own b' = own b \<and>
      fvalid b' = fvalid b \<and> agree_off (F \<union> page p \<union> own b) m m'"
    and fvalidD: "fvalid b p \<Longrightarrow> 4096 dvd p \<and> p < 2 ^ 47 \<and> page p \<inter> own b = {}"
    and finv_own: "finv F (m, b) \<Longrightarrow> F \<inter> own b = {}"
    and finv_frame: "finv F (m, b) \<Longrightarrow> agree_off X m m' \<Longrightarrow> X \<inter> (F \<union> own b) = {} \<Longrightarrow> finv F (m', b)"

definition frame_inv :: "nat \<Rightarrow> nat set \<Rightarrow> buddy_st \<Rightarrow> bool" where
  "frame_inv L F s \<longleftrightarrow> buddy_ainv L F s \<and> base_addr (snd s) = PHYS_OFFSET"

definition frame_valid :: "nat \<Rightarrow> buddy_allocator \<Rightarrow> usize \<Rightarrow> bool" where
  "frame_valid L b p \<longleftrightarrow> buddy_valid L b 0 (p + PHYS_OFFSET) \<and> base_addr b = PHYS_OFFSET"

lemma base_addr_alloc:
  assumes "buddy_ainv L F (m, b)" "buddy_alloc ord (m, b) = Some (r, (m', b'))"
  shows "same_conf b b'"
proof -
  from assms(1) obtain fl where "buddy_inv L (m, b) fl" by (auto simp: buddy_ainv_def)
  then show ?thesis using assms(2)
    by (cases rule: buddy_alloc_cases [where ord = ord]) (auto simp: took_def)
qed

lemma base_addr_free:
  assumes "buddy_ainv L F (m, b)" "buddy_valid L b ord a" "blk ord a \<inter> F = {}" "buddy_free a ord (m, b) = Some (m', b')"
  shows "same_conf b b'"
proof -
  from assms(1) obtain fl where fl: "buddy_inv L (m, b) fl" "free_bytes fl = F" by (auto simp: buddy_ainv_def)
  have "placeable L b fl ord a" using assms(2,3) fl(2) by (simp add: placeable_def buddy_valid_def)
  from buddy_free_spec [OF fl(1) this refl] assms(4) show ?thesis by (auto simp: gave_def)
qed

lemma frame_valid_conf: "same_conf b b' \<Longrightarrow> frame_valid L b' = frame_valid L b"
  using buddy_valid_conf [of b b' L] by (simp add: frame_valid_def fun_eq_iff same_conf_def)

lemma buddy_alloc_none:
  assumes "buddy_ainv L F (m, b)" "buddy_alloc 0 (m, b) = Some (None, s')"
  shows "s' = (m, b)" "F = {}"
proof -
  show "s' = (m, b)" using bd.alloc_None [OF assms] .
  from assms(1) obtain fl where fl: "buddy_inv L (m, b) fl" "F = free_bytes fl" by (auto simp: buddy_ainv_def)
  from fl(1) have "\<forall>i \<in> {min 0 10..10}. fl i = []"
    by (cases rule: buddy_alloc_cases [where ord = 0]) (use assms(2) in simp_all)
  then show "F = {}" unfolding fl(2) free_bytes_def fblocks_def by auto
qed

lemma allocate_frame_cases:
  assumes "frame_inv L F (m, b)"
  obtains (none) "allocate_frame (m, b) = Some (None, (m, b))" "F = {}"
  | (some) p m' b' where "allocate_frame (m, b) = Some (Some p, (m', b'))"
      "frame_valid L b p" "page p \<subseteq> F" "frame_inv L (F - page p) (m', b')" "same_conf b b'"
      "agree_off (F \<union> bitmap_bytes b) m m'"
proof -
  from assms have inv: "buddy_ainv L F (m, b)" and base: "base_addr b = PHYS_OFFSET" by (simp_all add: frame_inv_def)
  obtain r m' b' where r: "buddy_alloc 0 (m, b) = Some (r, (m', b'))" using bd.alloc_total [OF inv] by fastforce
  show thesis
  proof (cases r)
    case None
    from buddy_alloc_none [OF inv r [unfolded None]] r None show thesis by (intro none) (auto simp: allocate_frame_def)
  next
    case (Some a)
    have conf: "same_conf b b'" using inv r by (rule base_addr_alloc)
    from bd.alloc_Some [OF inv _ r [unfolded Some]] have a: "buddy_valid L b 0 a" "blk 0 a \<subseteq> F"
      "buddy_ainv L (F - blk 0 a) (m', b')" "agree_off (F \<union> bitmap_bytes b) m m'" by auto
    have "PHYS_OFFSET \<le> a" using a(1) base by (simp add: buddy_valid_def in_region_def)
    then have a': "a = (a - PHYS_OFFSET) + PHYS_OFFSET" "page (a - PHYS_OFFSET) = blk 0 a"
      by (simp_all add: page_def)
    have al: "allocate_frame (m, b) = Some (Some (a - PHYS_OFFSET), (m', b'))"
      using r Some \<open>PHYS_OFFSET \<le> a\<close> by (simp add: allocate_frame_def usub_def)
    show thesis
    proof (rule some [OF al])
      show "frame_valid L b (a - PHYS_OFFSET)" using a(1) a'(1) base by (simp add: frame_valid_def)
      show "frame_inv L (F - page (a - PHYS_OFFSET)) (m', b')"
        using a(3) a'(2) base conf by (simp add: frame_inv_def same_conf_def)
    qed (use a(2,4) a'(2) conf in simp_all)
  qed
qed

lemma allocate_zeroed_frame_cases:
  assumes "frame_inv L F (m, b)"
  obtains (none) "allocate_zeroed_frame (m, b) = Some (None, (m, b))" "F = {}"
  | (some) p m' b' where "allocate_zeroed_frame (m, b) = Some (Some p, (m', b'))"
      "frame_valid L b p" "page p \<subseteq> F" "frame_inv L (F - page p) (m', b')" "same_conf b b'"
      "agree_off (F \<union> bitmap_bytes b) m m'" "\<forall>x \<in> page p. m' x = 0"
  using assms
proof (cases rule: allocate_frame_cases)
  case none
  then show thesis by (intro that(1)) (simp add: allocate_zeroed_frame_def)
next
  case (some p m1 b')
  let ?m = "wr_bytes m1 (p + PHYS_OFFSET) 0 4096"
  have z: "agree_off (page p) m1 ?m" "\<forall>x \<in> page p. ?m x = 0"
    by (auto simp: agree_off_def wr_bytes_def page_iff)
  have v: "buddy_valid L b 0 (p + PHYS_OFFSET)" using some(2) by (simp add: frame_valid_def)
  have off: "page p \<inter> bitmap_bytes b = {}" "p + PHYS_OFFSET + 4096 < 2 ^ 64"
    using bd.valid_block [OF v] by (simp_all add: page_def bsz_0)
  show thesis
  proof (rule that(2))
    show "allocate_zeroed_frame (m, b) = Some (Some p, (?m, b'))"
      using some(1) off(2) by (simp add: allocate_zeroed_frame_def uadd_def)
    show "frame_inv L (F - page p) (?m, b')"
      using some(4) bd.ainv_frame [OF _ z(1), of L "F - page p" b'] off(1) conf_cong(7) [OF some(5)]
      by (auto simp: frame_inv_def)
    show "agree_off (F \<union> bitmap_bytes b) m ?m"
      using some(3) by (intro agree_off_trans [OF some(6) z(1)]) auto
  qed (use some z in auto)
qed

lemma clear_frame_ok:
  assumes "frame_inv L F (m, b)" "frame_valid L b p" "page p \<inter> F = {}"
  shows "\<exists>m' b'. clear_frame p (m, b) = Some (m', b') \<and> frame_inv L (F \<union> page p) (m', b') \<and> same_conf b b' \<and>
    agree_off (F \<union> page p \<union> bitmap_bytes b) m m'"
proof -
  from assms have inv: "buddy_ainv L F (m, b)" and v: "buddy_valid L b 0 (p + PHYS_OFFSET)"
    and base: "base_addr b = PHYS_OFFSET" by (simp_all add: frame_inv_def frame_valid_def)
  have dj: "blk 0 (p + PHYS_OFFSET) \<inter> F = {}" using assms(3) by (simp add: page_def)
  from bd.free_ok [OF inv v dj] obtain m' b' where f: "buddy_free (p + PHYS_OFFSET) 0 (m, b) = Some (m', b')"
    "buddy_ainv L (F \<union> page p) (m', b')" "agree_off (F \<union> page p \<union> bitmap_bytes b) m m'"
    by (auto simp: page_def)
  have conf: "same_conf b b'" using inv v dj f(1) by (rule base_addr_free)
  have "p + PHYS_OFFSET < 2 ^ 64" using bd.valid_block [OF v] by simp
  then show ?thesis using f conf base by (simp add: clear_frame_def uadd_def frame_inv_def same_conf_def)
qed

interpretation fr: frame_source "frame_inv L" bitmap_bytes "frame_valid L" allocate_frame allocate_zeroed_frame clear_frame for L
proof unfold_locales
  fix F s assume "frame_inv L F s"
  then show "\<exists>r s'. allocate_frame s = Some (r, s')" "\<exists>r s'. allocate_zeroed_frame s = Some (r, s')"
    by (cases s; auto elim: allocate_frame_cases allocate_zeroed_frame_cases)+
next
  fix F s s' assume "frame_inv L F s" "allocate_frame s = Some (None, s')"
  then show "s' = s \<and> F = {}" by (cases s) (auto elim: allocate_frame_cases)
next
  fix F s s' assume "frame_inv L F s" "allocate_zeroed_frame s = Some (None, s')"
  then show "s' = s \<and> F = {}" by (cases s) (auto elim: allocate_zeroed_frame_cases)
next
  fix F m b p m' b' assume "frame_inv L F (m, b)" "allocate_frame (m, b) = Some (Some p, (m', b'))"
  then show "frame_valid L b p \<and> page p \<subseteq> F \<and> frame_inv L (F - page p) (m', b') \<and> bitmap_bytes b' = bitmap_bytes b \<and>
    frame_valid L b' = frame_valid L b \<and> agree_off (F \<union> bitmap_bytes b) m m'"
    by (cases rule: allocate_frame_cases) (auto dest: conf_cong(7) frame_valid_conf [of _ _ L])
next
  fix F m b p m' b' assume "frame_inv L F (m, b)" "allocate_zeroed_frame (m, b) = Some (Some p, (m', b'))"
  then show "frame_valid L b p \<and> page p \<subseteq> F \<and> frame_inv L (F - page p) (m', b') \<and> bitmap_bytes b' = bitmap_bytes b \<and>
    frame_valid L b' = frame_valid L b \<and> agree_off (F \<union> bitmap_bytes b) m m' \<and> (\<forall>x \<in> page p. m' x = 0)"
    by (cases rule: allocate_zeroed_frame_cases) (auto dest: conf_cong(7) frame_valid_conf [of _ _ L])
next
  fix F m b p assume "frame_inv L F (m, b)" "frame_valid L b p" "page p \<inter> F = {}"
  from clear_frame_ok [OF this] obtain m' b' where "clear_frame p (m, b) = Some (m', b')"
    "frame_inv L (F \<union> page p) (m', b')" "same_conf b b'" "agree_off (F \<union> page p \<union> bitmap_bytes b) m m'" by blast
  then show "\<exists>m' b'. clear_frame p (m, b) = Some (m', b') \<and> frame_inv L (F \<union> page p) (m', b') \<and>
    bitmap_bytes b' = bitmap_bytes b \<and> frame_valid L b' = frame_valid L b \<and> agree_off (F \<union> page p \<union> bitmap_bytes b) m m'"
    using conf_cong(7) [of b b'] frame_valid_conf [of b b' L] by simp
next
  fix b p assume v: "frame_valid L b p"
  then have "4096 dvd p + PHYS_OFFSET \<and> p + PHYS_OFFSET + 4096 < 2 ^ 64 \<and> page p \<inter> bitmap_bytes b = {}"
    using bd.valid_block [of L b 0 "p + PHYS_OFFSET"] by (simp add: frame_valid_def page_def bsz_0)
  then show "4096 dvd p \<and> p < 2 ^ 47 \<and> page p \<inter> bitmap_bytes b = {}"
    by (simp add: PHYS_OFFSET_def dvd_add_left_iff)
next
  fix F m b assume "frame_inv L F (m, b)"
  then show "F \<inter> bitmap_bytes b = {}" using bd.ainv_own [of L F m b] by (simp add: frame_inv_def)
next
  fix F m b X m' assume "frame_inv L F (m, b)" "agree_off X m m'" "X \<inter> (F \<union> bitmap_bytes b) = {}"
  then show "frame_inv L F (m', b)" using bd.ainv_frame [of L F m b X m'] by (simp add: frame_inv_def)
qed

end
