(* ===== verification/Frames_Props.thy ===== *)
theory Frames_Props
  imports Buddy_Props Frames_Spec
begin

text \<open>
  The properties of the physical-frame layer: the bump allocator, the bootstrap and the frame
  functions of \<^verbatim>\<open>src/mm/memory.rs\<close>.
\<close>


section \<open>Properties\<close>

text \<open>
  C8. The early bump allocator is sound and complete.  For a memory map whose usable regions end
  below \<open>2 ^ 61\<close>, \<^verbatim>\<open>allocate_contiguous_frames(count)\<close> returns a page-aligned run of \<open>count\<close>
  frames at or above the bump pointer that lies in a usable region and in which no frame
  overlaps a reserved region, and moves the pointer past it; it returns \<^verbatim>\<open>None\<close>, changing
  nothing, only if no such run exists.
\<close>

theorem bump_allocate_correct:
  assumes "map_sane (memory_map bump)" "next_free_frame bump < 2 ^ 61" "n * 4096 < 2 ^ 61"
  shows "(\<exists>c. allocate_contiguous_frames n t bump = Some (Some c, bump\<lparr>next_free_frame := c + n * 4096\<rparr>) \<and>
      4096 dvd c \<and> next_free_frame bump \<le> c \<and> usable (memory_map bump) c (c + n * 4096) \<and>
      {c ..< c + n * 4096} \<inter> reserved_bytes t = {})
    \<or> allocate_contiguous_frames n t bump = Some (None, bump) \<and>
      (\<nexists>c. 4096 dvd c \<and> next_free_frame bump \<le> c \<and> usable (memory_map bump) c (c + n * 4096) \<and>
         (\<forall>k < n. is_reserved t (c + k * 4096) 4096 = Some False))"
proof -
  have run: "{c ..< c + n * 4096} \<inter> reserved_bytes t = {}" if "free_run t c n" for c
  proof (rule equals0I)
    fix x assume x: "x \<in> {c ..< c + n * 4096} \<inter> reserved_bytes t"
    define k where "k = (x - c) div 4096"
    have k: "k * 4096 \<le> x - c" "x - c < k * 4096 + 4096" unfolding k_def by linarith+
    moreover have "c \<le> x" "x < c + n * 4096" using x by auto
    ultimately have "x \<in> {c + k * 4096 ..< c + k * 4096 + 4096}" "k * 4096 < n * 4096"
      by (simp, linarith, linarith)
    with x that frame_free_disjoint [of t "c + k * 4096"] show False by (auto simp: free_run_def)
  qed
  show ?thesis
    by (rule allocate_contiguous_frames_spec [OF assms, of t])
      (use run in \<open>auto simp: free_run_def frame_free_def\<close>)
qed

definition sample_map :: "memory_map_entry list" where
  "sample_map = [\<lparr>mm_base = 0, mm_length = 0x9F000, mm_typ = 1\<rparr>, \<lparr>mm_base = 0x9F000, mm_length = 0x61000, mm_typ = 2\<rparr>,
     \<lparr>mm_base = 0x100000, mm_length = 0x300000, mm_typ = 1\<rparr>]"

definition sample_tracker :: region_tracker where
  "sample_tracker = RESERVED_TRACKER\<lparr>regions := (regions RESERVED_TRACKER)[0 := \<lparr>rr_start = 0, rr_end = 0x180000, rr_name = ''boot''\<rparr>],
     rcount := 1\<rparr>"

definition sample_bump :: bump_allocator where
  "sample_bump = \<lparr>next_free_frame = 0x100000, memory_map = sample_map\<rparr>"

lemma sample_regions: "active_regions sample_tracker = [\<lparr>rr_start = 0, rr_end = 0x180000, rr_name = ''boot''\<rparr>]"
  by (simp add: active_regions_def sample_tracker_def RESERVED_TRACKER_def take_Suc_conv_app_nth)

lemma sample_frame_free: "f + 4096 < 2 ^ 64 \<Longrightarrow> frame_free sample_tracker f \<longleftrightarrow> 0x180000 \<le> f"
  by (auto simp: frame_free_def is_reserved_total sample_regions)

theorem bump_allocate_correct_witness:
  "\<exists>c. allocate_contiguous_frames 2 sample_tracker sample_bump = Some (Some c, sample_bump\<lparr>next_free_frame := c + 8192\<rparr>) \<and>
     4096 dvd c \<and> 0x100000 \<le> c \<and> {c ..< c + 8192} \<inter> {0 ..< 0x180000} = {}"
proof -
  have "map_sane (memory_map sample_bump)" "next_free_frame sample_bump < 2 ^ 61" "(2 :: nat) * 4096 < 2 ^ 61"
    by (simp_all add: map_sane_def sample_bump_def sample_map_def)
  note c = bump_allocate_correct [OF this, of sample_tracker]
  have "usable (memory_map sample_bump) 0x180000 (0x180000 + 2 * 4096)"
    by (simp add: usable_def sample_bump_def sample_map_def)
  moreover have "\<forall>k < 2. is_reserved sample_tracker (0x180000 + k * 4096) 4096 = Some False"
    using sample_frame_free by (simp add: frame_free_def)
  moreover have "4096 dvd (0x180000 :: nat)" "next_free_frame sample_bump \<le> 0x180000" by (simp_all add: sample_bump_def)
  ultimately obtain c where "allocate_contiguous_frames 2 sample_tracker sample_bump = Some (Some c, sample_bump\<lparr>next_free_frame := c + 2 * 4096\<rparr>)"
    "4096 dvd c" "next_free_frame sample_bump \<le> c" "{c ..< c + 2 * 4096} \<inter> reserved_bytes sample_tracker = {}"
    using c by blast
  then show ?thesis by (auto simp: reserved_bytes_def sample_regions sample_bump_def)
qed

text \<open>
  C9. The bootstrap gives the buddy allocator exactly the usable, unreserved frames.  With a
  memory map of non-overlapping usable regions below \<open>highest\<close> (between 64 KiB and 128 MiB), a
  free reservation slot and one free frame above the bump pointer, \<^verbatim>\<open>init_physical_memory\<close>
  returns; the bitmap occupies one usable frame, which has become reserved; the allocator is
  well formed and its free bytes are precisely the direct-map images of the whole frames
  inside usable regions that overlap no reserved region.  The reported number of megabytes is
  that of the free bytes.
\<close>

theorem init_physical_memory_correct:
  assumes "boot_ok highest mmap bump t"
  shows "\<exists>mb bump' t' s fl p. init_physical_memory highest mmap bump t (m, b) = Some (mb, bump', t', s) \<and>
    buddy_inv highest s fl \<and> bitmap_bytes (snd s) = page p \<and> p \<in> usable_frames t mmap \<and>
    active_regions t' = active_regions t @ [\<lparr>rr_start = p, rr_end = p + 4096, rr_name = ''Buddy Allocator Bitmap''\<rparr>] \<and>
    free_bytes fl = pages (usable_frames t' mmap) \<and>
    free_bytes fl \<inter> (\<lambda>x. x + PHYS_OFFSET) ` reserved_bytes t' = {} \<and>
    count_free_memory s = Some (card (free_bytes fl)) \<and> mb = card (free_bytes fl) div 2 ^ 20"
proof -
  from init_physical_memory_spec [OF assms, of m b] obtain mb bump' t' s fl p where
    i: "init_physical_memory highest mmap bump t (m, b) = Some (mb, bump', t', s)"
    and r: "p \<in> usable_frames t mmap" "bitmap_bytes (snd s) = page p"
      "active_regions t' = active_regions t @ [\<lparr>rr_start = p, rr_end = p + 4096, rr_name = ''Buddy Allocator Bitmap''\<rparr>]"
    and inv: "buddy_inv highest s fl" and fb: "free_bytes fl = pages (usable_frames t' mmap)"
    and mb: "mb = card (free_bytes fl) div 2 ^ 20" by blast
  have "page f \<inter> (\<lambda>x. x + PHYS_OFFSET) ` reserved_bytes t' = {}" if "f \<in> usable_frames t' mmap" for f
    using frame_free_disjoint [of t' f] that by (auto simp: page_iff usable_frames_def)
  then have "free_bytes fl \<inter> (\<lambda>x. x + PHYS_OFFSET) ` reserved_bytes t' = {}"
    unfolding fb pages_def by blast
  moreover have "count_free_memory s = Some (card (free_bytes fl))"
    using inv count_free_memory_spec [of highest "fst s" "snd s" fl] by (simp add: buddy_inv_def)
  ultimately show ?thesis using i r inv fb mb by blast
qed

theorem init_physical_memory_correct_witness:
  "\<exists>mb bump' t' s fl. init_physical_memory 0x400000 sample_map sample_bump sample_tracker (\<lambda>_. 0, buddy_empty) = Some (mb, bump', t', s) \<and>
     buddy_inv 0x400000 s fl \<and> free_bytes fl \<inter> {PHYS_OFFSET ..< PHYS_OFFSET + 0x180000} = {}"
proof -
  have "frame_free sample_tracker 0x180000" by (simp add: sample_frame_free)
  then have "0x180000 \<in> usable_frames sample_tracker sample_map"
    by (auto simp: usable_frames_def mapped_frames_def usable_def sample_map_def)
  then have "\<exists>c \<in> usable_frames sample_tracker sample_map. next_free_frame sample_bump \<le> c"
    by (rule bexI [rotated]) (simp add: sample_bump_def)
  moreover have "map_apart sample_map" "map_below 0x400000 sample_map" by (simp_all add: sample_map_def map_below_def)
  moreover have "tracker_ok sample_tracker" "rcount sample_tracker = 1"
    by (simp_all add: tracker_ok_def sample_tracker_def RESERVED_TRACKER_def)
  ultimately have "boot_ok 0x400000 sample_map sample_bump sample_tracker"
    by (simp add: boot_ok_def sample_bump_def)
  note res = init_physical_memory_correct [OF this, of "\<lambda>_. 0" buddy_empty]
  obtain mb bump' t' s fl p where
    r: "init_physical_memory 0x400000 sample_map sample_bump sample_tracker (\<lambda>_. 0, buddy_empty) = Some (mb, bump', t', s)"
      "buddy_inv 0x400000 s fl" "free_bytes fl \<inter> (\<lambda>x. x + PHYS_OFFSET) ` reserved_bytes t' = {}"
    and t': "active_regions t' = active_regions sample_tracker @ [\<lparr>rr_start = p, rr_end = p + 4096, rr_name = ''Buddy Allocator Bitmap''\<rparr>]"
    using res by (elim exE conjE) (rule that)
  have "{PHYS_OFFSET ..< PHYS_OFFSET + 0x180000} \<subseteq> (\<lambda>x. x + PHYS_OFFSET) ` reserved_bytes t'"
  proof
    fix x assume "x \<in> {PHYS_OFFSET ..< PHYS_OFFSET + 0x180000}"
    then have "x - PHYS_OFFSET \<in> reserved_bytes t'" "x = (x - PHYS_OFFSET) + PHYS_OFFSET"
      by (auto simp: reserved_bytes_def t' sample_regions)
    then show "x \<in> (\<lambda>x. x + PHYS_OFFSET) ` reserved_bytes t'" by (rule rev_image_eqI)
  qed
  then have "free_bytes fl \<inter> {PHYS_OFFSET ..< PHYS_OFFSET + 0x180000} = {}"
    using r(3) unfolding disjoint_iff by (meson subsetD)
  with r(1,2) show ?thesis by (intro exI conjI)
qed


definition sample_hbuddy :: buddy_allocator where
  "sample_hbuddy = \<lparr>free_list = replicate 10 0 @ [PHYS_OFFSET + 4194304], bitmap = PHYS_OFFSET + 2097152,
     bitmap_size = 4096, base_addr = PHYS_OFFSET\<rparr>"

definition sample_hfrees :: frees where
  "sample_hfrees = (\<lambda>ord. if ord = 10 then [PHYS_OFFSET + 4194304] else [])"

lemma sample_hfree_bytes: "free_bytes sample_hfrees = {PHYS_OFFSET + 4194304 ..< PHYS_OFFSET + 8388608}"
  by (auto simp: free_bytes_def fblocks_def sample_hfrees_def blk_def bsz_def split: if_splits)

lemma sample_hinv: "frame_inv (2 ^ 27) {PHYS_OFFSET + 4194304 ..< PHYS_OFFSET + 8388608} (\<lambda>_. 0, sample_hbuddy)"
proof -
  have geo: "geometry (2 ^ 27) sample_hbuddy" by (simp add: geometry_def sample_hbuddy_def bsz_def PHYS_OFFSET_def)
  have reg: "in_region (2 ^ 27) sample_hbuddy 10 (PHYS_OFFSET + 4194304)"
    by (auto simp: in_region_def sample_hbuddy_def bsz_def blk_def bitmap_bytes_def PHYS_OFFSET_def)
  have "dlist (\<lambda>_. 0) 0 (free_list sample_hbuddy ! ord) (sample_hfrees ord)" if "ord \<le> 10" for ord
    using that by (simp add: sample_hfrees_def sample_hbuddy_def fb_next_def fb_prev_def rd64_zero nth_append)
  moreover have "disjoint_blocks sample_hfrees"
    by (auto simp: disjoint_blocks_def fblocks_def sample_hfrees_def split: if_splits)
  moreover have "bits_ok (2 ^ 27) sample_hbuddy (bm_bit (\<lambda>_. 0) sample_hbuddy) sample_hfrees"
    by (simp add: bits_ok_def bm_bit_def sample_hfrees_def)
  ultimately have "buddy_inv (2 ^ 27) (\<lambda>_. 0, sample_hbuddy) sample_hfrees"
    using geo reg by (auto simp: buddy_inv_def lists_ok_def sample_hfrees_def split: if_splits)
  then show ?thesis
    using sample_hfree_bytes by (auto simp: frame_inv_def buddy_ainv_def sample_hbuddy_def)
qed


end
