(* ===== verification/Ring_Buffer.thy ===== *)
theory Ring_Buffer
  imports Prelude
begin

text \<open>
  The single-producer single-consumer ring buffer of \<^verbatim>\<open>src/sync/queue.rs\<close>: its operations, their
  refinement of a bounded queue, and the interleaving of one producer with one consumer at
  the granularity of the individual atomic loads and stores.
\<close>

section \<open>The code\<close>

text \<open>The capacity parameter \<open>N\<close> of the type is the length of the array.\<close>

record 'a ring_buffer =
  buffer :: "'a option list"
  rhead :: usize
  rtail :: usize

definition rb_new :: "nat \<Rightarrow> 'a ring_buffer" where
  "rb_new N = \<lparr>buffer = replicate N None, rhead = 0, rtail = 0\<rparr>"

text \<open>\<open>(i + 1) % N\<close>, which panics on overflow and for \<open>N = 0\<close>.\<close>

definition rb_next :: "nat \<Rightarrow> usize \<Rightarrow> usize option" where
  "rb_next N i = do {
     j \<leftarrow> uadd i 1;
     if N = 0 then None else Some (j mod N)
   }"

definition rb_push :: "'a \<Rightarrow> 'a ring_buffer \<Rightarrow> (('a + unit) \<times> 'a ring_buffer) option" where
  "rb_push item rb = do {
     let head = rhead rb;
     let tail = rtail rb;
     next_head \<leftarrow> rb_next (length (buffer rb)) head;
     if next_head = tail then Some (Inl item, rb)
     else if head < length (buffer rb) then
       Some (Inr (), rb\<lparr>buffer := (buffer rb)[head := Some item], rhead := next_head\<rparr>)
     else None
   }"

definition rb_pop :: "'a ring_buffer \<Rightarrow> ('a option \<times> 'a ring_buffer) option" where
  "rb_pop rb = do {
     let tail = rtail rb;
     let head = rhead rb;
     next_tail \<leftarrow> rb_next (length (buffer rb)) tail;
     if tail = head then Some (None, rb)
     else if tail < length (buffer rb) then do {
       let item = buffer rb ! tail;
       Some (item, rb\<lparr>buffer := (buffer rb)[tail := None], rtail := next_tail\<rparr>)
     } else None
   }"

section \<open>The bounded queue\<close>

locale bounded_queue =
  fixes qinv :: "'q \<Rightarrow> bool"
    and qabs :: "'q \<Rightarrow> 'a list"
    and cap :: "'q \<Rightarrow> nat"
    and qpush :: "'a \<Rightarrow> 'q \<Rightarrow> (('a + unit) \<times> 'q) option"
    and qpop :: "'q \<Rightarrow> ('a option \<times> 'q) option"
  assumes bound: "qinv q \<Longrightarrow> length (qabs q) \<le> cap q"
    and push_full: "qinv q \<Longrightarrow> length (qabs q) = cap q \<Longrightarrow> qpush x q = Some (Inl x, q)"
    and push_ok: "qinv q \<Longrightarrow> length (qabs q) < cap q \<Longrightarrow>
      \<exists>q'. qpush x q = Some (Inr (), q') \<and> qinv q' \<and> qabs q' = qabs q @ [x] \<and> cap q' = cap q"
    and pop_empty: "qinv q \<Longrightarrow> qabs q = [] \<Longrightarrow> qpop q = Some (None, q)"
    and pop_ok: "qinv q \<Longrightarrow> qabs q = x # xs \<Longrightarrow>
      \<exists>q'. qpop q = Some (Some x, q') \<and> qinv q' \<and> qabs q' = xs \<and> cap q' = cap q"

text \<open>Sequences of calls, for any push and pop.\<close>

fun push_all :: "('a \<Rightarrow> 'q \<Rightarrow> (('a + unit) \<times> 'q) option) \<Rightarrow> 'a list \<Rightarrow> 'q \<Rightarrow> ('a list \<times> 'q) option" where
  "push_all psh [] q = Some ([], q)"
| "push_all psh (x # xs) q = do {
     (r, q) \<leftarrow> psh x q;
     (rejected, q) \<leftarrow> push_all psh xs q;
     Some (case r of Inl y \<Rightarrow> y # rejected | Inr _ \<Rightarrow> rejected, q)
   }"

fun pop_all :: "('q \<Rightarrow> ('a option \<times> 'q) option) \<Rightarrow> nat \<Rightarrow> 'q \<Rightarrow> ('a list \<times> 'q) option" where
  "pop_all pp 0 q = Some ([], q)"
| "pop_all pp (Suc n) q = do {
     (r, q) \<leftarrow> pp q;
     (got, q) \<leftarrow> pop_all pp n q;
     Some (case r of None \<Rightarrow> got | Some x \<Rightarrow> x # got, q)
   }"

context bounded_queue
begin

lemma push_all_ok:
  "qinv q \<Longrightarrow> \<exists>q'. push_all qpush xs q = Some (drop (cap q - length (qabs q)) xs, q') \<and> qinv q' \<and>
     qabs q' = qabs q @ take (cap q - length (qabs q)) xs \<and> cap q' = cap q"
proof (induction xs arbitrary: q)
  case (Cons x xs)
  show ?case
  proof (cases "length (qabs q) = cap q")
    case True
    then have p: "qpush x q = Some (Inl x, q)" using Cons.prems by (intro push_full)
    from Cons.IH [OF Cons.prems] True show ?thesis by (auto simp: p)
  next
    case False
    then have lt: "length (qabs q) < cap q" using bound [OF Cons.prems] by linarith
    from push_ok [OF Cons.prems lt] obtain q1 where q1: "qpush x q = Some (Inr (), q1)" "qinv q1"
      "qabs q1 = qabs q @ [x]" "cap q1 = cap q" by blast
    obtain k where k: "cap q - length (qabs q) = Suc k" using lt by (metis Suc_diff_Suc)
    from Cons.IH [OF q1(2)] q1 k show ?thesis by (auto simp: diff_Suc split: nat.splits)
  qed
qed simp

lemma pop_all_ok:
  "qinv q \<Longrightarrow> \<exists>q'. pop_all qpop n q = Some (take n (qabs q), q') \<and> qinv q' \<and> qabs q' = drop n (qabs q) \<and> cap q' = cap q"
proof (induction n arbitrary: q)
  case (Suc n)
  show ?case
  proof (cases "qabs q")
    case Nil
    from Suc.IH [OF Suc.prems] show ?thesis by (auto simp: pop_empty [OF Suc.prems Nil] Nil)
  next
    case (Cons x xs)
    from pop_ok [OF Suc.prems Cons] obtain q1 where "qpop q = Some (Some x, q1)" "qinv q1" "qabs q1 = xs" "cap q1 = cap q"
      by blast
    with Suc.IH [of q1] Cons show ?thesis by auto
  qed
qed simp

text \<open>A burst through an empty queue: what fits comes out in order, the rest is handed back.\<close>

lemma burst:
  assumes "qinv q" "qabs q = []"
  shows "\<exists>q1 q2. push_all qpush xs q = Some (drop (cap q) xs, q1) \<and>
    pop_all qpop (length xs) q1 = Some (take (cap q) xs, q2) \<and> qinv q2 \<and> qabs q2 = []"
proof -
  from push_all_ok [OF assms(1), of xs] assms(2) obtain q1 where q1: "push_all qpush xs q = Some (drop (cap q) xs, q1)"
    "qinv q1" "qabs q1 = take (cap q) xs" by auto
  from pop_all_ok [OF q1(2), of "length xs"] q1 show ?thesis by (auto simp: min_def)
qed

end

section \<open>Refinement\<close>

definition rb_len :: "'a ring_buffer \<Rightarrow> nat" where
  "rb_len rb = (rhead rb + length (buffer rb) - rtail rb) mod length (buffer rb)"

definition rb_abs :: "'a ring_buffer \<Rightarrow> 'a list" where
  "rb_abs rb = map (\<lambda>i. the (buffer rb ! ((rtail rb + i) mod length (buffer rb)))) [0 ..< rb_len rb]"

definition rb_inv :: "'a ring_buffer \<Rightarrow> bool" where
  "rb_inv rb \<longleftrightarrow> length (buffer rb) < 2 ^ 63 \<and> rhead rb < length (buffer rb) \<and> rtail rb < length (buffer rb) \<and>
     (\<forall>i < length (buffer rb). buffer rb ! ((rtail rb + i) mod length (buffer rb)) \<noteq> None \<longleftrightarrow> i < rb_len rb)"

definition rb_cap :: "'a ring_buffer \<Rightarrow> nat" where
  "rb_cap rb = length (buffer rb) - 1"

text \<open>Arithmetic of ring positions.\<close>

lemma ring_pos: "t < N \<Longrightarrow> i < N \<Longrightarrow> (t + i) mod N = (if t + i < N then t + i else t + i - N)" for t i N :: nat
  by (simp add: mod_if)

lemma ring_len: "h < N \<Longrightarrow> t < N \<Longrightarrow> (h + N - t) mod N = (if t \<le> h then h - t else h + N - t)" for h t N :: nat
  by (auto simp: mod_if)

lemma ring_next: "i < N \<Longrightarrow> Suc i mod N = (if Suc i = N then 0 else Suc i)" for i N :: nat
  by (auto simp: mod_if)

lemma ring_mod_less: "i < N \<Longrightarrow> j mod N < N" for i j N :: nat
  by (intro mod_less_divisor) linarith

lemma ring_len_push:
  assumes "h < N" "t < N" "(h + N - t) mod N < N - 1"
  shows "(Suc h mod N + N - t) mod N = Suc ((h + N - t) mod N)"
proof -
  have "Suc h mod N < N" using assms(1) by simp
  from ring_len [OF this assms(2)] ring_len [OF assms(1,2)] ring_next [OF assms(1)] assms show ?thesis
    by (auto split: if_splits)
qed

lemma ring_len_pop:
  assumes "h < N" "t < N" "(h + N - t) mod N = Suc n"
  shows "(h + N - Suc t mod N) mod N = n"
proof -
  have "Suc t mod N < N" using assms(1) by simp
  from ring_len [OF assms(1) this] ring_len [OF assms(1,2)] ring_next [OF assms(2)] assms show ?thesis
    by (auto split: if_splits)
qed

lemma rb_len_less: "rb_inv rb \<Longrightarrow> rb_len rb < length (buffer rb)"
  unfolding rb_inv_def rb_len_def by (intro mod_less_divisor) linarith

lemma rb_next_ok: "i < N \<Longrightarrow> N < 2 ^ 63 \<Longrightarrow> rb_next N i = Some (Suc i mod N)"
  by (simp add: rb_next_def uadd_def)

lemma rb_abs_nth: "i < rb_len rb \<Longrightarrow> rb_abs rb ! i = the (buffer rb ! ((rtail rb + i) mod length (buffer rb)))"
  by (simp add: rb_abs_def)

lemma length_rb_abs [simp]: "length (rb_abs rb) = rb_len rb"
  by (simp add: rb_abs_def)

lemma rb_full_iff:
  assumes "rb_inv rb"
  shows "Suc (rhead rb) mod length (buffer rb) = rtail rb \<longleftrightarrow> rb_len rb = rb_cap rb"
  using assms by (auto simp: rb_inv_def rb_len_def rb_cap_def ring_len ring_next)

lemma rb_empty_iff: "rb_inv rb \<Longrightarrow> rtail rb = rhead rb \<longleftrightarrow> rb_len rb = 0"
  by (auto simp: rb_inv_def rb_len_def ring_len)

lemma rb_push_ok:
  assumes inv: "rb_inv rb" and room: "rb_len rb < rb_cap rb"
  shows "\<exists>rb'. rb_push x rb = Some (Inr (), rb') \<and> rb_inv rb' \<and> rb_abs rb' = rb_abs rb @ [x] \<and> rb_cap rb' = rb_cap rb"
proof -
  let ?N = "length (buffer rb)" and ?h = "rhead rb" and ?t = "rtail rb" and ?n = "rb_len rb"
  let ?rb = "rb\<lparr>buffer := (buffer rb)[?h := Some x], rhead := Suc ?h mod ?N\<rparr>"
  from inv have b: "?h < ?N" "?t < ?N" "?N < 2 ^ 63" by (auto simp: rb_inv_def)
  have h: "?h = (?t + ?n) mod ?N" using b by (auto simp: rb_len_def ring_len ring_pos)
  have len: "rb_len ?rb = Suc ?n"
    using ring_len_push [OF b(1,2)] room by (simp add: rb_len_def rb_cap_def)
  have slot: "buffer ?rb ! ((?t + i) mod ?N) = (if i = ?n then Some x else buffer rb ! ((?t + i) mod ?N))" if "i < ?N" for i
  proof -
    have "(?t + i) mod ?N = ?h \<longleftrightarrow> i = ?n"
      using that b rb_len_less [OF inv] unfolding h by (auto simp: ring_pos split: if_splits)
    then show ?thesis using b(1) by (auto simp: nth_list_update)
  qed
  have "rb_inv ?rb"
    unfolding rb_inv_def len using b ring_mod_less [OF b(1)] slot inv by (auto simp: rb_inv_def less_Suc_eq)
  moreover have "rb_abs ?rb = rb_abs rb @ [x]"
  proof (rule nth_equalityI)
    fix i assume "i < length (rb_abs ?rb)"
    then have i: "i < Suc ?n" by (simp add: len)
    moreover have "Suc ?n \<le> ?N" using rb_len_less [OF inv] by simp
    ultimately show "rb_abs ?rb ! i = (rb_abs rb @ [x]) ! i"
      using slot [of i] rb_abs_nth [of i ?rb] rb_abs_nth [of i rb] len
      by (auto simp: nth_append less_Suc_eq)
  qed (simp add: len)
  moreover have "rb_push x rb = Some (Inr (), ?rb)"
    using rb_full_iff [OF inv] room b by (simp add: rb_push_def rb_next_ok Let_def)
  ultimately show ?thesis by (auto simp: rb_cap_def)
qed

lemma rb_pop_ok:
  assumes inv: "rb_inv rb" and ne: "rb_abs rb = x # xs"
  shows "\<exists>rb'. rb_pop rb = Some (Some x, rb') \<and> rb_inv rb' \<and> rb_abs rb' = xs \<and> rb_cap rb' = rb_cap rb"
proof -
  let ?N = "length (buffer rb)" and ?h = "rhead rb" and ?t = "rtail rb"
  obtain n where n: "rb_len rb = Suc n" using arg_cong [OF ne, of length] by simp
  let ?rb = "rb\<lparr>buffer := (buffer rb)[?t := None], rtail := Suc ?t mod ?N\<rparr>"
  from inv have b: "?h < ?N" "?t < ?N" "?N < 2 ^ 63" by (auto simp: rb_inv_def)
  have some: "buffer rb ! ((?t + i) mod ?N) \<noteq> None \<longleftrightarrow> i < Suc n" if "i < ?N" for i
    using inv that n by (simp add: rb_inv_def)
  have x: "buffer rb ! ?t = Some x"
  proof -
    have "0 < ?N" using b(2) by linarith
    then have "buffer rb ! ?t \<noteq> None" using some [of 0] b(2) by simp
    then show ?thesis using ne rb_abs_nth [of 0 rb] n b(2) by auto
  qed
  have len: "rb_len ?rb = n"
    using ring_len_pop [OF b(1,2)] n by (simp add: rb_len_def)
  have slot: "buffer ?rb ! ((Suc ?t mod ?N + i) mod ?N) = (if Suc i = ?N then None else buffer rb ! ((?t + Suc i) mod ?N))" if "i < ?N" for i
  proof -
    have "(Suc ?t mod ?N + i) mod ?N = (?t + Suc i) mod ?N" by (simp add: mod_simps)
    moreover have "(?t + Suc i) mod ?N = ?t \<longleftrightarrow> Suc i = ?N" using that b by (auto simp: mod_if)
    ultimately show ?thesis using b(2) by (auto simp: nth_list_update)
  qed
  have "buffer ?rb ! ((Suc ?t mod ?N + i) mod ?N) \<noteq> None \<longleftrightarrow> i < n" if "i < ?N" for i
  proof (cases "Suc i = ?N")
    case True
    then show ?thesis using slot [OF that] rb_len_less [OF inv] n by simp
  next
    case False
    then show ?thesis using slot [OF that] some [of "Suc i"] that by simp
  qed
  then have "rb_inv ?rb" unfolding rb_inv_def len using b ring_mod_less [OF b(2)] by simp
  moreover have "rb_abs ?rb = xs"
  proof (rule nth_equalityI)
    show "length (rb_abs ?rb) = length xs" using len n arg_cong [OF ne, of length] by simp
    fix i assume "i < length (rb_abs ?rb)"
    then have i: "i < n" by (simp add: len)
    then have "Suc i < ?N" using rb_len_less [OF inv] n by simp
    then show "rb_abs ?rb ! i = xs ! i"
      using slot [of i] rb_abs_nth [of i ?rb] rb_abs_nth [of "Suc i" rb] len n i ne by simp
  qed
  moreover have "rb_pop rb = Some (Some x, ?rb)"
    using rb_empty_iff [OF inv] n b x by (simp add: rb_pop_def rb_next_ok Let_def)
  ultimately show ?thesis by (auto simp: rb_cap_def)
qed

interpretation rbq: bounded_queue rb_inv rb_abs rb_cap rb_push rb_pop
proof unfold_locales
  fix q :: "'a ring_buffer" and x
  assume inv: "rb_inv q"
  show "length (rb_abs q) \<le> rb_cap q" using rb_len_less [OF inv] by (simp add: rb_cap_def)
  show "rb_push x q = Some (Inl x, q)" if "length (rb_abs q) = rb_cap q"
    using rb_full_iff [OF inv] that inv by (simp add: rb_push_def rb_inv_def rb_next_ok Let_def)
  show "rb_pop q = Some (None, q)" if "rb_abs q = []"
    using rb_empty_iff [OF inv] length_rb_abs [of q] inv unfolding that
    by (simp add: rb_pop_def rb_inv_def rb_next_ok Let_def)
qed (auto intro!: rb_push_ok rb_pop_ok)

lemma rb_new_inv: "0 < N \<Longrightarrow> N < 2 ^ 63 \<Longrightarrow> rb_inv (rb_new N) \<and> rb_abs (rb_new N) = [] \<and> rb_cap (rb_new N) = N - 1"
  by (simp add: rb_inv_def rb_new_def rb_abs_def rb_len_def rb_cap_def)


section \<open>One producer and one consumer\<close>

text \<open>
  The local states are the points between two accesses of shared memory in \<^verbatim>\<open>push\<close> and \<^verbatim>\<open>pop\<close>,
  with the values loaded so far.  \<open>sent\<close> and \<open>got\<close> record, in order, the items whose \<^verbatim>\<open>push\<close>
  returned \<^verbatim>\<open>Ok\<close> and the results of the calls of \<^verbatim>\<open>pop\<close> that did not find the buffer empty.  Accesses
  are interleaved, which the release stores and acquire loads of the code justify.
\<close>

datatype 'a producer =
    PIdle
  | PHead 'a usize
  | PBoth 'a usize usize
  | PFilled 'a usize

datatype 'a consumer =
    CIdle
  | CTail usize
  | CBoth usize usize
  | CTaken "'a option" usize usize
  | CCleared "'a option" usize

record 'a spsc =
  ring :: "'a ring_buffer"
  prod :: "'a producer"
  cons :: "'a consumer"
  sent :: "'a list"
  got :: "'a option list"

definition spsc_init :: "nat \<Rightarrow> 'a spsc" where
  "spsc_init N = \<lparr>ring = rb_new N, prod = PIdle, cons = CIdle, sent = [], got = []\<rparr>"

abbreviation set_slot :: "usize \<Rightarrow> 'a option \<Rightarrow> 'a ring_buffer \<Rightarrow> 'a ring_buffer" where
  "set_slot i v rb \<equiv> rb\<lparr>buffer := (buffer rb)[i := v]\<rparr>"

inductive spsc_step :: "'a spsc \<Rightarrow> 'a spsc \<Rightarrow> bool" where
  p_head: "prod s = PIdle \<Longrightarrow> spsc_step s (s\<lparr>prod := PHead x (rhead (ring s))\<rparr>)"
| p_tail: "prod s = PHead x h \<Longrightarrow> spsc_step s (s\<lparr>prod := PBoth x h (rtail (ring s))\<rparr>)"
| p_full: "prod s = PBoth x h t \<Longrightarrow> rb_next (length (buffer (ring s))) h = Some t \<Longrightarrow>
    spsc_step s (s\<lparr>prod := PIdle\<rparr>)"
| p_write: "prod s = PBoth x h t \<Longrightarrow> rb_next (length (buffer (ring s))) h = Some n \<Longrightarrow> n \<noteq> t \<Longrightarrow>
    h < length (buffer (ring s)) \<Longrightarrow>
    spsc_step s (s\<lparr>ring := set_slot h (Some x) (ring s), prod := PFilled x n\<rparr>)"
| p_publish: "prod s = PFilled x n \<Longrightarrow>
    spsc_step s (s\<lparr>ring := (ring s)\<lparr>rhead := n\<rparr>, prod := PIdle, sent := sent s @ [x]\<rparr>)"
| c_tail: "cons s = CIdle \<Longrightarrow> spsc_step s (s\<lparr>cons := CTail (rtail (ring s))\<rparr>)"
| c_head: "cons s = CTail t \<Longrightarrow> spsc_step s (s\<lparr>cons := CBoth t (rhead (ring s))\<rparr>)"
| c_empty: "cons s = CBoth t t \<Longrightarrow> spsc_step s (s\<lparr>cons := CIdle\<rparr>)"
| c_take: "cons s = CBoth t h \<Longrightarrow> rb_next (length (buffer (ring s))) t = Some n \<Longrightarrow> t \<noteq> h \<Longrightarrow>
    t < length (buffer (ring s)) \<Longrightarrow>
    spsc_step s (s\<lparr>ring := set_slot t None (ring s), cons := CTaken (buffer (ring s) ! t) t n\<rparr>)"
| c_clear: "cons s = CTaken v t n \<Longrightarrow>
    spsc_step s (s\<lparr>ring := set_slot t None (ring s), cons := CCleared v n\<rparr>)"
| c_publish: "cons s = CCleared v n \<Longrightarrow>
    spsc_step s (s\<lparr>ring := (ring s)\<lparr>rtail := n\<rparr>, cons := CIdle, got := got s @ [v]\<rparr>)"

definition taken :: "'a consumer \<Rightarrow> bool" where
  "taken c = (case c of CTaken v t n \<Rightarrow> True | CCleared v n \<Rightarrow> True | _ \<Rightarrow> False)"

text \<open>With \<open>H\<close> items sent and \<open>T\<close> received, the head is \<open>H mod N\<close> and the tail is \<open>T mod N\<close>.\<close>

definition prod_ok :: "'a spsc \<Rightarrow> bool" where
  "prod_ok s = (let N = length (buffer (ring s)); H = length (sent s); T = length (got s) in
     case prod s of
       PIdle \<Rightarrow> True
     | PHead x h \<Rightarrow> h = H mod N
     | PBoth x h t \<Rightarrow> h = H mod N \<and> (\<exists>T0 \<le> T. t = T0 mod N \<and> H < T0 + N)
     | PFilled x n \<Rightarrow> n = Suc H mod N \<and> Suc H < T + N \<and> buffer (ring s) ! (H mod N) = Some x)"

definition cons_ok :: "'a spsc \<Rightarrow> bool" where
  "cons_ok s = (let N = length (buffer (ring s)); H = length (sent s); T = length (got s) in
     case cons s of
       CIdle \<Rightarrow> True
     | CTail t \<Rightarrow> t = T mod N
     | CBoth t h \<Rightarrow> t = T mod N \<and> (\<exists>H0 \<le> H. T \<le> H0 \<and> h = H0 mod N)
     | CTaken v t n \<Rightarrow> t = T mod N \<and> n = Suc T mod N \<and> T < H \<and> v = Some (sent s ! T)
     | CCleared v n \<Rightarrow> n = Suc T mod N \<and> T < H \<and> v = Some (sent s ! T))"

definition spsc_inv :: "'a spsc \<Rightarrow> bool" where
  "spsc_inv s = (let N = length (buffer (ring s)); H = length (sent s); T = length (got s) in
     0 < N \<and> N < 2 ^ 63 \<and> rhead (ring s) = H mod N \<and> rtail (ring s) = T mod N \<and> T \<le> H \<and> H < T + N \<and>
     got s = map Some (take T (sent s)) \<and>
     (\<forall>k. (if taken (cons s) then Suc T else T) \<le> k \<longrightarrow> k < H \<longrightarrow> buffer (ring s) ! (k mod N) = Some (sent s ! k)) \<and>
     prod_ok s \<and> cons_ok s)"

lemma mod_window: "a < b \<Longrightarrow> b < a + N \<Longrightarrow> a mod N \<noteq> b mod N" for a b N :: nat
proof
  assume "a < b" "b < a + N" "a mod N = b mod N"
  then have "N dvd b - a" by (metis mod_eq_dvd_iff_nat less_imp_le)
  with \<open>a < b\<close> have "N \<le> b - a" by (intro dvd_imp_le) auto
  with \<open>b < a + N\<close> \<open>a < b\<close> show False by linarith
qed

lemma rb_next_mod: "rb_next N (k mod N) = Some n \<Longrightarrow> n = Suc k mod N"
  by (auto simp: rb_next_def uadd_def mod_Suc_eq split: if_splits)

lemma spsc_p_write:
  assumes inv: "spsc_inv s" and st: "prod s = PBoth x h t" "rb_next (length (buffer (ring s))) h = Some n" "n \<noteq> t"
  shows "spsc_inv (s\<lparr>ring := set_slot h (Some x) (ring s), prod := PFilled x n\<rparr>)"
proof -
  let ?N = "length (buffer (ring s))" and ?H = "length (sent s)" and ?T = "length (got s)"
  from inv st(1) obtain T0 where h: "h = ?H mod ?N" and T0: "T0 \<le> ?T" "t = T0 mod ?N" "?H < T0 + ?N" and N: "0 < ?N" "?T \<le> ?H"
    by (auto simp: spsc_inv_def Let_def prod_ok_def)
  have n: "n = Suc ?H mod ?N" using st(2) h rb_next_mod by metis
  have "Suc ?H \<noteq> T0 + ?N" using st(3) n T0(2) by auto
  with T0 have lt: "Suc ?H < ?T + ?N" by linarith
  have other: "k mod ?N \<noteq> h" if "?T \<le> k" "k < ?H" for k
    using mod_window [of k ?H ?N] that lt h by simp
  let ?s = "s\<lparr>ring := set_slot h (Some x) (ring s), prod := PFilled x n\<rparr>"
  have "buffer (set_slot h (Some x) (ring s)) ! (k mod ?N) = Some (sent s ! k)"
    if "(if taken (cons s) then Suc ?T else ?T) \<le> k" "k < ?H" for k
    using inv that other [of k] by (simp add: spsc_inv_def Let_def split: if_splits)
  moreover have "prod_ok ?s" using n lt h N(1) by (simp add: prod_ok_def Let_def)
  moreover have "cons_ok ?s" using inv by (simp add: spsc_inv_def Let_def cons_ok_def split: consumer.splits)
  ultimately show ?thesis using inv by (simp add: spsc_inv_def Let_def)
qed

lemma spsc_c_take:
  assumes inv: "spsc_inv s" and st: "cons s = CBoth t h" "rb_next (length (buffer (ring s))) t = Some n" "t \<noteq> h"
  shows "spsc_inv (s\<lparr>ring := set_slot t None (ring s), cons := CTaken (buffer (ring s) ! t) t n\<rparr>)"
proof -
  let ?N = "length (buffer (ring s))" and ?H = "length (sent s)" and ?T = "length (got s)"
  from inv st(1) obtain H0 where t: "t = ?T mod ?N" and H0: "H0 \<le> ?H" "?T \<le> H0" "h = H0 mod ?N" and N: "0 < ?N" "?H < ?T + ?N"
    by (auto simp: spsc_inv_def Let_def cons_ok_def)
  have n: "n = Suc ?T mod ?N" using st(2) t rb_next_mod by metis
  have lt: "?T < ?H" using st(3) t H0 by (cases "?T = H0") auto
  have v: "buffer (ring s) ! t = Some (sent s ! ?T)"
    using inv st(1) lt t by (auto simp: spsc_inv_def Let_def taken_def)
  have other: "k mod ?N \<noteq> t" if "?T < k" "k < ?T + ?N" for k
    using mod_window [of ?T k ?N] that t by metis
  have "?H mod ?N \<noteq> t" if "Suc ?H < ?T + ?N" using other [of ?H] lt that by simp
  then have "prod_ok (s\<lparr>ring := set_slot t None (ring s), cons := CTaken (buffer (ring s) ! t) t n\<rparr>)"
    using inv by (auto simp: spsc_inv_def Let_def prod_ok_def split: producer.splits)
  moreover have "buffer (set_slot t None (ring s)) ! (k mod ?N) = Some (sent s ! k)" if "Suc ?T \<le> k" "k < ?H" for k
    using inv st(1) that other [of k] N by (auto simp: spsc_inv_def Let_def taken_def)
  ultimately show ?thesis using inv n lt t v
    by (simp add: spsc_inv_def Let_def cons_ok_def taken_def)
qed

lemma spsc_p_publish:
  assumes inv: "spsc_inv s" and st: "prod s = PFilled x n"
  shows "spsc_inv (s\<lparr>ring := (ring s)\<lparr>rhead := n\<rparr>, prod := PIdle, sent := sent s @ [x]\<rparr>)"
proof -
  let ?N = "length (buffer (ring s))" and ?H = "length (sent s)" and ?T = "length (got s)"
  let ?s = "s\<lparr>ring := (ring s)\<lparr>rhead := n\<rparr>, prod := PIdle, sent := sent s @ [x]\<rparr>"
  from inv st have p: "n = Suc ?H mod ?N" "Suc ?H < ?T + ?N" "buffer (ring s) ! (?H mod ?N) = Some x"
    and TH: "?T \<le> ?H" by (auto simp: spsc_inv_def Let_def prod_ok_def)
  have "buffer (ring s) ! (k mod ?N) = Some ((sent s @ [x]) ! k)"
    if "(if taken (cons s) then Suc ?T else ?T) \<le> k" "k < Suc ?H" for k
    using inv that p(3) by (auto simp: spsc_inv_def Let_def nth_append less_Suc_eq)
  moreover have "cons_ok ?s"
    using inv by (auto simp: spsc_inv_def Let_def cons_ok_def nth_append split: consumer.splits intro: le_SucI)
  moreover have "got s = map Some (take ?T (sent s @ [x]))" using inv TH by (simp add: spsc_inv_def Let_def)
  ultimately show ?thesis using inv p TH
    by (simp add: spsc_inv_def Let_def prod_ok_def)
qed

lemma spsc_c_publish:
  assumes inv: "spsc_inv s" and st: "cons s = CCleared v n"
  shows "spsc_inv (s\<lparr>ring := (ring s)\<lparr>rtail := n\<rparr>, cons := CIdle, got := got s @ [v]\<rparr>)"
proof -
  let ?N = "length (buffer (ring s))" and ?H = "length (sent s)" and ?T = "length (got s)"
  let ?s = "s\<lparr>ring := (ring s)\<lparr>rtail := n\<rparr>, cons := CIdle, got := got s @ [v]\<rparr>"
  from inv st have c: "n = Suc ?T mod ?N" "?T < ?H" "v = Some (sent s ! ?T)"
    by (auto simp: spsc_inv_def Let_def cons_ok_def)
  have "got s = map Some (take ?T (sent s))" using inv by (simp add: spsc_inv_def Let_def)
  then have "got s @ [v] = map Some (take (Suc ?T) (sent s))" using c by (simp add: take_Suc_conv_app_nth)
  moreover have "prod_ok ?s"
    using inv by (auto simp: spsc_inv_def Let_def prod_ok_def split: producer.splits intro: le_SucI)
  moreover have "\<forall>k. Suc ?T \<le> k \<longrightarrow> k < ?H \<longrightarrow> buffer (ring s) ! (k mod ?N) = Some (sent s ! k)"
    using inv st by (simp add: spsc_inv_def Let_def taken_def)
  ultimately show ?thesis using inv c by (simp add: spsc_inv_def Let_def cons_ok_def taken_def)
qed

lemma spsc_c_clear:
  assumes inv: "spsc_inv s" and st: "cons s = CTaken v t n"
  shows "spsc_inv (s\<lparr>ring := set_slot t None (ring s), cons := CCleared v n\<rparr>)"
proof -
  let ?N = "length (buffer (ring s))" and ?H = "length (sent s)" and ?T = "length (got s)"
  from inv st have c: "t = ?T mod ?N" "n = Suc ?T mod ?N" "?T < ?H" "v = Some (sent s ! ?T)" "?H < ?T + ?N"
    by (auto simp: spsc_inv_def Let_def cons_ok_def)
  have other: "k mod ?N \<noteq> t" if "?T < k" "k < ?T + ?N" for k using mod_window [of ?T k ?N] that c(1) by metis
  have "?H mod ?N \<noteq> t" using other [of ?H] c by simp
  then have "prod_ok (s\<lparr>ring := set_slot t None (ring s), cons := CCleared v n\<rparr>)"
    using inv by (auto simp: spsc_inv_def Let_def prod_ok_def split: producer.splits)
  moreover have "buffer (set_slot t None (ring s)) ! (k mod ?N) = Some (sent s ! k)" if "Suc ?T \<le> k" "k < ?H" for k
    using inv st that other [of k] c by (auto simp: spsc_inv_def Let_def taken_def)
  ultimately show ?thesis using inv c
    by (simp add: spsc_inv_def Let_def cons_ok_def taken_def)
qed

lemma spsc_p_local:
  assumes "spsc_inv s" "prod_ok (s\<lparr>prod := p\<rparr>)"
  shows "spsc_inv (s\<lparr>prod := p\<rparr>)"
proof -
  have "cons_ok (s\<lparr>prod := p\<rparr>) = cons_ok s" by (simp add: cons_ok_def Let_def split: consumer.splits)
  with assms show ?thesis by (simp add: spsc_inv_def Let_def)
qed

lemma spsc_c_local:
  assumes "spsc_inv s" "cons_ok (s\<lparr>cons := c\<rparr>)" "taken c = taken (cons s)"
  shows "spsc_inv (s\<lparr>cons := c\<rparr>)"
proof -
  have "prod_ok (s\<lparr>cons := c\<rparr>) = prod_ok s" by (simp add: prod_ok_def Let_def split: producer.splits)
  with assms show ?thesis by (simp add: spsc_inv_def Let_def)
qed

lemma spsc_step_inv:
  assumes "spsc_step s s'" and inv: "spsc_inv s"
  shows "spsc_inv s'"
  using assms(1)
proof cases
  case (p_head x)
  show ?thesis unfolding p_head(1)
    by (rule spsc_p_local [OF inv]) (use inv p_head(2-) in \<open>auto simp: prod_ok_def spsc_inv_def Let_def\<close>)
next
  case (p_tail x h)
  show ?thesis unfolding p_tail(1)
    by (rule spsc_p_local [OF inv]) (use inv p_tail(2-) in \<open>auto simp: prod_ok_def spsc_inv_def Let_def\<close>)
next
  case (p_full x h t)
  show ?thesis unfolding p_full(1)
    by (rule spsc_p_local [OF inv]) (use inv p_full(2-) in \<open>auto simp: prod_ok_def spsc_inv_def Let_def\<close>)
next
  case (p_write x h t n)
  show ?thesis unfolding p_write(1) by (rule spsc_p_write [OF inv p_write(2-4)])
next
  case (p_publish x n)
  show ?thesis unfolding p_publish(1) by (rule spsc_p_publish [OF inv p_publish(2)])
next
  case c_tail
  show ?thesis unfolding c_tail(1)
    by (rule spsc_c_local [OF inv]) (use inv c_tail(2-) in \<open>auto simp: cons_ok_def taken_def spsc_inv_def Let_def\<close>)
next
  case (c_head t)
  show ?thesis unfolding c_head(1)
    by (rule spsc_c_local [OF inv]) (use inv c_head(2-) in \<open>auto simp: cons_ok_def taken_def spsc_inv_def Let_def\<close>)
next
  case (c_empty t)
  show ?thesis unfolding c_empty(1)
    by (rule spsc_c_local [OF inv]) (use inv c_empty(2-) in \<open>auto simp: cons_ok_def taken_def spsc_inv_def Let_def\<close>)
next
  case (c_take t h n)
  show ?thesis unfolding c_take(1) by (rule spsc_c_take [OF inv c_take(2-4)])
next
  case (c_clear v t n)
  show ?thesis unfolding c_clear(1) by (rule spsc_c_clear [OF inv c_clear(2)])
next
  case (c_publish v n)
  show ?thesis unfolding c_publish(1) by (rule spsc_c_publish [OF inv c_publish(2)])
qed

lemma spsc_run_inv: "spsc_step\<^sup>*\<^sup>* s s' \<Longrightarrow> spsc_inv s \<Longrightarrow> spsc_inv s'"
  by (induction rule: rtranclp_induct) (auto intro: spsc_step_inv)

lemma spsc_init_inv: "0 < N \<Longrightarrow> N < 2 ^ 63 \<Longrightarrow> spsc_inv (spsc_init N)"
  by (simp add: spsc_inv_def spsc_init_def rb_new_def prod_ok_def cons_ok_def Let_def)

section \<open>Properties\<close>

text \<open>
  C11. The ring buffer is a bounded FIFO queue.  On a well-formed buffer, with \<open>rb_abs\<close> reading
  its contents from tail to head: \<^verbatim>\<open>push\<close> appends the item if fewer than \<open>N - 1\<close> items are stored
  and otherwise hands the item back and changes nothing; \<^verbatim>\<open>pop\<close> removes and returns the oldest
  item, or returns \<^verbatim>\<open>None\<close> and changes nothing if there is none; both keep the buffer well formed.
\<close>

theorem ring_buffer_refines_queue:
  assumes "rb_inv rb"
  shows "(if length (rb_abs rb) = length (buffer rb) - 1 then rb_push x rb = Some (Inl x, rb)
      else \<exists>rb'. rb_push x rb = Some (Inr (), rb') \<and> rb_inv rb' \<and> rb_abs rb' = rb_abs rb @ [x]) \<and>
    (case rb_abs rb of [] \<Rightarrow> rb_pop rb = Some (None, rb)
     | y # ys \<Rightarrow> \<exists>rb'. rb_pop rb = Some (Some y, rb') \<and> rb_inv rb' \<and> rb_abs rb' = ys)"
proof -
  have "length (rb_abs rb) \<noteq> length (buffer rb) - 1 \<Longrightarrow> length (rb_abs rb) < rb_cap rb"
    using rbq.bound [OF assms] by (simp add: rb_cap_def)
  then show ?thesis
    using rbq.push_full [OF assms, of x] rbq.push_ok [OF assms, of x] rbq.pop_empty [OF assms] rbq.pop_ok [OF assms]
    by (auto simp: rb_cap_def split: list.split)
qed

theorem ring_buffer_refines_queue_witness:
  "\<exists>rb'. rb_push (7 :: nat) (rb_new 4) = Some (Inr (), rb') \<and> rb_inv rb' \<and> rb_abs rb' = [7]"
proof -
  have new: "rb_inv (rb_new 4 :: nat ring_buffer)" "rb_abs (rb_new 4 :: nat ring_buffer) = []"
    by (simp_all add: rb_new_inv)
  have "length (buffer (rb_new 4 :: nat ring_buffer)) = 4" by (simp add: rb_new_def)
  with ring_buffer_refines_queue [OF new(1), of 7] show ?thesis unfolding new(2) by (simp split: if_splits)
qed

text \<open>
  C12. A burst through an empty buffer comes out in order: of the items pushed into an empty
  buffer of \<open>N\<close> slots the first \<open>N - 1\<close> are accepted and the others handed back, and popping as
  often as was pushed returns exactly the accepted items in their order and leaves the buffer
  empty.
\<close>

theorem ring_buffer_burst:
  assumes "0 < N" "N < 2 ^ 63"
  shows "\<exists>rb1 rb2. push_all rb_push xs (rb_new N) = Some (drop (N - 1) xs, rb1) \<and>
    pop_all rb_pop (length xs) rb1 = Some (take (N - 1) xs, rb2) \<and> rb_abs rb2 = []"
  using rbq.burst [of "rb_new N" xs] rb_new_inv [OF assms] by metis

theorem ring_buffer_burst_witness:
  "\<exists>rb1 rb2. push_all rb_push [1, 2, 3, 4 :: nat] (rb_new 3) = Some ([3, 4], rb1) \<and>
    pop_all rb_pop (length [1, 2, 3, 4 :: nat]) rb1 = Some ([1, 2], rb2)"
proof -
  have eqs: "drop (3 - 1) [1, 2, 3, 4 :: nat] = [3, 4]" "take (3 - 1) [1, 2, 3, 4 :: nat] = [1, 2]"
    by (simp_all add: numeral_2_eq_2)
  have "(0 :: nat) < 3" "(3 :: nat) < 2 ^ 63" by simp_all
  from ring_buffer_burst [OF this, of "[1, 2, 3, 4 :: nat]"] show ?thesis unfolding eqs by blast
qed

text \<open>
  C13. One producer and one consumer never lose, duplicate or reorder an item.  Under every
  interleaving of the individual loads and stores of \<^verbatim>\<open>push\<close> and \<^verbatim>\<open>pop\<close>, started on an empty buffer,
  the results of the successful pops are a prefix of the accepted items, and at most \<open>N - 1\<close>
  items are in flight.
\<close>

theorem spsc_fifo:
  assumes "0 < N" "N < 2 ^ 63" "spsc_step\<^sup>*\<^sup>* (spsc_init N) s"
  shows "got s = map Some (take (length (got s)) (sent s)) \<and> length (got s) \<le> length (sent s) \<and>
    length (sent s) \<le> length (got s) + (N - 1)"
proof -
  have len: "length (buffer (ring s)) = N" using assms(3)
  proof (induction rule: rtranclp_induct)
    case (step y z)
    from step(2) have "length (buffer (ring z)) = length (buffer (ring y))" by cases auto
    with step(3) show ?case by simp
  qed (simp add: spsc_init_def rb_new_def)
  have "spsc_inv s" using spsc_run_inv [OF assms(3) spsc_init_inv [OF assms(1,2)]] .
  then show ?thesis unfolding spsc_inv_def Let_def len by linarith
qed

theorem spsc_fifo_witness:
  "\<exists>s :: nat spsc. spsc_step\<^sup>*\<^sup>* (spsc_init 2) s \<and> sent s = [7] \<and> got s = [] \<and>
     length (sent s) \<le> length (got s) + (2 - 1)"
proof -
  let ?s0 = "spsc_init 2 :: nat spsc"
  let ?s1 = "?s0\<lparr>prod := PHead 7 (rhead (ring ?s0))\<rparr>"
  let ?s2 = "?s1\<lparr>prod := PBoth 7 0 (rtail (ring ?s1))\<rparr>"
  let ?s3 = "?s2\<lparr>ring := set_slot 0 (Some 7) (ring ?s2), prod := PFilled 7 1\<rparr>"
  let ?s4 = "?s3\<lparr>ring := (ring ?s3)\<lparr>rhead := 1\<rparr>, prod := PIdle, sent := sent ?s3 @ [7]\<rparr>"
  have "spsc_step ?s0 ?s1" by (rule p_head) (simp add: spsc_init_def)
  moreover have "spsc_step ?s1 ?s2" by (rule p_tail) (simp add: spsc_init_def rb_new_def)
  moreover have "spsc_step ?s2 ?s3"
    by (rule p_write [of _ 7 0 0]) (simp_all add: spsc_init_def rb_new_def rb_next_def uadd_def)
  moreover have "spsc_step ?s3 ?s4" by (rule p_publish) simp
  ultimately have run: "spsc_step\<^sup>*\<^sup>* ?s0 ?s4" by (meson converse_rtranclp_into_rtranclp rtranclp.rtrancl_refl)
  have "sent ?s4 = [7]" "got ?s4 = []" by (simp_all add: spsc_init_def)
  with spsc_fifo [OF _ _ run] run show ?thesis by auto
qed

end
