(* ===== verification/Slab.thy ===== *)
theory Slab
  imports Blocks "HOL-Library.Disjoint_Sets"
begin

text \<open>
  The slab allocator of \<^verbatim>\<open>src/mm/slab.rs\<close>: one singly linked free list per size class,
  threaded through the free blocks themselves.  The first part follows the code; then comes
  the interface of an object cache, as the kernel heap uses it, and the proof that the slab
  allocator provides it.
\<close>

section \<open>The code\<close>

definition BLOCK_SIZES :: "usize list" where
  "BLOCK_SIZES = [8, 16, 32, 64, 128, 256, 512, 1024, 2048]"

record slab_allocator =
  list_heads :: "usize list"

type_synonym slab_st = "mem \<times> slab_allocator"

text \<open>The field \<^verbatim>\<open>next\<close> of a \<^verbatim>\<open>ListNode\<close> is the only one, at offset 0.\<close>

definition node_next :: "mem \<Rightarrow> usize \<Rightarrow> usize" where
  "node_next m a = rd64 m a"

definition set_node_next :: "usize \<Rightarrow> usize \<Rightarrow> mem \<Rightarrow> mem" where
  "set_node_next a v m = wr64 m a v"

definition slab_new :: slab_allocator where
  "slab_new = \<lparr>list_heads = replicate (length BLOCK_SIZES) 0\<rparr>"

definition list_index :: "usize \<Rightarrow> nat option" where
  "list_index sz =
     (if sz > BLOCK_SIZES ! (length BLOCK_SIZES - 1) then None
      else find (\<lambda>i. sz \<le> BLOCK_SIZES ! i) [0..<length BLOCK_SIZES])"

definition slab_alloc :: "usize \<Rightarrow> slab_st \<Rightarrow> usize option \<times> slab_st" where
  "slab_alloc sz = (\<lambda>(m, sl).
     case list_index sz of
       None \<Rightarrow> (None, (m, sl))
     | Some index \<Rightarrow>
         let head = list_heads sl ! index in
         if head \<noteq> 0 then (Some head, (m, sl\<lparr>list_heads := (list_heads sl)[index := node_next m head]\<rparr>))
         else (None, (m, sl)))"

fun link_blocks :: "nat \<Rightarrow> usize \<Rightarrow> usize \<Rightarrow> mem \<Rightarrow> (usize \<times> mem) option" where
  "link_blocks 0 block_size current_ptr m = Some (current_ptr, m)"
| "link_blocks (Suc n) block_size current_ptr m = do {
     next_ptr \<leftarrow> uadd current_ptr block_size;
     link_blocks n block_size next_ptr (set_node_next current_ptr next_ptr m)
   }"

definition populate_cache :: "nat \<Rightarrow> usize \<Rightarrow> slab_st \<Rightarrow> slab_st option" where
  "populate_cache index page_ptr = (\<lambda>(m, sl).
     if index < length BLOCK_SIZES then do {
       let block_size = BLOCK_SIZES ! index;
       num_blocks \<leftarrow> udiv 4096 block_size;
       n \<leftarrow> usub num_blocks 1;
       (current_ptr, m) \<leftarrow> link_blocks n block_size page_ptr m;
       let m = set_node_next current_ptr 0 m;
       second \<leftarrow> uadd page_ptr block_size;
       Some (m, sl\<lparr>list_heads := (list_heads sl)[index := second]\<rparr>)
     } else None)"

definition slab_free :: "usize \<Rightarrow> usize \<Rightarrow> slab_st \<Rightarrow> slab_st option" where
  "slab_free ptr sz = (\<lambda>(m, sl).
     case list_index sz of
       None \<Rightarrow> None
     | Some index \<Rightarrow>
         let head = list_heads sl ! index in
         Some (set_node_next ptr head m, sl\<lparr>list_heads := (list_heads sl)[index := ptr]\<rparr>))"

section \<open>Size classes\<close>

definition csize :: "nat \<Rightarrow> nat" where "csize i = 8 * 2 ^ i"

lemma BLOCK_SIZES_nth: "i < length BLOCK_SIZES \<Longrightarrow> BLOCK_SIZES ! i = csize i"
  by (auto simp: BLOCK_SIZES_def csize_def less_Suc_eq numeral_eq_Suc)

lemma BLOCK_SIZES_len [simp]: "length BLOCK_SIZES = 9"
  by (simp add: BLOCK_SIZES_def)

lemma csize_pos [simp]: "0 < csize i" "csize i \<noteq> 0"
  by (simp_all add: csize_def)

lemma csize_ge: "8 \<le> csize i"
  by (simp add: csize_def)

lemma csize_page:
  assumes "i < 9"
  shows "csize i dvd 4096" "2 * csize i \<le> 4096"
proof -
  have "csize i = 2 ^ (3 + i)" by (simp add: csize_def power_add)
  moreover have "(2::nat) ^ (3 + i) dvd 2 ^ 12" using assms by (intro le_imp_power_dvd) simp
  moreover have "(2::nat) ^ (3 + i) \<le> 2 ^ 11" using assms by (intro power_increasing) simp_all
  ultimately show "csize i dvd 4096" "2 * csize i \<le> 4096" by simp_all
qed

lemma list_index_eq:
  "list_index sz = (if sz > 2048 then None else find (\<lambda>i. sz \<le> csize i) [0..<9])"
proof -
  have "find (\<lambda>i. sz \<le> BLOCK_SIZES ! i) [0..<9] = find (\<lambda>i. sz \<le> csize i) [0..<9]"
    by (rule find_cong) (simp_all add: BLOCK_SIZES_nth)
  moreover have "BLOCK_SIZES ! 8 = 2048" by (simp add: BLOCK_SIZES_def)
  ultimately show ?thesis by (simp add: list_index_def)
qed

lemma list_index_Some:
  "list_index sz = Some i \<longleftrightarrow> i < 9 \<and> sz \<le> csize i \<and> (\<forall>j < i. csize j < sz)"
proof -
  have "sz \<le> 2048" if "i < 9" "sz \<le> csize i" using that csize_page(2) [of i] by linarith
  then show ?thesis
    by (auto simp: list_index_eq find_Some_iff not_le less_Suc_eq_le)
qed

lemma list_index_None: "list_index sz = None \<longleftrightarrow> 2048 < sz"
proof -
  have "\<exists>x \<in> {0..<9}. sz \<le> csize x" if "sz \<le> 2048"
    by (rule bexI [of _ 8]) (use that in \<open>simp_all add: csize_def\<close>)
  then show ?thesis by (auto simp: list_index_eq find_None_iff not_le) (meson leD)
qed

section \<open>The interface of an object cache\<close>

text \<open>Bytes of an object of class \<open>i\<close>.\<close>

definition oblk :: "nat \<times> usize \<Rightarrow> nat set" where
  "oblk = (\<lambda>(i, a). {a ..< a + csize i})"

lemma oblk_iff [simp]: "x \<in> oblk (i, a) \<longleftrightarrow> a \<le> x \<and> x < a + csize i"
  by (simp add: oblk_def)

definition oplace :: "nat \<times> usize \<Rightarrow> bool" where
  "oplace = (\<lambda>(i, a). i < 9 \<and> csize i dvd a \<and> a \<noteq> 0 \<and> a + csize i < 2 ^ 64)"

text \<open>
  \<open>cinv S s\<close>: the cache state \<open>s\<close> is well formed and holds the free bytes \<open>S\<close>.  A cache hands out
  objects from \<open>S\<close> without writing to memory, takes objects back by writing inside them only,
  and, when it has no object of a class, turns a page into one object and new free bytes.
\<close>

locale object_cache =
  fixes cinv :: "nat set \<Rightarrow> mem \<times> 'c \<Rightarrow> bool"
    and calloc :: "usize \<Rightarrow> mem \<times> 'c \<Rightarrow> usize option \<times> mem \<times> 'c"
    and cfill :: "nat \<Rightarrow> usize \<Rightarrow> mem \<times> 'c \<Rightarrow> (mem \<times> 'c) option"
    and cfree :: "usize \<Rightarrow> usize \<Rightarrow> mem \<times> 'c \<Rightarrow> (mem \<times> 'c) option"
  assumes calloc_miss: "calloc sz s = (None, s') \<Longrightarrow> s' = s"
    and calloc_hit: "cinv S (m, c) \<Longrightarrow> list_index sz = Some i \<Longrightarrow> calloc sz (m, c) = (Some a, (m', c')) \<Longrightarrow>
      m' = m \<and> oplace (i, a) \<and> oblk (i, a) \<subseteq> S \<and> cinv (S - oblk (i, a)) (m, c')"
    and cfill_ok: "cinv S (m, c) \<Longrightarrow> list_index sz = Some i \<Longrightarrow> fst (calloc sz (m, c)) = None \<Longrightarrow>
      4096 dvd p \<Longrightarrow> p \<noteq> 0 \<Longrightarrow> p + 4096 < 2 ^ 64 \<Longrightarrow> {p ..< p + 4096} \<inter> S = {} \<Longrightarrow>
      \<exists>m' c'. cfill i p (m, c) = Some (m', c') \<and> cinv (S \<union> {p + csize i ..< p + 4096}) (m', c') \<and>
      agree_off {p ..< p + 4096} m m'"
    and cfree_ok: "cinv S (m, c) \<Longrightarrow> list_index sz = Some i \<Longrightarrow> oplace (i, a) \<Longrightarrow> oblk (i, a) \<inter> S = {} \<Longrightarrow>
      \<exists>m' c'. cfree a sz (m, c) = Some (m', c') \<and> cinv (S \<union> oblk (i, a)) (m', c') \<and> agree_off (oblk (i, a)) m m'"
    and cinv_frame: "cinv S (m, c) \<Longrightarrow> agree_off X m m' \<Longrightarrow> X \<inter> S = {} \<Longrightarrow> cinv S (m', c)"
begin

text \<open>The client's side: the objects it holds, in a window of pages that grows at its end.\<close>

definition holdings :: "usize \<Rightarrow> usize \<Rightarrow> (nat \<times> usize) set \<Rightarrow> mem \<times> 'c \<Rightarrow> bool" where
  "holdings lo hi live s \<longleftrightarrow> (\<exists>S. cinv S s \<and> S \<union> \<Union>(oblk ` live) \<subseteq> {lo ..< hi} \<and> S \<inter> \<Union>(oblk ` live) = {}) \<and>
     disjoint_family_on oblk live \<and> (\<forall>x \<in> live. oplace x) \<and> lo \<noteq> 0"

lemma holdings_place: "holdings lo hi live s \<Longrightarrow> x \<in> live \<Longrightarrow> oplace x \<and> oblk x \<subseteq> {lo ..< hi}"
  unfolding holdings_def by blast

lemma holdings_hit:
  assumes h: "holdings lo hi live (m, c)" and i: "list_index sz = Some i"
    and r: "calloc sz (m, c) = (Some a, (m', c'))"
  shows "m' = m" "oplace (i, a)" "oblk (i, a) \<subseteq> {lo ..< hi} - \<Union>(oblk ` live)" "(i, a) \<notin> live"
    "holdings lo hi (insert (i, a) live) (m, c')"
proof -
  from h obtain S where S: "cinv S (m, c)" "S \<union> \<Union>(oblk ` live) \<subseteq> {lo ..< hi}" "S \<inter> \<Union>(oblk ` live) = {}"
    unfolding holdings_def by blast
  from calloc_hit [OF S(1) i r] show "m' = m" and pl: "oplace (i, a)" by simp_all
  from calloc_hit [OF S(1) i r] have sub: "oblk (i, a) \<subseteq> S" and inv: "cinv (S - oblk (i, a)) (m, c')" by simp_all
  show dj: "oblk (i, a) \<subseteq> {lo ..< hi} - \<Union>(oblk ` live)" using sub S(2,3) by blast
  have "a \<in> oblk (i, a)" by simp
  then show new: "(i, a) \<notin> live" using dj by blast
  have "disjoint_family_on oblk (insert (i, a) live)"
    using h dj new by (auto simp: holdings_def disjoint_family_on_insert)
  moreover have "(S - oblk (i, a)) \<union> \<Union>(oblk ` insert (i, a) live) \<subseteq> {lo ..< hi}"
    "(S - oblk (i, a)) \<inter> \<Union>(oblk ` insert (i, a) live) = {}" using S(2,3) sub by blast+
  ultimately show "holdings lo hi (insert (i, a) live) (m, c')"
    using h inv pl unfolding holdings_def by blast
qed

lemma holdings_fill:
  assumes h: "holdings lo hi live (m, c)" and i: "list_index sz = Some i" "fst (calloc sz (m, c)) = None"
    and p: "4096 dvd hi" "lo \<le> hi" "hi + 4096 < 2 ^ 64"
  obtains m' c' where "cfill i hi (m, c) = Some (m', c')" "oplace (i, hi)" "(i, hi) \<notin> live"
    "holdings lo (hi + 4096) (insert (i, hi) live) (m', c')" "agree_off {hi ..< hi + 4096} m m'"
proof -
  from h obtain S where S: "cinv S (m, c)" "S \<union> \<Union>(oblk ` live) \<subseteq> {lo ..< hi}" "S \<inter> \<Union>(oblk ` live) = {}"
    and lo: "lo \<noteq> 0" unfolding holdings_def by blast
  let ?P = "{hi ..< hi + 4096}"
  have "i < 9" using i(1) by (simp add: list_index_Some)
  note cs = csize_page [OF this]
  have P: "?P \<inter> {lo ..< hi} = {}" by auto
  have sub: "oblk (i, hi) \<subseteq> ?P" "{hi + csize i ..< hi + 4096} \<subseteq> ?P" "oblk (i, hi) \<inter> {hi + csize i ..< hi + 4096} = {}"
    using cs(2) by (auto simp: oblk_def)
  have pl: "oplace (i, hi)" using \<open>i < 9\<close> p lo cs dvd_trans [OF cs(1) p(1)] by (simp add: oplace_def)
  have "?P \<inter> S = {}" using P S(2) by blast
  from cfill_ok [OF S(1) i p(1) _ p(3) this] p(2) lo obtain m' c' where
    f: "cfill i hi (m, c) = Some (m', c')" "cinv (S \<union> {hi + csize i ..< hi + 4096}) (m', c')" "agree_off ?P m m'"
    by auto
  have dj: "oblk (i, hi) \<inter> \<Union>(oblk ` live) = {}" using sub(1) P S(2) by blast
  have "hi \<in> oblk (i, hi)" by simp
  then have new: "(i, hi) \<notin> live" using dj by blast
  have "disjoint_family_on oblk (insert (i, hi) live)"
    using h dj new by (auto simp: holdings_def disjoint_family_on_insert)
  moreover have "(S \<union> {hi + csize i ..< hi + 4096}) \<union> \<Union>(oblk ` insert (i, hi) live) \<subseteq> {lo ..< hi + 4096}"
  proof -
    have "?P \<subseteq> {lo ..< hi + 4096}" "{lo ..< hi} \<subseteq> {lo ..< hi + 4096}" using p(2) by auto
    with S(2) sub(1,2) show ?thesis by (simp only: image_insert Union_insert) blast
  qed
  moreover have "(S \<union> {hi + csize i ..< hi + 4096}) \<inter> \<Union>(oblk ` insert (i, hi) live) = {}"
    using S(2,3) sub P by (simp only: image_insert Union_insert) blast
  ultimately have "holdings lo (hi + 4096) (insert (i, hi) live) (m', c')"
    using h f(2) pl unfolding holdings_def by blast
  with that f(1,3) pl new show thesis by blast
qed

lemma holdings_free:
  assumes h: "holdings lo hi live (m, c)" and i: "list_index sz = Some i" and x: "(i, a) \<in> live"
  obtains m' c' where "cfree a sz (m, c) = Some (m', c')" "holdings lo hi (live - {(i, a)}) (m', c')"
    "agree_off (oblk (i, a)) m m'"
proof -
  from h obtain S where S: "cinv S (m, c)" "S \<union> \<Union>(oblk ` live) \<subseteq> {lo ..< hi}" "S \<inter> \<Union>(oblk ` live) = {}"
    unfolding holdings_def by blast
  have pl: "oplace (i, a)" using h x unfolding holdings_def by blast
  have "oblk (i, a) \<inter> S = {}" using S(3) x by blast
  from cfree_ok [OF S(1) i pl this] obtain m' c' where f: "cfree a sz (m, c) = Some (m', c')"
    "cinv (S \<union> oblk (i, a)) (m', c')" "agree_off (oblk (i, a)) m m'" by blast
  have "oblk (i, a) \<inter> oblk y = {}" if "y \<in> live - {(i, a)}" for y
    using h x that unfolding holdings_def disjoint_family_on_def by blast
  then have "(S \<union> oblk (i, a)) \<inter> \<Union>(oblk ` (live - {(i, a)})) = {}" using S(3) by blast
  moreover have "(S \<union> oblk (i, a)) \<union> \<Union>(oblk ` (live - {(i, a)})) \<subseteq> {lo ..< hi}" using S(2) x by blast
  moreover have "disjoint_family_on oblk (live - {(i, a)})"
    using h unfolding holdings_def by (meson Diff_subset disjoint_family_on_mono)
  ultimately have "holdings lo hi (live - {(i, a)}) (m', c')"
    using h f(2) unfolding holdings_def by blast
  with that f(1,3) show thesis by blast
qed

lemma holdings_frame:
  assumes "holdings lo hi live (m, c)" "agree_off X m m'" "X \<inter> {lo ..< hi} \<subseteq> \<Union>(oblk ` live)"
  shows "holdings lo hi live (m', c)"
proof -
  from assms(1) obtain S where S: "cinv S (m, c)" "S \<union> \<Union>(oblk ` live) \<subseteq> {lo ..< hi}" "S \<inter> \<Union>(oblk ` live) = {}"
    unfolding holdings_def by blast
  have "X \<inter> S = {}" using S(2,3) assms(3) by blast
  from cinv_frame [OF S(1) assms(2) this] S(2,3) assms(1) show ?thesis unfolding holdings_def by blast
qed

end

section \<open>The slab allocator is an object cache\<close>

fun slist :: "mem \<Rightarrow> usize \<Rightarrow> usize list \<Rightarrow> bool" where
  "slist m h [] \<longleftrightarrow> h = 0"
| "slist m h (a # as) \<longleftrightarrow> h = a \<and> a \<noteq> 0 \<and> slist m (node_next m a) as"

lemma slist_frame: "slist m h xs \<Longrightarrow> (\<And>a. a \<in> set xs \<Longrightarrow> rd64 m' a = rd64 m a) \<Longrightarrow> slist m' h xs"
  by (induction xs arbitrary: h) (auto simp: node_next_def)

lemma slist_null: "slist m 0 xs \<Longrightarrow> xs = []"
  by (cases xs) auto

lemma slist_head: "slist m h xs \<Longrightarrow> h \<noteq> 0 \<Longrightarrow> \<exists>as. xs = h # as \<and> slist m (node_next m h) as"
  by (cases xs) auto

definition pool :: "(nat \<Rightarrow> usize list) \<Rightarrow> (nat \<times> usize) set" where
  "pool fl = {(i, a). i < 9 \<and> a \<in> set (fl i)}"

definition slab_wf :: "(nat \<Rightarrow> usize list) \<Rightarrow> slab_st \<Rightarrow> bool" where
  "slab_wf fl = (\<lambda>(m, sl). length (list_heads sl) = 9 \<and>
     (\<forall>i < 9. slist m (list_heads sl ! i) (fl i) \<and> distinct (fl i)) \<and>
     (\<forall>x \<in> pool fl. oplace x) \<and> disjoint_family_on oblk (pool fl))"

definition slab_cinv :: "nat set \<Rightarrow> slab_st \<Rightarrow> bool" where
  "slab_cinv S s \<longleftrightarrow> (\<exists>fl. slab_wf fl s \<and> S = \<Union>(oblk ` pool fl))"

lemma pool_iff [simp]: "(i, a) \<in> pool fl \<longleftrightarrow> i < 9 \<and> a \<in> set (fl i)"
  by (simp add: pool_def)

lemma pool_cons: "i < 9 \<Longrightarrow> pool (fl(i := a # fl i)) = insert (i, a) (pool fl)"
  by (auto simp: pool_def split: if_splits)

lemma pool_tl: "fl i = a # as \<Longrightarrow> a \<notin> set as \<Longrightarrow> i < 9 \<Longrightarrow> pool (fl(i := as)) = pool fl - {(i, a)}"
  by (auto simp: pool_def split: if_splits)

lemma node_in_block: "rd64 m' a = rd64 m a" if "agree_off X m m'" "oblk (i, a) \<inter> X = {}"
proof (rule rd64_cong)
  fix x assume "a \<le> x" "x < a + 8"
  then have "x \<in> oblk (i, a)" using csize_ge [of i] by simp
  then show "m' x = m x" using that unfolding agree_off_def by blast
qed

lemma slab_wf_frame:
  assumes "slab_wf fl (m, sl)" "agree_off X m m'" "X \<inter> \<Union>(oblk ` pool fl) = {}"
  shows "slab_wf fl (m', sl)"
proof -
  have "rd64 m' a = rd64 m a" if "i < 9" "a \<in> set (fl i)" for i a
  proof (rule node_in_block [OF assms(2)])
    have "(i, a) \<in> pool fl" using that by simp
    then show "oblk (i, a) \<inter> X = {}" using assms(3) by blast
  qed
  with assms(1) show ?thesis unfolding slab_wf_def by (auto intro: slist_frame)
qed

lemma slab_pop:
  assumes wf: "slab_wf fl (m, sl)" and i: "i < 9" and h: "list_heads sl ! i \<noteq> 0"
  defines "a \<equiv> list_heads sl ! i"
  shows "oplace (i, a)" "oblk (i, a) \<subseteq> \<Union>(oblk ` pool fl)"
    "slab_cinv (\<Union>(oblk ` pool fl) - oblk (i, a)) (m, sl\<lparr>list_heads := (list_heads sl)[i := node_next m a]\<rparr>)"
proof -
  from wf i have "slist m a (fl i)" "distinct (fl i)" by (auto simp: slab_wf_def a_def)
  then obtain as where as: "fl i = a # as" "slist m (node_next m a) as" "a \<notin> set as" "distinct as"
    using slist_head [of m a "fl i"] h by (auto simp: a_def)
  have mem: "(i, a) \<in> pool fl" using as i by simp
  then show "oplace (i, a)" using wf by (auto simp: slab_wf_def)
  show "oblk (i, a) \<subseteq> \<Union>(oblk ` pool fl)" using mem by blast
  have pool: "pool (fl(i := as)) = pool fl - {(i, a)}" using as(1,3) i by (rule pool_tl)
  have "slab_wf (fl(i := as)) (m, sl\<lparr>list_heads := (list_heads sl)[i := node_next m a]\<rparr>)"
    using wf as(2,4) disjoint_family_on_mono [of "pool fl - {(i, a)}" "pool fl" oblk]
    unfolding slab_wf_def pool by (auto simp: nth_list_update)
  moreover have "\<Union>(oblk ` (pool fl - {(i, a)})) = \<Union>(oblk ` pool fl) - oblk (i, a)"
  proof -
    have "oblk y \<inter> oblk (i, a) = {}" if "y \<in> pool fl - {(i, a)}" for y
      using wf mem that unfolding slab_wf_def disjoint_family_on_def by blast
    then show ?thesis by blast
  qed
  ultimately show "slab_cinv (\<Union>(oblk ` pool fl) - oblk (i, a)) (m, sl\<lparr>list_heads := (list_heads sl)[i := node_next m a]\<rparr>)"
    unfolding slab_cinv_def pool [symmetric] by metis
qed

lemma slab_push:
  assumes wf: "slab_wf fl (m, sl)" and pl: "oplace (i, a)" and dj: "oblk (i, a) \<inter> \<Union>(oblk ` pool fl) = {}"
  defines "m' \<equiv> set_node_next a (list_heads sl ! i) m"
  shows "slab_wf (fl(i := a # fl i)) (m', sl\<lparr>list_heads := (list_heads sl)[i := a]\<rparr>)" "agree_off (oblk (i, a)) m m'"
proof -
  have i: "i < 9" and a: "a \<noteq> 0" using pl by (simp_all add: oplace_def)
  show ag: "agree_off (oblk (i, a)) m m'"
    using csize_ge [of i] by (auto simp: agree_off_def m'_def set_node_next_def wr64_def)
  from slab_wf_frame [OF wf ag dj] have wf': "slab_wf fl (m', sl)" .
  have h: "slist m (list_heads sl ! i) (fl i)" using wf i by (simp add: slab_wf_def)
  have "list_heads sl ! i < 2 ^ 64"
  proof (cases "fl i")
    case (Cons b bs)
    then have "(i, b) \<in> pool fl" using i by simp
    then have "oplace (i, b)" using wf unfolding slab_wf_def by blast
    then show ?thesis using Cons h by (auto simp: oplace_def)
  qed (use h in simp)
  then have nx: "node_next m' a = list_heads sl ! i"
    by (simp add: node_next_def m'_def set_node_next_def rd64_wr64_same)
  have "a \<in> oblk (i, a)" by simp
  then have new: "(i, a) \<notin> pool fl" using dj by blast
  have "disjoint_family_on oblk (insert (i, a) (pool fl))"
    using wf dj new by (auto simp: slab_wf_def disjoint_family_on_insert)
  then show "slab_wf (fl(i := a # fl i)) (m', sl\<lparr>list_heads := (list_heads sl)[i := a]\<rparr>)"
    using wf' pl new nx a i unfolding slab_wf_def pool_cons [OF i] by (auto simp: nth_list_update)
qed

text \<open>Splitting a page: block \<open>k\<close> of the page is linked to block \<open>k + 1\<close>.\<close>

lemma link_blocks_spec:
  assumes "8 \<le> bs" "cur + n * bs < 2 ^ 64"
  shows "\<exists>m'. link_blocks n bs cur m = Some (cur + n * bs, m') \<and> agree_off {cur ..< cur + n * bs} m m' \<and>
    (\<forall>k < n. rd64 m' (cur + k * bs) = cur + Suc k * bs)"
  using assms(2)
proof (induction n arbitrary: cur m)
  case (Suc n)
  let ?m = "set_node_next cur (cur + bs) m"
  have lt: "cur + bs + n * bs < 2 ^ 64" using Suc.prems by (simp add: algebra_simps)
  then have add: "uadd cur bs = Some (cur + bs)" by (simp add: uadd_def)
  from Suc.IH [OF lt, of ?m] obtain m' where m': "link_blocks n bs (cur + bs) ?m = Some (cur + bs + n * bs, m')"
    "agree_off {cur + bs ..< cur + bs + n * bs} ?m m'" "\<forall>k < n. rd64 m' (cur + bs + k * bs) = cur + bs + Suc k * bs"
    by blast
  have "agree_off {cur ..< cur + bs} m ?m"
    using assms(1) by (auto simp: agree_off_def set_node_next_def wr64_def)
  then have ag: "agree_off {cur ..< cur + Suc n * bs} m m'"
    by (rule agree_off_trans [OF _ m'(2)]) auto
  have "rd64 m' cur = rd64 ?m cur"
    using m'(2) assms(1) by (intro rd64_cong) (simp add: agree_off_def)
  then have first: "rd64 m' cur = cur + bs"
    using lt by (simp add: set_node_next_def rd64_wr64_same)
  have "rd64 m' (cur + k * bs) = cur + Suc k * bs" if "k < Suc n" for k
    using m'(3) first that by (cases k) (auto simp: algebra_simps)
  with m'(1) add ag show ?case by (auto simp: algebra_simps)
qed simp

lemma slist_range:
  assumes "\<And>k. i \<le> k \<Longrightarrow> k < n \<Longrightarrow> rd64 m (p + k * bs) = p + Suc k * bs" "rd64 m (p + n * bs) = 0" "p \<noteq> 0" "i \<le> n"
  shows "slist m (p + i * bs) (map (\<lambda>k. p + k * bs) [i..<Suc n])"
  using assms(4,1)
proof (induction rule: inc_induct)
  case base
  then show ?case using assms(2,3) by (simp add: node_next_def)
next
  case (step k)
  have "[k..<Suc n] = k # [Suc k..<Suc n]" using step(2) by (simp add: upt_conv_Cons)
  moreover have "slist m (p + Suc k * bs) (map (\<lambda>k. p + k * bs) [Suc k..<Suc n])"
    using step(3) step(4) by (simp only: Suc_leD)
  moreover have "node_next m (p + k * bs) = p + Suc k * bs" using step(4) [of k] step(2) by (simp add: node_next_def)
  ultimately show ?case using assms(3) by (simp only: list.map slist.simps) simp
qed

text \<open>The blocks \<open>1, \<dots>, n\<close> of the page as places.\<close>

lemma page_blocks:
  assumes i: "i < 9" and p: "4096 dvd p" "p \<noteq> 0" "p + 4096 < 2 ^ 64"
  defines "n \<equiv> 4096 div csize i - 1"
  defines "B \<equiv> (\<lambda>k. (i, p + k * csize i)) ` {1..n}"
  shows "p + n * csize i + csize i = p + 4096" "\<forall>x \<in> B. oplace x" "disjoint_family_on oblk B"
    "\<Union>(oblk ` B) = {p + csize i ..< p + 4096}" "0 < n"
proof -
  let ?c = "csize i"
  note cs = csize_page [OF i]
  have two: "2 \<le> 4096 div ?c" using cs(2) by (simp add: less_eq_div_iff_mult_less_eq)
  then show "0 < n" unfolding n_def by linarith
  have "Suc n = 4096 div ?c" using two unfolding n_def by linarith
  then have tot: "Suc n * ?c = 4096" using cs(1) by simp
  then show stop: "p + n * ?c + ?c = p + 4096" by simp
  have in_page: "k * ?c + ?c \<le> 4096" if "k \<le> n" for k
    using mult_le_mono1 [OF that, of ?c] stop by linarith
  have al: "?c dvd p + k * ?c" for k using dvd_trans [OF cs(1) p(1)] by simp
  show "\<forall>x \<in> B. oplace x"
    unfolding B_def oplace_def using i al p(2,3) in_page by fastforce
  have "oblk (i, p + j * ?c) \<inter> oblk (i, p + k * ?c) = {}" if "j < k" for j k
  proof -
    have "j * ?c + ?c \<le> k * ?c" using mult_le_mono1 [of "Suc j" k ?c] that by simp
    then show ?thesis by auto
  qed
  then have "oblk (i, p + j * ?c) \<inter> oblk (i, p + k * ?c) = {}" if "j \<noteq> k" for j k
    using that by (metis Int_commute linorder_neqE_nat)
  then show "disjoint_family_on oblk B" unfolding disjoint_family_on_def B_def by fastforce
  show "\<Union>(oblk ` B) = {p + ?c ..< p + 4096}"
  proof (intro equalityI subsetI)
    fix x assume "x \<in> \<Union>(oblk ` B)"
    then obtain k where k: "1 \<le> k" "k \<le> n" "p + k * ?c \<le> x" "x < p + k * ?c + ?c" by (auto simp: B_def)
    have "?c \<le> k * ?c" using k(1) by simp
    with k in_page [OF k(2)] have "p + ?c \<le> x" "x < p + 4096" by linarith+
    then show "x \<in> {p + ?c ..< p + 4096}" by simp
  next
    fix x assume x: "x \<in> {p + ?c ..< p + 4096}"
    define d where "d = x - p"
    then have d: "x = p + d" "?c \<le> d" "d < 4096" using x by auto
    let ?k = "d div ?c"
    have b: "?k * ?c \<le> d" "d < ?k * ?c + ?c"
      using div_mult_mod_eq [of d ?c] mod_less_divisor [OF csize_pos(1), of d i] by linarith+
    have "1 \<le> ?k" using d(2) div_le_mono [of ?c d ?c] by simp
    moreover have "?k \<le> n"
    proof (rule ccontr)
      assume "\<not> ?k \<le> n"
      then have "Suc n * ?c \<le> ?k * ?c" by (intro mult_le_mono1) simp
      with b(1) d(3) tot show False by linarith
    qed
    ultimately have "(i, p + ?k * ?c) \<in> B" by (simp add: B_def)
    moreover have "x \<in> oblk (i, p + ?k * ?c)" using b d(1) by simp
    ultimately show "x \<in> \<Union>(oblk ` B)" by blast
  qed
qed

lemma disjoint_family_on_Un:
  "disjoint_family_on f A \<Longrightarrow> disjoint_family_on f B \<Longrightarrow> \<Union>(f ` A) \<inter> \<Union>(f ` B) = {} \<Longrightarrow> disjoint_family_on f (A \<union> B)"
  unfolding disjoint_family_on_def by blast

lemma slab_fill:
  assumes wf: "slab_wf fl (m, sl)" and i: "i < 9" and e: "fl i = []"
    and p: "4096 dvd p" "p \<noteq> 0" "p + 4096 < 2 ^ 64" and dj: "{p ..< p + 4096} \<inter> \<Union>(oblk ` pool fl) = {}"
  shows "\<exists>m' sl'. populate_cache i p (m, sl) = Some (m', sl') \<and>
    slab_cinv (\<Union>(oblk ` pool fl) \<union> {p + csize i ..< p + 4096}) (m', sl') \<and> agree_off {p ..< p + 4096} m m'"
proof -
  let ?c = "csize i"
  define n where "n = 4096 div ?c - 1"
  define as where "as = map (\<lambda>k. p + k * ?c) [1..<Suc n]"
  let ?B = "(\<lambda>k. (i, p + k * ?c)) ` {1..n}"
  note pb = page_blocks [OF i p, folded n_def]
  have "p + n * ?c < 2 ^ 64" using pb(1) p(3) by linarith
  from link_blocks_spec [OF csize_ge this, of m] obtain m1 where m1: "link_blocks n ?c p m = Some (p + n * ?c, m1)"
    "agree_off {p ..< p + n * ?c} m m1" "\<forall>k < n. rd64 m1 (p + k * ?c) = p + Suc k * ?c" by blast
  let ?m = "set_node_next (p + n * ?c) 0 m1" and ?sl = "sl\<lparr>list_heads := (list_heads sl)[i := p + ?c]\<rparr>"
  have "agree_off {p + n * ?c ..< p + 4096} m1 ?m"
    using csize_ge [of i] pb(1) by (auto simp: agree_off_def set_node_next_def wr64_def)
  then have ag: "agree_off {p ..< p + 4096} m ?m"
    using pb(1) by (intro agree_off_trans [OF m1(2)]) auto
  have "uadd p ?c = Some (p + ?c)" using csize_page(2) [OF i] p(3) by (simp add: uadd_def)
  moreover have "usub (4096 div ?c) 1 = Some n" using pb(5) by (simp add: usub_def n_def)
  ultimately have run: "populate_cache i p (m, sl) = Some (?m, ?sl)"
    using i m1(1) by (simp add: populate_cache_def BLOCK_SIZES_nth udiv_def Let_def)
  have "rd64 ?m (p + k * ?c) = p + Suc k * ?c" if "k < n" for k
  proof -
    have "k * ?c + ?c \<le> n * ?c" using mult_le_mono1 [of "Suc k" n ?c] that by simp
    then have "rd64 ?m (p + k * ?c) = rd64 m1 (p + k * ?c)"
      using csize_ge [of i] unfolding set_node_next_def by (intro rd64_wr64_other) linarith
    with m1(3) that show ?thesis by simp
  qed
  then have sl: "slist ?m (p + ?c) as"
    using slist_range [of 1 n ?m p ?c] pb(5) p(2) unfolding as_def
    by (simp add: set_node_next_def rd64_wr64_same)
  have dist: "distinct as" unfolding as_def by (auto simp: distinct_map inj_on_def)
  have "set as = (\<lambda>k. p + k * ?c) ` {1..n}" unfolding as_def by (simp only: set_map set_upt atLeastLessThanSuc_atLeastAtMost)
  then have pool: "pool (fl(i := as)) = pool fl \<union> ?B"
    using i e by (auto simp: pool_def split: if_splits)
  have "\<Union>(oblk ` ?B) \<subseteq> {p ..< p + 4096}" unfolding pb(4) by auto
  then have "\<Union>(oblk ` pool fl) \<inter> \<Union>(oblk ` ?B) = {}" using dj by blast
  then have "disjoint_family_on oblk (pool fl \<union> ?B)"
    using wf pb(3) by (intro disjoint_family_on_Un) (simp_all add: slab_wf_def)
  then have "slab_wf (fl(i := as)) (?m, ?sl)"
    using slab_wf_frame [OF wf ag dj] sl dist pb(2) i unfolding slab_wf_def pool by (auto simp: nth_list_update)
  moreover have "\<Union>(oblk ` pool (fl(i := as))) = \<Union>(oblk ` pool fl) \<union> {p + ?c ..< p + 4096}"
    unfolding pool pb(4) [symmetric] by blast
  ultimately show ?thesis using run ag unfolding slab_cinv_def by metis
qed

lemma slab_alloc_eq:
  assumes "list_index sz = Some i"
  shows "slab_alloc sz (m, sl) = (if list_heads sl ! i \<noteq> 0
     then (Some (list_heads sl ! i), (m, sl\<lparr>list_heads := (list_heads sl)[i := node_next m (list_heads sl ! i)]\<rparr>))
     else (None, (m, sl)))"
  using assms by (simp add: slab_alloc_def Let_def)

interpretation sl: object_cache slab_cinv slab_alloc populate_cache slab_free
proof unfold_locales
  fix sz s s' assume "slab_alloc sz s = (None, s')"
  then show "s' = s" by (auto simp: slab_alloc_def Let_def split: option.splits prod.splits if_splits)
next
  fix S m sl sz i a m' sl'
  assume "slab_cinv S (m, sl)" and i: "list_index sz = Some i" and r: "slab_alloc sz (m, sl) = (Some a, (m', sl'))"
  then obtain fl where fl: "slab_wf fl (m, sl)" "S = \<Union>(oblk ` pool fl)" by (auto simp: slab_cinv_def)
  have "i < 9" using i by (simp add: list_index_Some)
  with slab_pop [OF fl(1)] r fl(2) show "m' = m \<and> oplace (i, a) \<and> oblk (i, a) \<subseteq> S \<and> slab_cinv (S - oblk (i, a)) (m, sl')"
    by (simp add: slab_alloc_eq [OF i] split: if_splits) blast
next
  fix S m sl sz i p
  assume "slab_cinv S (m, sl)" and i: "list_index sz = Some i" and miss: "fst (slab_alloc sz (m, sl)) = None"
    and p: "4096 dvd p" "p \<noteq> 0" "p + 4096 < 2 ^ 64" and dj: "{p ..< p + 4096} \<inter> S = {}"
  then obtain fl where fl: "slab_wf fl (m, sl)" "S = \<Union>(oblk ` pool fl)" by (auto simp: slab_cinv_def)
  have "i < 9" using i by (simp add: list_index_Some)
  moreover have "fl i = []"
    using fl(1) miss \<open>i < 9\<close> slist_null [of m "fl i"]
    by (auto simp: slab_alloc_eq [OF i] slab_wf_def split: if_splits)
  ultimately show "\<exists>m' c'. populate_cache i p (m, sl) = Some (m', c') \<and>
      slab_cinv (S \<union> {p + csize i ..< p + 4096}) (m', c') \<and> agree_off {p ..< p + 4096} m m'"
    using slab_fill [OF fl(1) _ _ p] dj fl(2) by blast
next
  fix S m sl sz i a
  assume "slab_cinv S (m, sl)" and i: "list_index sz = Some i" and pl: "oplace (i, a)" and dj: "oblk (i, a) \<inter> S = {}"
  then obtain fl where fl: "slab_wf fl (m, sl)" "S = \<Union>(oblk ` pool fl)" by (auto simp: slab_cinv_def)
  have "\<Union>(oblk ` pool (fl(i := a # fl i))) = S \<union> oblk (i, a)"
    using pl pool_cons [of i fl a] fl(2) by (auto simp: oplace_def)
  with slab_push [OF fl(1) pl] dj fl(2) i
  show "\<exists>m' c'. slab_free a sz (m, sl) = Some (m', c') \<and> slab_cinv (S \<union> oblk (i, a)) (m', c') \<and> agree_off (oblk (i, a)) m m'"
    unfolding slab_cinv_def by (simp add: slab_free_def Let_def) metis
next
  fix S m sl X m' assume "slab_cinv S (m, sl)" "agree_off X m m'" "X \<inter> S = {}"
  then show "slab_cinv S (m', sl)" unfolding slab_cinv_def by (blast intro: slab_wf_frame)
qed

lemma slab_new_cinv: "slab_cinv {} (m, slab_new)"
  unfolding slab_cinv_def
  by (rule exI [of _ "\<lambda>_. []"]) (simp add: slab_wf_def slab_new_def pool_def disjoint_family_on_def)

end
