(* ===== verification/Heap.thy ===== *)
theory Heap
  imports Slab Frames_Spec Buddy_Props
begin

text \<open>
  The kernel heap of \<^verbatim>\<open>src/mm/allocator.rs\<close>: the global allocator that serves small requests
  from the slab caches, which grow by pages of the heap window, and large ones from the buddy
  allocator.  The interrupt-safe lock around it is in the theory of locks.  Heap pages are
  addressed as the kernel sees them; the page-fault handler supplies a frame at the first
  access.
\<close>

section \<open>The code\<close>

record heap_allocator =
  slab :: slab_allocator
  virtual_bump_ptr :: usize
  heap_end :: usize

text \<open>The size and alignment of \<^verbatim>\<open>core::alloc::Layout\<close>.\<close>

record layout =
  lay_size :: usize
  lay_align :: usize

type_synonym heap_st = "mem \<times> heap_allocator \<times> buddy_allocator"

definition heap_new :: heap_allocator where
  "heap_new = \<lparr>slab = slab_new, virtual_bump_ptr = 0, heap_end = 0\<rparr>"

definition heap_init :: "usize \<Rightarrow> usize \<Rightarrow> heap_allocator \<Rightarrow> heap_allocator option" where
  "heap_init heap_start heap_size h = do {
     e \<leftarrow> uadd heap_start heap_size;
     Some (h\<lparr>virtual_bump_ptr := heap_start, heap_end := e\<rparr>)
   }"

definition allocate_virtual_page :: "heap_allocator \<Rightarrow> (usize option \<times> heap_allocator) option" where
  "allocate_virtual_page h = do {
     e \<leftarrow> uadd (virtual_bump_ptr h) 4096;
     if e > heap_end h then Some (None, h)
     else do {
       let page_addr = virtual_bump_ptr h;
       b \<leftarrow> uadd (virtual_bump_ptr h) 4096;
       Some (Some page_addr, h\<lparr>virtual_bump_ptr := b\<rparr>)
     }
   }"

definition align_to :: "usize \<Rightarrow> usize \<Rightarrow> usize option" where
  "align_to addr align = do {
     a \<leftarrow> uadd addr align;
     b \<leftarrow> usub a 1;
     c \<leftarrow> usub align 1;
     Some (and_not b c)
   }"

definition heap_alloc :: "layout \<Rightarrow> heap_st \<Rightarrow> (usize \<times> heap_st) option" where
  "heap_alloc layout = (\<lambda>(m, heap, buddy). do {
     sz \<leftarrow> align_to (lay_size layout) (lay_align layout);
     (case list_index sz of
        Some index \<Rightarrow>
          (case slab_alloc sz (m, slab heap) of
             (Some ptr, (m, sl)) \<Rightarrow> Some (ptr, (m, heap\<lparr>slab := sl\<rparr>, buddy))
           | (None, (m, sl)) \<Rightarrow> do {
               (page, heap) \<leftarrow> allocate_virtual_page (heap\<lparr>slab := sl\<rparr>);
               (case page of
                  Some new_page \<Rightarrow> do {
                    (m, sl) \<leftarrow> populate_cache index new_page (m, slab heap);
                    Some (new_page, (m, heap\<lparr>slab := sl\<rparr>, buddy))
                  }
                | None \<Rightarrow> Some (0, (m, heap, buddy)))
             })
      | None \<Rightarrow> do {
          page_aligned_size \<leftarrow> align_to sz 4096;
          if page_aligned_size > 4 * 1024 * 1024 then Some (0, (m, heap, buddy))
          else do {
            order \<leftarrow> size_to_order page_aligned_size;
            (block, (m, buddy)) \<leftarrow> buddy_alloc order (m, buddy);
            (case block of
               Some ptr \<Rightarrow> Some (ptr, (m, heap, buddy))
             | None \<Rightarrow> Some (0, (m, heap, buddy)))
          }
        })
   })"

definition heap_dealloc :: "usize \<Rightarrow> layout \<Rightarrow> heap_st \<Rightarrow> heap_st option" where
  "heap_dealloc ptr layout = (\<lambda>(m, heap, buddy). do {
     sz \<leftarrow> align_to (lay_size layout) (lay_align layout);
     (case list_index sz of
        Some _ \<Rightarrow> do {
          (m, sl) \<leftarrow> slab_free ptr sz (m, slab heap);
          Some (m, heap\<lparr>slab := sl\<rparr>, buddy)
        }
      | None \<Rightarrow> do {
          page_aligned_size \<leftarrow> align_to sz 4096;
          order \<leftarrow> size_to_order page_aligned_size;
          (m, buddy) \<leftarrow> buddy_free ptr order (m, buddy);
          Some (m, heap, buddy)
        })
   })"

section \<open>Rounding\<close>

text \<open>The least multiple of \<open>2 ^ k\<close> not below \<open>a\<close>.\<close>

definition round_up :: "nat \<Rightarrow> nat \<Rightarrow> nat" where
  "round_up k a = mask_low k (a + 2 ^ k - 1)"

lemma round_up_ge: "a \<le> round_up k a"
  using mask_low_gt [of "a + 2 ^ k - 1" k] by (simp add: round_up_def)

lemma round_up_lt: "round_up k a < a + 2 ^ k"
proof -
  have "round_up k a \<le> a + 2 ^ k - 1" by (simp add: round_up_def)
  moreover have "0 < (2::nat) ^ k" by simp
  ultimately show ?thesis by linarith
qed

lemma round_up_dvd: "2 ^ k dvd round_up k a"
  by (simp add: round_up_def)

lemma round_up_least: "2 ^ k dvd b \<Longrightarrow> a \<le> b \<Longrightarrow> round_up k a \<le> b"
proof -
  assume "2 ^ k dvd b" "a \<le> b"
  then obtain q where q: "b = 2 ^ k * q" by blast
  have "(b + (2 ^ k - 1)) div 2 ^ k = q" unfolding q by (subst div_mult_self4) simp_all
  then have "mask_low k (b + (2 ^ k - 1)) = b" unfolding mask_low_def q by simp
  moreover have "round_up k a \<le> mask_low k (b + (2 ^ k - 1))"
    unfolding round_up_def using \<open>a \<le> b\<close> by (intro mask_low_mono) simp
  ultimately show ?thesis by simp
qed

lemma round_up_pos: "0 < a \<Longrightarrow> 2 ^ k \<le> round_up k a"
  using round_up_ge [of a k] round_up_dvd [of k a] by (auto dest: dvd_imp_le)

lemma and_not_mask: "and_not x (2 ^ k - 1) = mask_low k x"
proof -
  have "x AND (2 ^ k - 1) = x mod 2 ^ k"
    by (simp add: take_bit_eq_mask mask_eq_exp_minus_1 flip: take_bit_eq_mod)
  then show ?thesis by (simp add: and_not_def mask_low_def minus_mod_eq_div_mult)
qed

lemma align_to_eq: "a + 2 ^ k < 2 ^ 64 \<Longrightarrow> align_to a (2 ^ k) = Some (round_up k a)"
  using and_not_mask [of "a + 2 ^ k - 1" k]
  by (simp add: align_to_def uadd_def usub_def round_up_def trans_le_add2)

lemma align_to_page: "a + 4096 < 2 ^ 64 \<Longrightarrow> align_to a 4096 = Some (round_up 12 a)"
  using align_to_eq [of a 12] by simp

lemma pow2_le_dvd: "2 ^ k \<le> (2::nat) ^ j \<Longrightarrow> 2 ^ k dvd (2::nat) ^ j"
  by (rule le_imp_power_dvd) simp

section \<open>Objects and the invariant\<close>

text \<open>A live object is a slab object of a class or a buddy block of an order.\<close>

datatype obj = Small nat | Large nat

fun obj_bytes :: "obj \<times> usize \<Rightarrow> nat set" where
  "obj_bytes (Small i, a) = oblk (i, a)"
| "obj_bytes (Large ord, a) = blk ord a"

definition smalls :: "(obj \<times> usize) set \<Rightarrow> (nat \<times> usize) set" where
  "smalls live = {(i, a). (Small i, a) \<in> live}"

definition larges :: "(obj \<times> usize) set \<Rightarrow> (nat \<times> usize) set" where
  "larges live = {(ord, a). (Large ord, a) \<in> live}"

lemma smalls_simps [simp]:
  "smalls {} = {}" "smalls (insert (Small i, a) live) = insert (i, a) (smalls live)"
  "smalls (insert (Large ord, a) live) = smalls live"
  "smalls (live - {(Small i, a)}) = smalls live - {(i, a)}" "smalls (live - {(Large ord, a)}) = smalls live"
  "(i, a) \<in> smalls live \<longleftrightarrow> (Small i, a) \<in> live"
  by (auto simp: smalls_def)

lemma larges_simps [simp]:
  "larges {} = {}" "larges (insert (Large i, a) live) = insert (i, a) (larges live)"
  "larges (insert (Small i, a) live) = larges live"
  "larges (live - {(Large i, a)}) = larges live - {(i, a)}" "larges (live - {(Small ord, a)}) = larges live"
  "(i, a) \<in> larges live \<longleftrightarrow> (Large i, a) \<in> live"
  by (auto simp: larges_def)

definition obj_all :: "(obj \<times> usize) set \<Rightarrow> nat set" where
  "obj_all live = \<Union>(obj_bytes ` live)"

lemma obj_all_split: "obj_all live = \<Union>(oblk ` smalls live) \<union> live_bytes (larges live)"
proof -
  have "x \<in> obj_bytes y \<Longrightarrow> y \<in> live \<Longrightarrow> x \<in> \<Union>(oblk ` smalls live) \<union> live_bytes (larges live)" for x y
    by (cases y rule: obj_bytes.cases) (auto simp: live_bytes_def smalls_def larges_def)
  moreover have "\<Union>(oblk ` smalls live) \<subseteq> obj_all live" "live_bytes (larges live) \<subseteq> obj_all live"
    unfolding obj_all_def live_bytes_def smalls_def larges_def by fastforce+
  ultimately show ?thesis unfolding obj_all_def by blast
qed

definition heap_inv :: "nat \<Rightarrow> nat set \<Rightarrow> usize \<Rightarrow> (obj \<times> usize) set \<Rightarrow> heap_st \<Rightarrow> bool" where
  "heap_inv L T lo live = (\<lambda>(m, h, b).
     bd.ledger L T (larges live) (m, b) \<and>
     sl.holdings lo (virtual_bump_ptr h) (smalls live) (m, slab h) \<and>
     4096 dvd virtual_bump_ptr h \<and> lo \<le> virtual_bump_ptr h \<and> virtual_bump_ptr h \<le> heap_end h \<and>
     heap_end h + 4096 < 2 ^ 64 \<and> {lo ..< heap_end h} \<inter> (T \<union> bitmap_bytes b) = {})"

lemma heap_invD:
  assumes "heap_inv L T lo live (m, h, b)"
  shows "bd.ledger L T (larges live) (m, b)" "sl.holdings lo (virtual_bump_ptr h) (smalls live) (m, slab h)"
    "4096 dvd virtual_bump_ptr h" "lo \<le> virtual_bump_ptr h" "virtual_bump_ptr h \<le> heap_end h"
    "heap_end h + 4096 < 2 ^ 64" "{lo ..< heap_end h} \<inter> (T \<union> bitmap_bytes b) = {}"
    "\<Union>(oblk ` smalls live) \<subseteq> {lo ..< virtual_bump_ptr h}" "{lo ..< virtual_bump_ptr h} \<subseteq> {lo ..< heap_end h}"
    "live_bytes (larges live) \<subseteq> T"
  using assms by (auto simp: heap_inv_def sl.holdings_def bd.ledger_def)

text \<open>What the layouts of \<^verbatim>\<open>core::alloc\<close> satisfy, for the requests a collection makes.\<close>

definition layout_ok :: "layout \<Rightarrow> nat \<Rightarrow> bool" where
  "layout_ok l k \<longleftrightarrow> lay_align l = 2 ^ k \<and> 0 < lay_size l \<and> lay_size l + 2 ^ k \<le> 2 ^ 63"

definition rounded :: "layout \<Rightarrow> usize" where
  "rounded l = round_up (trailing_zeros (lay_align l)) (lay_size l)"

text \<open>The object a layout is served by.\<close>

definition route :: "layout \<Rightarrow> obj" where
  "route l = (case list_index (rounded l) of
     Some i \<Rightarrow> Small i
   | None \<Rightarrow> Large (case size_to_order (round_up 12 (rounded l)) of Some ord \<Rightarrow> ord | None \<Rightarrow> 0))"

lemma layout_okD:
  assumes "layout_ok l k"
  shows "align_to (lay_size l) (lay_align l) = Some (rounded l)" "lay_size l \<le> rounded l" "lay_align l dvd rounded l"
    "lay_align l \<le> rounded l" "rounded l < 2 ^ 63" "align_to (rounded l) 4096 = Some (round_up 12 (rounded l))"
proof -
  from assms have l: "lay_align l = 2 ^ k" "0 < lay_size l" "lay_size l + 2 ^ k \<le> 2 ^ 63" by (simp_all add: layout_ok_def)
  then have r: "rounded l = round_up k (lay_size l)" by (simp add: rounded_def)
  have "lay_size l + 2 ^ k < 2 ^ 64" using l(3) by simp
  then show "align_to (lay_size l) (lay_align l) = Some (rounded l)" unfolding r l(1) by (rule align_to_eq)
  show "lay_size l \<le> rounded l" unfolding r by (rule round_up_ge)
  show "lay_align l dvd rounded l" unfolding r l(1) by (rule round_up_dvd)
  show "lay_align l \<le> rounded l" unfolding r l(1) by (rule round_up_pos [OF l(2)])
  show lt: "rounded l < 2 ^ 63" unfolding r using round_up_lt [of k "lay_size l"] l(3) by linarith
  then have "rounded l + 4096 < 2 ^ 64" by simp
  then show "align_to (rounded l) 4096 = Some (round_up 12 (rounded l))" by (rule align_to_page)
qed

lemma pow2_fits:
  assumes "lay_align l = 2 ^ k" "lay_align l \<le> 2 ^ j" "2 ^ j dvd (p :: nat)"
  shows "lay_align l dvd p"
  using assms pow2_le_dvd [of k j] by (metis dvd_trans)

lemma route_Small:
  assumes "layout_ok l k" "list_index (rounded l) = Some i"
  shows "route l = Small i" "lay_size l \<le> csize i" "\<And>p. csize i dvd p \<Longrightarrow> lay_align l dvd p"
proof -
  note d = layout_okD [OF assms(1)]
  show "route l = Small i" using assms(2) by (simp add: route_def)
  have i: "rounded l \<le> csize i" using assms(2) by (simp add: list_index_Some)
  with d(2) show "lay_size l \<le> csize i" by linarith
  have "csize i = 2 ^ (3 + i)" by (simp add: csize_def power_add)
  moreover have "lay_align l = 2 ^ k" "lay_align l \<le> csize i" using assms(1) i d(4) by (simp_all add: layout_ok_def)
  ultimately show "csize i dvd p \<Longrightarrow> lay_align l dvd p" for p
    using pow2_fits [of l k "3 + i" p] by simp
qed

lemma route_Large:
  assumes "layout_ok l k" "list_index (rounded l) = None" "round_up 12 (rounded l) \<le> 4194304"
  obtains ord where "route l = Large ord" "size_to_order (round_up 12 (rounded l)) = Some ord" "ord \<le> 10"
    "lay_size l \<le> bsz ord" "\<forall>p. bsz ord dvd p \<longrightarrow> lay_align l dvd p"
proof -
  note d = layout_okD [OF assms(1)]
  let ?n = "round_up 12 (rounded l)"
  have "?n + 4095 < 2 ^ 64" using assms(3) by simp
  then obtain j where j: "size_to_order ?n = Some (min j 10)" "?n \<le> bsz j" "j = 0 \<or> bsz (j - 1) < ?n"
    by (rule size_to_order_spec)
  have "j \<le> 10"
  proof (rule ccontr)
    assume "\<not> j \<le> 10"
    then have "bsz 10 \<le> bsz (j - 1)" unfolding bsz_def by (intro power_increasing) auto
    moreover have "bsz 10 = 4194304" by (simp add: bsz_def)
    ultimately show False using j(3) assms(3) \<open>\<not> j \<le> 10\<close> by simp
  qed
  then have s: "size_to_order ?n = Some j" using j(1) by simp
  have b: "rounded l \<le> bsz j" using round_up_ge [of "rounded l" 12] j(2) by linarith
  show thesis
  proof (rule that)
    show "route l = Large j" using assms(2) s by (simp add: route_def)
    show "lay_size l \<le> bsz j" using d(2) b by linarith
    have "lay_align l = 2 ^ k" "lay_align l \<le> bsz j" using assms(1) b d(4) by (simp_all add: layout_ok_def)
    then show "\<forall>p. bsz j dvd p \<longrightarrow> lay_align l dvd p"
      using pow2_fits [of l k "12 + j"] by (simp add: bsz_def)
  qed fact+
qed

section \<open>One call\<close>

lemma buddy_alloc_bitmap:
  assumes "bd.ledger L T live (m, b)" "buddy_alloc ord (m, b) = Some (r, (m', b'))" "ord \<le> 10"
  shows "bitmap_bytes b' = bitmap_bytes b"
proof -
  have "buddy_ainv L (T - live_bytes live) (m, b)" using assms(1) by (simp add: bd.ledger_def)
  with bd.alloc_Some [OF this assms(3)] bd.alloc_None [OF this] assms(2) show ?thesis
    by (cases r) auto
qed

text \<open>What a call that hands out \<open>p\<close> promises.\<close>

definition granted :: "nat \<Rightarrow> nat set \<Rightarrow> usize \<Rightarrow> (obj \<times> usize) set \<Rightarrow> layout \<Rightarrow> usize \<Rightarrow> mem \<Rightarrow> heap_st \<Rightarrow> bool" where
  "granted L T lo live l p m = (\<lambda>(m', h', b').
     p \<noteq> 0 \<and> lay_align l dvd p \<and> {p ..< p + lay_size l} \<subseteq> obj_bytes (route l, p) \<and>
     obj_bytes (route l, p) \<inter> obj_all live = {} \<and> heap_inv L T lo (insert (route l, p) live) (m', h', b') \<and>
     (\<forall>x \<in> obj_all live. m' x = m x))"

lemma small_frame:
  assumes inv: "heap_inv L T lo live (m, h, b)" and ag: "agree_off X m m'" and X: "X \<subseteq> {lo ..< heap_end h}"
  shows "bd.ledger L T (larges live) (m', b)"
proof -
  note d = heap_invD [OF inv]
  have "X \<inter> (T - live_bytes (larges live) \<union> bitmap_bytes b) = {}" using d(7) X by blast
  with bd.ainv_frame [OF _ ag] d(1) show ?thesis by (simp add: bd.ledger_def)
qed

lemma heap_alloc_hit:
  assumes inv: "heap_inv L T lo live (m, h, b)" and l: "layout_ok l k" "list_index (rounded l) = Some i"
    and r: "slab_alloc (rounded l) (m, slab h) = (Some p, (m', s'))"
  shows "heap_alloc l (m, h, b) = Some (p, (m', h\<lparr>slab := s'\<rparr>, b))" "granted L T lo live l p m (m', h\<lparr>slab := s'\<rparr>, b)"
proof -
  note d = heap_invD [OF inv] and lo = layout_okD [OF l(1)] and ro = route_Small [OF l]
  show "heap_alloc l (m, h, b) = Some (p, (m', h\<lparr>slab := s'\<rparr>, b))"
    using l(2) r lo(1) by (simp add: heap_alloc_def)
  note hit = sl.holdings_hit [OF d(2) l(2) r]
  have pl: "csize i dvd p" "p \<noteq> 0" using hit(2) by (auto simp: oplace_def)
  have "oblk (i, p) \<inter> obj_all live = {}"
    unfolding obj_all_split using hit(3) d(7,9,10) by blast
  moreover have "heap_inv L T lo (insert (Small i, p) live) (m', h\<lparr>slab := s'\<rparr>, b)"
    using inv hit(1,5) by (simp add: heap_inv_def)
  ultimately show "granted L T lo live l p m (m', h\<lparr>slab := s'\<rparr>, b)"
    using pl ro hit(1) by (auto simp: granted_def)
qed

lemma heap_alloc_miss:
  assumes inv: "heap_inv L T lo live (m, h, b)" and l: "layout_ok l k" "list_index (rounded l) = Some i"
    and r: "fst (slab_alloc (rounded l) (m, slab h)) = None" and room: "virtual_bump_ptr h + 4096 \<le> heap_end h"
  obtains st where "heap_alloc l (m, h, b) = Some (virtual_bump_ptr h, st)" "granted L T lo live l (virtual_bump_ptr h) m st"
proof -
  let ?p = "virtual_bump_ptr h"
  note d = heap_invD [OF inv] and lo = layout_okD [OF l(1)] and ro = route_Small [OF l]
  have p: "?p + 4096 < 2 ^ 64" using room d(6) by linarith
  from sl.holdings_fill [OF d(2) l(2) r d(3,4) p] obtain m' s' where f: "populate_cache i ?p (m, slab h) = Some (m', s')"
    "oplace (i, ?p)" "sl.holdings lo (?p + 4096) (insert (i, ?p) (smalls live)) (m', s')" "agree_off {?p ..< ?p + 4096} m m'"
    by metis
  let ?h = "h\<lparr>virtual_bump_ptr := ?p + 4096, slab := s'\<rparr>"
  have miss: "slab_alloc (rounded l) (m, slab h) = (None, (m, slab h))"
    using r sl.calloc_miss [of "rounded l" "(m, slab h)"] by (cases "slab_alloc (rounded l) (m, slab h)") auto
  have page: "allocate_virtual_page h = Some (Some ?p, h\<lparr>virtual_bump_ptr := ?p + 4096\<rparr>)"
    using p room by (simp add: allocate_virtual_page_def uadd_def)
  have run: "heap_alloc l (m, h, b) = Some (?p, (m', ?h, b))"
    using l(2) miss lo(1) page f(1) by (simp add: heap_alloc_def)
  have sub: "{?p ..< ?p + 4096} \<subseteq> {lo ..< heap_end h}" using room d(4) by auto
  have "oblk (i, ?p) \<subseteq> {?p ..< ?p + 4096}" using csize_page(2) [of i] f(2) by (auto simp: oplace_def)
  moreover have fresh: "{?p ..< ?p + 4096} \<inter> obj_all live = {}"
  proof -
    have "{?p ..< ?p + 4096} \<inter> {lo ..< ?p} = {}" by auto
    then show ?thesis unfolding obj_all_split using d(7,8,10) sub by blast
  qed
  ultimately have "oblk (i, ?p) \<inter> obj_all live = {}" by blast
  moreover have "heap_inv L T lo (insert (Small i, ?p) live) (m', ?h, b)"
    using small_frame [OF inv f(4) sub] f(3) d room by (simp add: heap_inv_def)
  moreover have "csize i dvd ?p" "?p \<noteq> 0" using f(2) by (auto simp: oplace_def)
  moreover have "m' x = m x" if "x \<in> obj_all live" for x using f(4) fresh that unfolding agree_off_def by blast
  ultimately have "granted L T lo live l ?p m (m', ?h, b)" using ro by (auto simp: granted_def)
  with run that show thesis by blast
qed

lemma heap_alloc_large:
  assumes inv: "heap_inv L T lo live (m, h, b)" and l: "layout_ok l k" "list_index (rounded l) = None"
    and sz: "round_up 12 (rounded l) \<le> 4194304"
  obtains (null) "heap_alloc l (m, h, b) = Some (0, (m, h, b))"
  | (block) p st where "heap_alloc l (m, h, b) = Some (p, st)" "granted L T lo live l p m st"
proof -
  note d = heap_invD [OF inv] and lo = layout_okD [OF l(1)]
  from l sz obtain ord where ro: "route l = Large ord" "size_to_order (round_up 12 (rounded l)) = Some ord" "ord \<le> 10"
    "lay_size l \<le> bsz ord" "\<forall>p. bsz ord dvd p \<longrightarrow> lay_align l dvd p" by (rule route_Large)
  have ainv: "buddy_ainv L (T - live_bytes (larges live)) (m, b)" using d(1) by (simp add: bd.ledger_def)
  obtain r m' b' where r: "buddy_alloc ord (m, b) = Some (r, (m', b'))" using bd.alloc_total [OF ainv] by fastforce
  have run: "heap_alloc l (m, h, b) = Some (case r of None \<Rightarrow> 0 | Some p \<Rightarrow> p, (m', h, b'))"
    using l(2) lo(1,6) sz ro(2) r by (simp add: heap_alloc_def split: option.split)
  show thesis
  proof (cases r)
    case None
    with run bd.alloc_None [OF ainv r [unfolded None]] show thesis by (intro null) simp
  next
    case (Some p)
    note g = bd.ledger_alloc [OF d(1) ro(3) r [unfolded Some]]
    have v: "bsz ord dvd p" "p \<noteq> 0" using bd.ledgerD(3,4) [OF g(1), of ord p] by simp_all
    have bm: "bitmap_bytes b' = bitmap_bytes b" using d(1) r ro(3) by (rule buddy_alloc_bitmap)
    let ?F = "T - live_bytes (larges live) \<union> bitmap_bytes b"
    have off: "?F \<inter> {lo ..< virtual_bump_ptr h} = {}" using d(7,9) by blast
    have live: "x \<notin> ?F" if "x \<in> obj_all live" for x
    proof -
      have "live_bytes (larges live) \<inter> bitmap_bytes b = {}"
        using bd.ledgerD(5) [OF d(1)] unfolding live_bytes_def by fastforce
      then show ?thesis using that d(7,8,9) unfolding obj_all_split by blast
    qed
    have "sl.holdings lo (virtual_bump_ptr h) (smalls live) (m', slab h)"
      using off by (intro sl.holdings_frame [OF d(2) g(3)]) blast
    then have "heap_inv L T lo (insert (Large ord, p) live) (m', h, b')"
      using g(1) d bm by (simp add: heap_inv_def)
    moreover have "blk ord p \<inter> obj_all live = {}" using g(2) live by blast
    moreover have "m' x = m x" if "x \<in> obj_all live" for x using g(3) live [OF that] unfolding agree_off_def by blast
    moreover have "{p ..< p + lay_size l} \<subseteq> blk ord p" using ro(4) by (auto simp: blk_def)
    ultimately have "granted L T lo live l p m (m', h, b')" using v ro(1,5) by (simp add: granted_def)
    with run Some show thesis by (intro block) auto
  qed
qed

lemma heap_alloc_small_null:
  assumes inv: "heap_inv L T lo live (m, h, b)" and l: "layout_ok l k" "list_index (rounded l) = Some i"
    and r: "fst (slab_alloc (rounded l) (m, slab h)) = None" and room: "\<not> virtual_bump_ptr h + 4096 \<le> heap_end h"
  shows "heap_alloc l (m, h, b) = Some (0, (m, h, b))"
proof -
  note d = heap_invD [OF inv] and lo = layout_okD [OF l(1)]
  have miss: "slab_alloc (rounded l) (m, slab h) = (None, (m, slab h))"
    using r sl.calloc_miss [of "rounded l" "(m, slab h)"] by (cases "slab_alloc (rounded l) (m, slab h)") auto
  have "virtual_bump_ptr h + 4096 < 2 ^ 64" using d(5,6) by linarith
  then have page: "allocate_virtual_page h = Some (None, h)"
    using room by (simp add: allocate_virtual_page_def uadd_def)
  show ?thesis using l(2) miss lo(1) page by (simp add: heap_alloc_def)
qed

lemma heap_alloc_cases:
  assumes inv: "heap_inv L T lo live (m, h, b)" and l: "layout_ok l k"
  obtains (null) "heap_alloc l (m, h, b) = Some (0, (m, h, b))"
  | (grant) p st where "heap_alloc l (m, h, b) = Some (p, st)" "granted L T lo live l p m st"
proof (cases "list_index (rounded l)")
  case None
  show thesis
  proof (cases "round_up 12 (rounded l) \<le> 4194304")
    case True
    with inv l None show thesis by (cases rule: heap_alloc_large) (auto intro: null grant)
  next
    case False
    with None layout_okD(1,6) [OF l] show thesis by (intro null) (simp add: heap_alloc_def)
  qed
next
  case (Some i)
  obtain r m' s' where r: "slab_alloc (rounded l) (m, slab h) = (r, (m', s'))" by (metis prod_cases3)
  show thesis
  proof (cases r)
    case None
    then have miss: "fst (slab_alloc (rounded l) (m, slab h)) = None" using r by simp
    show thesis
    proof (cases "virtual_bump_ptr h + 4096 \<le> heap_end h")
      case True
      then show thesis using heap_alloc_miss [OF inv l Some miss] grant by metis
    next
      case False
      then show thesis by (rule null [OF heap_alloc_small_null [OF inv l Some miss]])
    qed
  next
    case (Some p)
    then show thesis using heap_alloc_hit [OF inv l \<open>list_index (rounded l) = Some i\<close>] r grant by metis
  qed
qed

lemma obj_apart:
  assumes inv: "heap_inv L T lo live (m, h, b)"
  shows "disjoint_family_on obj_bytes live"
proof -
  note d = heap_invD [OF inv]
  have S: "disjoint_family_on oblk (smalls live)" using d(2) by (simp add: sl.holdings_def)
  have B: "live_apart (larges live)" using d(1) by (simp add: bd.ledger_def)
  have SB: "oblk x \<inter> blk ord a = {}" if "x \<in> smalls live" "(ord, a) \<in> larges live" for x ord a
    using that d(7,8,9,10) blk_live [OF that(2)] by blast
  show ?thesis unfolding disjoint_family_on_def
  proof (intro ballI impI)
    fix x y assume xy: "x \<in> live" "y \<in> live" "x \<noteq> y"
    obtain ox a oy c where [simp]: "x = (ox, a)" "y = (oy, c)" by (cases x, cases y)
    show "obj_bytes x \<inter> obj_bytes y = {}"
    proof (cases ox)
      case (Small i)
      then show ?thesis using xy disjoint_family_onD [OF S, of "(i, a)"] SB [of "(i, a)"] by (cases oy) auto
    next
      case (Large o1)
      show ?thesis
      proof (cases oy)
        case Small2: (Small j)
        then show ?thesis using xy Large SB [of "(j, c)" o1 a] by auto
      next
        case Large2: (Large o2)
        then have "(o1, a) \<in> larges live" "(o2, c) \<in> larges live" "(o1, a) \<noteq> (o2, c)" using xy Large by auto
        then have "blk o1 a \<inter> blk o2 c = {}" using B unfolding live_apart_def by blast
        then show ?thesis using Large Large2 by simp
      qed
    qed
  qed
qed

lemma heap_dealloc_small:
  assumes inv: "heap_inv L T lo live (m, h, b)" and l: "layout_ok l k" "list_index (rounded l) = Some i"
    and p: "(Small i, p) \<in> live"
  obtains m' h' where "heap_dealloc p l (m, h, b) = Some (m', h', b)"
    "heap_inv L T lo (live - {(Small i, p)}) (m', h', b)" "agree_off (oblk (i, p)) m m'"
proof -
  note d = heap_invD [OF inv] and lo = layout_okD [OF l(1)]
  have p': "(i, p) \<in> smalls live" using p by simp
  from sl.holdings_free [OF d(2) l(2) p'] obtain m' s' where f: "slab_free p (rounded l) (m, slab h) = Some (m', s')"
    "sl.holdings lo (virtual_bump_ptr h) (smalls live - {(i, p)}) (m', s')" "agree_off (oblk (i, p)) m m'" by metis
  have "oblk (i, p) \<subseteq> {lo ..< heap_end h}" using d(8,9) p' by blast
  from small_frame [OF inv f(3) this] have "heap_inv L T lo (live - {(Small i, p)}) (m', h\<lparr>slab := s'\<rparr>, b)"
    using f(2) d by (simp add: heap_inv_def)
  moreover have "heap_dealloc p l (m, h, b) = Some (m', h\<lparr>slab := s'\<rparr>, b)"
    using l(2) lo(1) f(1) by (simp add: heap_dealloc_def)
  ultimately show thesis using that f(3) by blast
qed

lemma heap_dealloc_large:
  assumes inv: "heap_inv L T lo live (m, h, b)" and l: "layout_ok l k" "list_index (rounded l) = None"
    and ro: "route l = Large ord" and p: "(Large ord, p) \<in> live"
  obtains m' b' where "heap_dealloc p l (m, h, b) = Some (m', h, b')"
    "heap_inv L T lo (live - {(Large ord, p)}) (m', h, b')"
    "agree_off (T - live_bytes (larges live - {(ord, p)}) \<union> bitmap_bytes b) m m'"
proof -
  note d = heap_invD [OF inv] and lo = layout_okD [OF l(1)]
  have p': "(ord, p) \<in> larges live" using p by simp
  let ?F = "T - live_bytes (larges live - {(ord, p)}) \<union> bitmap_bytes b"
  from bd.ledger_free [OF d(1) p'] obtain m' b' where f: "buddy_free p ord (m, b) = Some (m', b')"
    "bd.ledger L T (larges live - {(ord, p)}) (m', b')" "agree_off ?F m m'" by metis
  have "buddy_ainv L (T - live_bytes (larges live)) (m, b)" using d(1) by (simp add: bd.ledger_def)
  moreover have v: "buddy_valid L b ord p" using bd.ledgerD(1) [OF d(1) p'] by simp
  moreover have "blk ord p \<inter> (T - live_bytes (larges live)) = {}" using blk_live [OF p'] by blast
  ultimately have "same_conf b b'" using f(1) by (rule base_addr_free)
  then have bm: "bitmap_bytes b' = bitmap_bytes b" by (rule conf_cong(7))
  have "?F \<inter> {lo ..< virtual_bump_ptr h} = {}" using d(7,9) by blast
  then have "sl.holdings lo (virtual_bump_ptr h) (smalls live) (m', slab h)"
    by (intro sl.holdings_frame [OF d(2) f(3)]) blast
  then have inv': "heap_inv L T lo (live - {(Large ord, p)}) (m', h, b')"
    using f(2) d bm by (simp add: heap_inv_def)
  have "round_up 12 (rounded l) + 4095 < 2 ^ 64"
    using round_up_lt [of 12 "rounded l"] lo(5) by simp
  then obtain j where "size_to_order (round_up 12 (rounded l)) = Some (min j 10)" by (rule size_to_order_spec)
  then have "size_to_order (round_up 12 (rounded l)) = Some ord" using ro l(2) by (simp add: route_def)
  then have "heap_dealloc p l (m, h, b) = Some (m', h, b')"
    using l(2) lo(1,6) f(1) by (simp add: heap_dealloc_def)
  with that inv' f(3) show thesis by blast
qed

lemma heap_dealloc_ok:
  assumes inv: "heap_inv L T lo live (m, h, b)" and l: "layout_ok l k" and p: "(route l, p) \<in> live"
  obtains m' h' b' where "heap_dealloc p l (m, h, b) = Some (m', h', b')"
    "heap_inv L T lo (live - {(route l, p)}) (m', h', b')" "\<forall>x \<in> obj_all (live - {(route l, p)}). m' x = m x"
proof -
  note d = heap_invD [OF inv]
  have dj: "obj_bytes (route l, p) \<inter> obj_all (live - {(route l, p)}) = {}"
    using disjoint_family_onD [OF obj_apart [OF inv] p] unfolding obj_all_def by blast
  show thesis
  proof (cases "list_index (rounded l)")
    case (Some i)
    then have ro: "route l = Small i" by (simp add: route_def)
    from heap_dealloc_small [OF inv l Some p [unfolded ro]] obtain m' h' where f: "heap_dealloc p l (m, h, b) = Some (m', h', b)"
      "heap_inv L T lo (live - {(Small i, p)}) (m', h', b)" "agree_off (oblk (i, p)) m m'" .
    have "\<forall>x \<in> obj_all (live - {(Small i, p)}). m' x = m x"
      using f(3) dj [unfolded ro obj_bytes.simps] unfolding agree_off_def by blast
    with that f(1,2) show thesis unfolding ro by blast
  next
    case None
    then obtain ord where ro: "route l = Large ord" by (simp add: route_def)
    from heap_dealloc_large [OF inv l None ro p [unfolded ro]] obtain m' b' where f: "heap_dealloc p l (m, h, b) = Some (m', h, b')"
      "heap_inv L T lo (live - {(Large ord, p)}) (m', h, b')"
      "agree_off (T - live_bytes (larges live - {(ord, p)}) \<union> bitmap_bytes b) m m'" .
    have "live_bytes (larges live) \<inter> bitmap_bytes b = {}"
      using bd.ledgerD(5) [OF d(1)] unfolding live_bytes_def by fastforce
    moreover have "live_bytes (larges live - {(ord, p)}) \<subseteq> live_bytes (larges live)" unfolding live_bytes_def by blast
    ultimately have "x \<notin> T - live_bytes (larges live - {(ord, p)}) \<union> bitmap_bytes b"
      if "x \<in> obj_all (live - {(Large ord, p)})" for x
      using that d(7,8,9) unfolding obj_all_split larges_simps smalls_simps by blast
    then have "\<forall>x \<in> obj_all (live - {(Large ord, p)}). m' x = m x" using f(3) unfolding agree_off_def by blast
    with that f(1,2) show thesis unfolding ro by blast
  qed
qed

section \<open>Runs of the heap\<close>

text \<open>
  A run interleaves calls with writes of the kernel into the objects it holds.  The second
  component is the set of objects handed out and not yet given back.
\<close>

inductive heap_step :: "heap_st \<times> (obj \<times> usize) set \<Rightarrow> heap_st \<times> (obj \<times> usize) set \<Rightarrow> bool" where
  h_alloc: "layout_ok l k \<Longrightarrow> heap_alloc l s = Some (p, s') \<Longrightarrow> p \<noteq> 0 \<Longrightarrow>
    heap_step (s, live) (s', insert (route l, p) live)"
| h_null: "layout_ok l k \<Longrightarrow> heap_alloc l s = Some (0, s') \<Longrightarrow> heap_step (s, live) (s', live)"
| h_dealloc: "layout_ok l k \<Longrightarrow> (route l, p) \<in> live \<Longrightarrow> heap_dealloc p l s = Some s' \<Longrightarrow>
    heap_step (s, live) (s', live - {(route l, p)})"
| h_write: "agree_off (obj_all live) m m' \<Longrightarrow> heap_step ((m, h, b), live) ((m', h, b), live)"

lemma heap_inv_write:
  assumes inv: "heap_inv L T lo live (m, h, b)" and ag: "agree_off (obj_all live) m m'"
  shows "heap_inv L T lo live (m', h, b)"
proof -
  note d = heap_invD [OF inv]
  have off: "live_bytes (larges live) \<inter> bitmap_bytes b = {}"
    using bd.ledgerD(5) [OF d(1)] unfolding live_bytes_def by fastforce
  have "obj_all live \<inter> (T - live_bytes (larges live) \<union> bitmap_bytes b) = {}"
    unfolding obj_all_split using off d(7,8,9) by blast
  with bd.ainv_frame [OF _ ag] d(1) have "bd.ledger L T (larges live) (m', b)" by (simp add: bd.ledger_def)
  moreover have "obj_all live \<inter> {lo ..< virtual_bump_ptr h} \<subseteq> \<Union>(oblk ` smalls live)"
    unfolding obj_all_split using d(7,9,10) by blast
  then have "sl.holdings lo (virtual_bump_ptr h) (smalls live) (m', slab h)" by (rule sl.holdings_frame [OF d(2) ag])
  ultimately show ?thesis using inv by (simp add: heap_inv_def)
qed

lemma heap_step_inv:
  assumes "heap_step c c'" "heap_inv L T lo (snd c) (fst c)"
  shows "heap_inv L T lo (snd c') (fst c')"
  using assms
proof cases
  case (h_alloc l k s p s' live)
  obtain m h b where s: "s = (m, h, b)" by (cases s)
  have "heap_inv L T lo live (m, h, b)" using assms(2) h_alloc(1) s by simp
  then show ?thesis using h_alloc(3) unfolding h_alloc s
    by (cases rule: heap_alloc_cases [OF _ h_alloc(3)]) (use h_alloc s in \<open>auto simp: granted_def\<close>)
next
  case (h_null l k s s' live)
  obtain m h b where s: "s = (m, h, b)" by (cases s)
  have "heap_inv L T lo live (m, h, b)" using assms(2) h_null(1) s by simp
  then show ?thesis
    by (cases rule: heap_alloc_cases [OF _ h_null(3)]) (use h_null s assms(2) in \<open>auto simp: granted_def\<close>)
next
  case (h_dealloc l k p live s s')
  obtain m h b where s: "s = (m, h, b)" by (cases s)
  have "heap_inv L T lo live (m, h, b)" using assms(2) h_dealloc(1) s by simp
  from heap_dealloc_ok [OF this h_dealloc(3,4)] show ?thesis using h_dealloc s by (metis fst_conv option.inject snd_conv)
next
  case (h_write live m m' h b)
  then show ?thesis using assms(2) by (auto intro: heap_inv_write)
qed

lemma heap_run_inv: "heap_step\<^sup>*\<^sup>* c c' \<Longrightarrow> heap_inv L T lo (snd c) (fst c) \<Longrightarrow> heap_inv L T lo (snd c') (fst c')"
  by (induction rule: rtranclp_induct) (auto dest: heap_step_inv)

lemma heap_init_inv:
  assumes "bd.ledger L T {} (m, b)" "heap_init lo n heap_new = Some h" "4096 dvd lo" "lo \<noteq> 0" "lo + n + 4096 < 2 ^ 64"
    "{lo ..< lo + n} \<inter> (T \<union> bitmap_bytes b) = {}"
  shows "heap_inv L T lo {} (m, h, b)"
proof -
  have h: "h = \<lparr>slab = slab_new, virtual_bump_ptr = lo, heap_end = lo + n\<rparr>"
    using assms(2) by (simp add: heap_init_def heap_new_def uadd_def split: if_splits)
  have "slab_cinv {} (m, slab_new)" by (rule slab_new_cinv)
  then have "sl.holdings lo lo {} (m, slab_new)"
    using assms(4) by (auto simp: sl.holdings_def disjoint_family_on_def)
  then show ?thesis using assms unfolding h by (simp add: heap_inv_def)
qed

text \<open>A small heap at 1 MiB over the sample buddy allocator.\<close>

definition sample_heap :: heap_allocator where
  "sample_heap = \<lparr>slab = slab_new, virtual_bump_ptr = 1048576, heap_end = 1064960\<rparr>"

lemma sample_ledger: "bd.ledger (2 ^ 27) {4194304 ..< 8388608} {} (\<lambda>_. 0, sample_buddy)"
  using sample_inv sample_free_bytes by (auto simp: bd.ledger_def buddy_ainv_def live_apart_def)

lemma sample_heap_inv: "heap_inv (2 ^ 27) {4194304 ..< 8388608} 1048576 {} (\<lambda>_. 0, sample_heap, sample_buddy)"
proof (rule heap_init_inv [OF sample_ledger])
  show "heap_init 1048576 16384 heap_new = Some sample_heap"
    by (simp add: heap_init_def heap_new_def uadd_def sample_heap_def)
qed (auto simp: bitmap_bytes_def sample_buddy_def)

lemma sample_layout: "layout_ok \<lparr>lay_size = 24, lay_align = 8\<rparr> 3"
  by (simp add: layout_ok_def)

lemma sample_route: "rounded \<lparr>lay_size = 24, lay_align = 8\<rparr> = 24" "list_index 24 = Some 2"
  "route \<lparr>lay_size = 24, lay_align = 8\<rparr> = Small 2"
proof -
  show r: "rounded \<lparr>lay_size = 24, lay_align = 8\<rparr> = 24" "list_index 24 = Some 2"
    using layout_okD(1) [OF sample_layout]
    by (simp_all add: align_to_def uadd_def usub_def and_not_def list_index_def BLOCK_SIZES_def upt_rec)
  then show "route \<lparr>lay_size = 24, lay_align = 8\<rparr> = Small 2" by (simp add: route_def)
qed

lemma sample_alloc:
  obtains m h b where "heap_alloc \<lparr>lay_size = 24, lay_align = 8\<rparr> (\<lambda>_. 0, sample_heap, sample_buddy) = Some (1048576, (m, h, b))"
    "heap_inv (2 ^ 27) {4194304 ..< 8388608} 1048576 {(Small 2, 1048576)} (m, h, b)"
proof -
  let ?l = "\<lparr>lay_size = 24, lay_align = 8\<rparr>"
  have "fst (slab_alloc (rounded ?l) (\<lambda>_. 0, slab sample_heap)) = None"
    by (simp add: sample_route slab_alloc_def sample_heap_def slab_new_def)
  moreover have "list_index (rounded ?l) = Some 2" by (simp add: sample_route)
  ultimately obtain s where "heap_alloc ?l (\<lambda>_. 0, sample_heap, sample_buddy) = Some (1048576, s)"
    "granted (2 ^ 27) {4194304 ..< 8388608} 1048576 {} ?l 1048576 (\<lambda>_. 0) s"
    by (elim heap_alloc_miss [OF sample_heap_inv sample_layout]) (simp_all add: sample_heap_def)
  with that show thesis by (cases s) (auto simp: granted_def sample_route)
qed

section \<open>Properties\<close>

text \<open>
  C14. The heap hands out what the layout asks for.  On a heap whose live objects are \<open>live\<close>,
  \<^verbatim>\<open>alloc(layout)\<close> never panics for a layout \<^verbatim>\<open>core::alloc\<close> can build.  It returns null and changes
  nothing, or an address that is a multiple of the alignment, with at least the requested number
  of bytes in one object that overlaps no live object; the invariant holds with the object added
  and no byte of a live object has changed.
\<close>

theorem heap_alloc_correct:
  assumes "heap_inv L T lo live (m, h, b)" "layout_ok l k"
  shows "\<exists>p m' h' b'. heap_alloc l (m, h, b) = Some (p, (m', h', b')) \<and>
    (if p = 0 then (m', h', b') = (m, h, b)
     else lay_align l dvd p \<and> {p ..< p + lay_size l} \<subseteq> obj_bytes (route l, p) \<and>
       obj_bytes (route l, p) \<inter> obj_all live = {} \<and> heap_inv L T lo (insert (route l, p) live) (m', h', b') \<and>
       (\<forall>x \<in> obj_all live. m' x = m x))"
  using assms by (cases rule: heap_alloc_cases) (auto simp: granted_def)

theorem heap_alloc_correct_witness:
  "\<exists>m' h' b'. heap_alloc \<lparr>lay_size = 24, lay_align = 8\<rparr> (\<lambda>_. 0, sample_heap, sample_buddy) = Some (1048576, (m', h', b')) \<and>
     heap_inv (2 ^ 27) {4194304 ..< 8388608} 1048576 {(Small 2, 1048576)} (m', h', b')"
proof (rule sample_alloc)
  fix m h b
  assume run: "heap_alloc \<lparr>lay_size = 24, lay_align = 8\<rparr> (\<lambda>_. 0, sample_heap, sample_buddy) = Some (1048576, (m, h, b))"
  from heap_alloc_correct [OF sample_heap_inv sample_layout] run show ?thesis by (auto simp: sample_route)
qed

text \<open>
  C15. The heap takes back what it handed out.  \<^verbatim>\<open>dealloc(ptr, layout)\<close> of a live object, with a
  layout that is served by the same kind of object, never panics, removes exactly that object and
  leaves the bytes of all other objects as they are.
\<close>

theorem heap_dealloc_correct:
  assumes "heap_inv L T lo live (m, h, b)" "layout_ok l k" "(route l, p) \<in> live"
  shows "\<exists>m' h' b'. heap_dealloc p l (m, h, b) = Some (m', h', b') \<and>
    heap_inv L T lo (live - {(route l, p)}) (m', h', b') \<and> (\<forall>x \<in> obj_all (live - {(route l, p)}). m' x = m x)"
  by (rule heap_dealloc_ok [OF assms]) blast

theorem heap_dealloc_correct_witness:
  "\<exists>p s s'. heap_alloc \<lparr>lay_size = 24, lay_align = 8\<rparr> (\<lambda>_. 0, sample_heap, sample_buddy) = Some (p, s) \<and> p \<noteq> 0 \<and>
     heap_dealloc p \<lparr>lay_size = 24, lay_align = 8\<rparr> s = Some s'"
proof (rule sample_alloc)
  fix m h b
  assume run: "heap_alloc \<lparr>lay_size = 24, lay_align = 8\<rparr> (\<lambda>_. 0, sample_heap, sample_buddy) = Some (1048576, (m, h, b))"
    and inv: "heap_inv (2 ^ 27) {4194304 ..< 8388608} 1048576 {(Small 2, 1048576)} (m, h, b)"
  from heap_dealloc_correct [OF inv sample_layout] run show ?thesis by (fastforce simp: sample_route)
qed

text \<open>
  C17. When the heap returns null.  A small request is refused exactly when its slab list is empty
  and the heap window has no page left; a large one exactly when it exceeds 4 MiB after rounding
  to pages or the buddy allocator has no block of the order.
\<close>

theorem heap_alloc_null_iff:
  assumes "heap_inv L T lo live (m, h, b)" "layout_ok l k"
  shows "heap_alloc l (m, h, b) = Some (0, (m, h, b)) \<longleftrightarrow>
    (case list_index (rounded l) of
       Some i \<Rightarrow> list_heads (slab h) ! i = 0 \<and> heap_end h < virtual_bump_ptr h + 4096
     | None \<Rightarrow> 4194304 < round_up 12 (rounded l) \<or>
         (\<exists>ord. size_to_order (round_up 12 (rounded l)) = Some ord \<and> buddy_alloc ord (m, b) = Some (None, (m, b))))"
proof (cases "list_index (rounded l)")
  case None
  note lo = layout_okD [OF assms(2)] and d = heap_invD [OF assms(1)]
  show ?thesis
  proof (cases "round_up 12 (rounded l) \<le> 4194304")
    case True
    from assms(2) None True obtain ord where ord: "size_to_order (round_up 12 (rounded l)) = Some ord" "ord \<le> 10"
      by (rule route_Large) blast
    have ainv: "buddy_ainv L (T - live_bytes (larges live)) (m, b)" using d(1) by (simp add: bd.ledger_def)
    obtain r m' b' where r: "buddy_alloc ord (m, b) = Some (r, (m', b'))" using bd.alloc_total [OF ainv] by fastforce
    have "p \<noteq> 0" if "r = Some p" for p using bd.alloc_Some [OF ainv ord(2)] r that bd.valid_block by blast
    then show ?thesis using None True lo(1,6) ord(1) r bd.alloc_None [OF ainv]
      by (cases r) (auto simp: heap_alloc_def)
  next
    case False
    then show ?thesis using None lo(1,6) by (simp add: heap_alloc_def)
  qed
next
  case (Some i)
  note d = heap_invD [OF assms(1)]
  obtain r m' s' where r: "slab_alloc (rounded l) (m, slab h) = (r, (m', s'))" by (metis prod_cases3)
  have hd: "list_heads (slab h) ! i = 0 \<longleftrightarrow> r = None" using r by (auto simp: slab_alloc_eq [OF Some] split: if_splits)
  show ?thesis
  proof (cases r)
    case None
    then have miss: "fst (slab_alloc (rounded l) (m, slab h)) = None" using r by simp
    have "virtual_bump_ptr h \<noteq> 0" using d(2,4) by (simp add: sl.holdings_def)
    moreover have "\<exists>st. heap_alloc l (m, h, b) = Some (virtual_bump_ptr h, st)" if "virtual_bump_ptr h + 4096 \<le> heap_end h"
      by (rule heap_alloc_miss [OF assms Some miss that]) blast
    moreover note heap_alloc_small_null [OF assms Some miss]
    ultimately show ?thesis using hd None Some by (cases "virtual_bump_ptr h + 4096 \<le> heap_end h") auto
  next
    case (Some p)
    then show ?thesis using heap_alloc_hit [OF assms \<open>list_index (rounded l) = Some i\<close>] r hd
      by (auto simp: granted_def \<open>list_index (rounded l) = Some i\<close>)
  qed
qed

theorem heap_alloc_null_iff_witness:
  "heap_alloc \<lparr>lay_size = 24, lay_align = 8\<rparr> (\<lambda>_. 0, sample_heap, sample_buddy) \<noteq> Some (0, (\<lambda>_. 0, sample_heap, sample_buddy))"
  using heap_alloc_null_iff [OF sample_heap_inv sample_layout] by (simp add: sample_route sample_heap_def)



end
