(* ===== verification/Locks.thy ===== *)
theory Locks
  imports Main
begin

text \<open>
  The interrupt-safe lock \<^verbatim>\<open>Locked<A>\<close> of \<^verbatim>\<open>src/mm/allocator.rs\<close> and its guard, as one CPU uses
  several of them.  The interrupt instructions and the spin lock come from the crates
  \<^verbatim>\<open>x86_64\<close> and \<^verbatim>\<open>spin\<close>: they are parameters of the model, and what the code relies on is stated
  as the hypotheses \<open>irq_laws\<close> and \<open>mutex_laws\<close>.
\<close>

section \<open>The code\<close>

record 'c irq_ops =
  are_enabled :: "'c \<Rightarrow> bool"
  irq_disable :: "'c \<Rightarrow> 'c"
  irq_enable :: "'c \<Rightarrow> 'c"

text \<open>\<open>mutex_lock\<close> is \<open>None\<close> as long as the call spins.\<close>

record 'm mutex_ops =
  is_locked :: "'m \<Rightarrow> bool"
  mutex_lock :: "'m \<Rightarrow> 'm option"
  mutex_unlock :: "'m \<Rightarrow> 'm"

definition irq_laws :: "'c irq_ops \<Rightarrow> bool" where
  "irq_laws I \<longleftrightarrow> (\<forall>c. \<not> are_enabled I (irq_disable I c)) \<and> (\<forall>c. are_enabled I (irq_enable I c))"

definition mutex_laws :: "'m mutex_ops \<Rightarrow> bool" where
  "mutex_laws M \<longleftrightarrow> (\<forall>m m'. mutex_lock M m = Some m' \<longrightarrow> \<not> is_locked M m \<and> is_locked M m') \<and>
     (\<forall>m. \<not> is_locked M (mutex_unlock M m))"

text \<open>A guard: the lock it belongs to, whether \<^verbatim>\<open>inner\<close> still is \<^verbatim>\<open>Some\<close>, and the saved state.\<close>

record irq_guard =
  glock :: nat
  ginner :: bool
  interrupts_were_enabled :: bool

record ('c, 'm) lock_st =
  cpu :: 'c
  mutexes :: "nat \<Rightarrow> 'm"

definition locked_lock :: "'c irq_ops \<Rightarrow> 'm mutex_ops \<Rightarrow> nat \<Rightarrow> ('c, 'm) lock_st \<Rightarrow> (irq_guard \<times> ('c, 'm) lock_st) option" where
  "locked_lock I M l s =
     (let saved_state = are_enabled I (cpu s);
          c = (if saved_state then irq_disable I (cpu s) else cpu s) in
      case mutex_lock M (mutexes s l) of
        None \<Rightarrow> None
      | Some m \<Rightarrow> Some (\<lparr>glock = l, ginner = True, interrupts_were_enabled = saved_state\<rparr>,
                       s\<lparr>cpu := c, mutexes := (mutexes s)(l := m)\<rparr>))"

text \<open>\<^verbatim>\<open>deref\<close> and \<^verbatim>\<open>deref_mut\<close>: the lock whose data the guard gives access to, or a panic.\<close>

definition guard_deref :: "irq_guard \<Rightarrow> nat option" where
  "guard_deref g = (if ginner g then Some (glock g) else None)"

text \<open>\<^verbatim>\<open>drop\<close>: taking \<^verbatim>\<open>inner\<close> out releases the spin lock, then the saved state is restored.\<close>

definition guard_take :: "'m mutex_ops \<Rightarrow> irq_guard \<Rightarrow> ('c, 'm) lock_st \<Rightarrow> irq_guard \<times> ('c, 'm) lock_st" where
  "guard_take M g s =
     (g\<lparr>ginner := False\<rparr>,
      if ginner g then s\<lparr>mutexes := (mutexes s)(glock g := mutex_unlock M (mutexes s (glock g)))\<rparr> else s)"

definition guard_restore :: "'c irq_ops \<Rightarrow> irq_guard \<Rightarrow> ('c, 'm) lock_st \<Rightarrow> ('c, 'm) lock_st" where
  "guard_restore I g s = (if interrupts_were_enabled g then s\<lparr>cpu := irq_enable I (cpu s)\<rparr> else s)"

section \<open>Nested guards\<close>

text \<open>
  One CPU with its guards, the innermost first.  Guards are dropped in the reverse order of their
  creation, in two steps; other CPUs may lock and unlock the mutexes this one does not hold.
\<close>

definition held :: "irq_guard list \<Rightarrow> nat set" where
  "held gs = glock ` {g \<in> set gs. ginner g}"

inductive lock_step ::
  "'c irq_ops \<Rightarrow> 'm mutex_ops \<Rightarrow> irq_guard list \<times> ('c, 'm) lock_st \<Rightarrow> irq_guard list \<times> ('c, 'm) lock_st \<Rightarrow> bool"
  for I M where
  lk_lock: "list_all ginner gs \<Longrightarrow> locked_lock I M l s = Some (g, s') \<Longrightarrow> lock_step I M (gs, s) (g # gs, s')"
| lk_take: "ginner g \<Longrightarrow> guard_take M g s = (g', s') \<Longrightarrow> lock_step I M (g # gs, s) (g' # gs, s')"
| lk_restore: "\<not> ginner g \<Longrightarrow> lock_step I M (g # gs, s) (gs, guard_restore I g s)"
| lk_other: "\<forall>l \<in> held gs. ms l = mutexes s l \<Longrightarrow> lock_step I M (gs, s) (gs, s\<lparr>mutexes := ms\<rparr>)"

definition lock_inv :: "'c irq_ops \<Rightarrow> 'm mutex_ops \<Rightarrow> bool \<Rightarrow> irq_guard list \<times> ('c, 'm) lock_st \<Rightarrow> bool" where
  "lock_inv I M flag = (\<lambda>(gs, s).
     (if gs = [] then are_enabled I (cpu s) = flag
      else \<not> are_enabled I (cpu s) \<and> interrupts_were_enabled (last gs) = flag \<and>
        (\<forall>g \<in> set (butlast gs). \<not> interrupts_were_enabled g) \<and> list_all ginner (tl gs)) \<and>
     (\<forall>l \<in> held gs. is_locked M (mutexes s l)) \<and> distinct (map glock (filter ginner gs)))"

lemma held_simps [simp]:
  "held [] = {}" "ginner g \<Longrightarrow> held (g # gs) = insert (glock g) (held gs)" "\<not> ginner g \<Longrightarrow> held (g # gs) = held gs"
  by (auto simp: held_def)

lemma held_set: "held gs = set (map glock (filter ginner gs))"
  by (auto simp: held_def)

lemma lock_step_inv:
  assumes laws: "irq_laws I" "mutex_laws M" and st: "lock_step I M c c'" and inv: "lock_inv I M flag c"
  shows "lock_inv I M flag c'"
  using st
proof cases
  case (lk_lock gs l s g s')
  then obtain m where m: "mutex_lock M (mutexes s l) = Some m" and g: "glock g = l" "ginner g"
      "interrupts_were_enabled g = are_enabled I (cpu s)"
    and s': "s' = s\<lparr>cpu := if are_enabled I (cpu s) then irq_disable I (cpu s) else cpu s, mutexes := (mutexes s)(l := m)\<rparr>"
    by (auto simp: locked_lock_def Let_def split: option.splits)
  have new: "l \<notin> held gs" "is_locked M m" using inv lk_lock(1) m laws(2) by (auto simp: lock_inv_def mutex_laws_def)
  then show ?thesis using inv lk_lock g laws(1) unfolding s'
    by (cases gs) (auto simp: lock_inv_def irq_laws_def held_set)
next
  case (lk_take g s g' s' gs)
  then have g': "g' = g\<lparr>ginner := False\<rparr>"
    and s': "s' = s\<lparr>mutexes := (mutexes s)(glock g := mutex_unlock M (mutexes s (glock g)))\<rparr>"
    by (simp_all add: guard_take_def)
  have new: "glock g \<notin> held gs" using inv lk_take(1,3) by (simp add: lock_inv_def held_set)
  have old: "\<forall>l \<in> held gs. is_locked M (mutexes s l)" "distinct (map glock (filter ginner gs))"
    using inv lk_take(1,3) by (simp_all add: lock_inv_def)
  have "held (g' # gs) = held gs" unfolding g' by simp
  moreover have "\<forall>l \<in> held gs. is_locked M (mutexes s' l)" using old(1) new unfolding s' by auto
  moreover have "distinct (map glock (filter ginner (g' # gs)))" using old(2) unfolding g' by simp
  moreover have "\<not> are_enabled I (cpu s')" "interrupts_were_enabled (last (g' # gs)) = flag"
      "\<forall>x \<in> set (butlast (g' # gs)). \<not> interrupts_were_enabled x" "list_all ginner (tl (g' # gs))"
    using inv lk_take(1) unfolding g' s' by (simp_all add: lock_inv_def split: if_splits)
  ultimately show ?thesis unfolding lk_take(2) lock_inv_def by simp
next
  case (lk_restore g gs s)
  then show ?thesis using inv laws(1)
    by (cases gs) (auto simp: lock_inv_def guard_restore_def irq_laws_def)
next
  case (lk_other gs ms s)
  then show ?thesis using inv by (auto simp: lock_inv_def)
qed

lemma lock_run_inv:
  assumes "irq_laws I" "mutex_laws M" "(lock_step I M)\<^sup>*\<^sup>* c c'" "lock_inv I M flag c"
  shows "lock_inv I M flag c'"
  using assms(3,4) by (induction rule: rtranclp_induct) (auto intro: lock_step_inv [OF assms(1,2)])

section \<open>Properties\<close>


definition sample_irq :: "bool irq_ops" where
  "sample_irq = \<lparr>are_enabled = (\<lambda>c. c), irq_disable = (\<lambda>_. False), irq_enable = (\<lambda>_. True)\<rparr>"

definition sample_mutex :: "bool mutex_ops" where
  "sample_mutex = \<lparr>is_locked = (\<lambda>m. m), mutex_lock = (\<lambda>m. if m then None else Some True), mutex_unlock = (\<lambda>_. False)\<rparr>"


end
