(* ===== verification/Paging.thy ===== *)
theory Paging
  imports Frames_Spec
begin

text \<open>
  The page tables of \<^verbatim>\<open>src/mm/paging.rs\<close>: mapping, unmapping and translating pages, and creating
  and destroying the address space of a user process.

  Page-table entries and virtual addresses are types of the crate \<^verbatim>\<open>x86_64\<close>.  Its functions are
  the fields of \<open>pt_ops\<close>, a parameter of the model; what the code relies on is the hypothesis
  \<open>pt_laws\<close>.  A \<^verbatim>\<open>PageTable\<close> is 512 consecutive 64-bit entries.  A \<^verbatim>\<open>Page\<close> and a \<^verbatim>\<open>PhysFrame\<close> are
  given by their start address; the value of \<^verbatim>\<open>CR3\<close> is an argument.  The memory model has no TLB,
  so the flushes after a change have no counterpart.
\<close>

section \<open>Entries\<close>

datatype pt_flag = PRESENT | WRITABLE | USER_ACCESSIBLE | WRITE_THROUGH | NO_CACHE | HUGE_PAGE | NO_EXECUTE

record pt_ops =
  is_unused :: "nat \<Rightarrow> bool"
  pte_addr :: "nat \<Rightarrow> usize"
  pte_flags :: "nat \<Rightarrow> pt_flag set"
  set_addr :: "usize \<Rightarrow> pt_flag set \<Rightarrow> nat"
  set_flags :: "nat \<Rightarrow> pt_flag set \<Rightarrow> nat"
  p_index :: "nat \<Rightarrow> usize \<Rightarrow> nat"
  phys_addr_new :: "nat \<Rightarrow> nat option"
  virt_addr_new :: "nat \<Rightarrow> nat option"

text \<open>
  The documented behaviour of the crate: an unused entry is zero; an entry keeps the page-aligned
  address and the flags stored in it, and changing the flags keeps the address; \<^verbatim>\<open>pN_index\<close> is the
  \<open>N\<close>-th nine-bit group above the page offset; physical addresses have 52 bits; virtual
  addresses are canonical.
\<close>

definition canonical :: "nat \<Rightarrow> bool" where
  "canonical a \<longleftrightarrow> a < 2 ^ 47 \<or> (2 ^ 64 - 2 ^ 47 \<le> a \<and> a < 2 ^ 64)"

definition pt_laws :: "pt_ops \<Rightarrow> bool" where
  "pt_laws P \<longleftrightarrow>
     (\<forall>e. is_unused P e \<longleftrightarrow> e = 0) \<and> pte_flags P 0 = {} \<and>
     (\<forall>a f. 4096 dvd a \<longrightarrow> a < 2 ^ 52 \<longrightarrow>
        pte_addr P (set_addr P a f) = a \<and> pte_flags P (set_addr P a f) = f \<and> set_addr P a f < 2 ^ 64) \<and>
     (\<forall>e f. e < 2 ^ 64 \<longrightarrow>
        pte_addr P (set_flags P e f) = pte_addr P e \<and> pte_flags P (set_flags P e f) = f \<and> set_flags P e f < 2 ^ 64) \<and>
     (\<forall>l a. p_index P l a = a div 2 ^ (12 + 9 * (l - 1)) mod 512) \<and>
     (\<forall>a. a < 2 ^ 52 \<longrightarrow> phys_addr_new P a = Some a) \<and>
     (\<forall>a. canonical a \<longrightarrow> virt_addr_new P a = Some a)"

section \<open>The code\<close>

definition slot :: "usize \<Rightarrow> nat \<Rightarrow> usize" where
  "slot table i = table + 8 * i"

datatype map_error = FrameAllocationFailed | PageAlreadyMapped usize

definition active_level_4_table :: "usize \<Rightarrow> usize option" where
  "active_level_4_table cr3 = uadd cr3 PHYS_OFFSET"

text \<open>
  One of the three upper levels of \<^verbatim>\<open>map_to\<close>, which have the same code: create the next table or
  widen the flags of its entry, and return the address of the next table.
\<close>

definition map_level :: "pt_ops \<Rightarrow> pt_flag set \<Rightarrow> usize \<Rightarrow> nat \<Rightarrow> buddy_st \<Rightarrow> ((map_error + usize) \<times> buddy_st) option" where
  "map_level P flags table i = (\<lambda>(m, b).
     let entry = rd64 m (slot table i) in do {
       (ok, (m, b)) \<leftarrow>
         (if is_unused P entry then do {
            (frame_addr, (m, b)) \<leftarrow> allocate_zeroed_frame (m, b);
            (case frame_addr of
               Some frame_addr \<Rightarrow> do {
                 phy_addr \<leftarrow> phys_addr_new P frame_addr;
                 let table_flags = {PRESENT, WRITABLE, USER_ACCESSIBLE};
                 Some (True, (wr64 m (slot table i) (set_addr P phy_addr table_flags), b))
               }
             | None \<Rightarrow> Some (False, (m, b)))
          } else
            (let required_flags = flags \<inter> {PRESENT, WRITABLE, USER_ACCESSIBLE} in
             Some (True, (wr64 m (slot table i) (set_flags P entry (pte_flags P entry \<union> required_flags)), b))));
       if ok then do {
         virtual_addr \<leftarrow> uadd (pte_addr P (rd64 m (slot table i))) PHYS_OFFSET;
         Some (Inr virtual_addr, (m, b))
       } else Some (Inl FrameAllocationFailed, (m, b))
     })"

definition map_to :: "pt_ops \<Rightarrow> usize \<Rightarrow> usize \<Rightarrow> pt_flag set \<Rightarrow> usize \<Rightarrow> buddy_st \<Rightarrow> ((map_error + unit) \<times> buddy_st) option" where
  "map_to P pg frame flags p4_table s = do {
     (r, s) \<leftarrow> map_level P flags p4_table (p_index P 4 pg) s;
     (case r of
        Inl e \<Rightarrow> Some (Inl e, s)
      | Inr p3_table \<Rightarrow> do {
          (r, s) \<leftarrow> map_level P flags p3_table (p_index P 3 pg) s;
          (case r of
             Inl e \<Rightarrow> Some (Inl e, s)
           | Inr p2_table \<Rightarrow> do {
               (r, s) \<leftarrow> map_level P flags p2_table (p_index P 2 pg) s;
               (case r of
                  Inl e \<Rightarrow> Some (Inl e, s)
                | Inr p1_table \<Rightarrow>
                    (let p1_entry = slot p1_table (p_index P 1 pg) in
                     if \<not> is_unused P (rd64 (fst s) p1_entry) then Some (Inl (PageAlreadyMapped frame), s)
                     else Some (Inr (), (wr64 (fst s) p1_entry (set_addr P frame (flags \<union> {PRESENT})), snd s))))
             })
        })
   }"

definition unmap :: "pt_ops \<Rightarrow> usize \<Rightarrow> usize \<Rightarrow> mem \<Rightarrow> (usize option \<times> mem) option" where
  "unmap P pg p4_table m =
     (let p4_entry = rd64 m (slot p4_table (p_index P 4 pg)) in
      if PRESENT \<notin> pte_flags P p4_entry then Some (None, m)
      else do {
        p3_table \<leftarrow> uadd (pte_addr P p4_entry) PHYS_OFFSET;
        let p3_entry = rd64 m (slot p3_table (p_index P 3 pg));
        if PRESENT \<notin> pte_flags P p3_entry then Some (None, m)
        else do {
          p2_table \<leftarrow> uadd (pte_addr P p3_entry) PHYS_OFFSET;
          let p2_entry = rd64 m (slot p2_table (p_index P 2 pg));
          if PRESENT \<notin> pte_flags P p2_entry then Some (None, m)
          else do {
            p1_table \<leftarrow> uadd (pte_addr P p2_entry) PHYS_OFFSET;
            let p1_entry = rd64 m (slot p1_table (p_index P 1 pg));
            if PRESENT \<notin> pte_flags P p1_entry then Some (None, m)
            else Some (Some (mask_low 12 (pte_addr P p1_entry)), wr64 m (slot p1_table (p_index P 1 pg)) 0)
          }
        }
      })"

definition translate_addr :: "pt_ops \<Rightarrow> usize \<Rightarrow> usize \<Rightarrow> mem \<Rightarrow> usize option option" where
  "translate_addr P cr3 virt_addr m = do {
     p4_table \<leftarrow> active_level_4_table cr3;
     let p4_entry = rd64 m (slot p4_table (p_index P 4 virt_addr));
     if is_unused P p4_entry then Some None
     else do {
       p3_table \<leftarrow> uadd (pte_addr P p4_entry) PHYS_OFFSET;
       let p3_entry = rd64 m (slot p3_table (p_index P 3 virt_addr));
       if is_unused P p3_entry then Some None
       else do {
         p2_table \<leftarrow> uadd (pte_addr P p3_entry) PHYS_OFFSET;
         let p2_entry = rd64 m (slot p2_table (p_index P 2 virt_addr));
         if is_unused P p2_entry then Some None
         else if HUGE_PAGE \<in> pte_flags P p2_entry then do {
           let huge_offset = virt_addr mod 2 ^ 21;
           t \<leftarrow> uadd (pte_addr P p2_entry) huge_offset;
           a \<leftarrow> phys_addr_new P t;
           Some (Some a)
         } else do {
           p1_table \<leftarrow> uadd (pte_addr P p2_entry) PHYS_OFFSET;
           let p1_entry = rd64 m (slot p1_table (p_index P 1 virt_addr));
           if is_unused P p1_entry then Some None
           else do {
             let frame_base = pte_addr P p1_entry;
             let page_offset = virt_addr mod 2 ^ 12;
             t \<leftarrow> uadd frame_base page_offset;
             a \<leftarrow> phys_addr_new P t;
             Some (Some a)
           }
         }
       }
     }
   }"

text \<open>The copy loop over the kernel half, entries 256 to 511.\<close>

fun copy_entries :: "nat list \<Rightarrow> usize \<Rightarrow> usize \<Rightarrow> mem \<Rightarrow> mem" where
  "copy_entries [] from_table to_table m = m"
| "copy_entries (i # is) from_table to_table m =
     copy_entries is from_table to_table (wr64 m (slot to_table i) (rd64 m (slot from_table i)))"

definition create_user_address_space :: "pt_ops \<Rightarrow> usize \<Rightarrow> buddy_st \<Rightarrow> (usize option \<times> buddy_st) option" where
  "create_user_address_space P cr3 s = do {
     (frame, (m, b)) \<leftarrow> allocate_zeroed_frame s;
     (case frame of
        None \<Rightarrow> Some (None, (m, b))
      | Some frame \<Rightarrow> do {
          t \<leftarrow> uadd frame PHYS_OFFSET;
          p4_table \<leftarrow> virt_addr_new P t;
          active_pml4 \<leftarrow> active_level_4_table cr3;
          let m = copy_entries [256..<512] active_pml4 p4_table m;
          a \<leftarrow> phys_addr_new P frame;
          Some (Some a, (m, b))
        })
   }"

text \<open>
  The four loops of \<^verbatim>\<open>destroy_user_address_space\<close>, innermost first: each visits the entries of a
  table, and the outer three free the table below once its entries are done.
\<close>

fun free_pt :: "pt_ops \<Rightarrow> nat list \<Rightarrow> usize \<Rightarrow> buddy_st \<Rightarrow> buddy_st option" where
  "free_pt P [] pt s = Some s"
| "free_pt P (l # ls) pt s =
     (let pt_entry = rd64 (fst s) (slot pt l) in
      if PRESENT \<in> pte_flags P pt_entry then do {
        let frame_phys = pte_addr P pt_entry;
        s \<leftarrow> clear_frame frame_phys (wr64 (fst s) (slot pt l) 0, snd s);
        free_pt P ls pt s
      } else free_pt P ls pt s)"

fun free_pd :: "pt_ops \<Rightarrow> nat list \<Rightarrow> usize \<Rightarrow> buddy_st \<Rightarrow> buddy_st option" where
  "free_pd P [] pd s = Some s"
| "free_pd P (k # ks) pd s =
     (let pd_entry = rd64 (fst s) (slot pd k) in
      if PRESENT \<in> pte_flags P pd_entry then do {
        let pt_phys = pte_addr P pd_entry;
        pt_vaddr \<leftarrow> uadd pt_phys PHYS_OFFSET;
        s \<leftarrow> free_pt P [0..<512] pt_vaddr s;
        s \<leftarrow> clear_frame pt_phys s;
        free_pd P ks pd s
      } else free_pd P ks pd s)"

fun free_pdpt :: "pt_ops \<Rightarrow> nat list \<Rightarrow> usize \<Rightarrow> buddy_st \<Rightarrow> buddy_st option" where
  "free_pdpt P [] pdpt s = Some s"
| "free_pdpt P (j # js) pdpt s =
     (let pdpt_entry = rd64 (fst s) (slot pdpt j) in
      if PRESENT \<in> pte_flags P pdpt_entry then do {
        let pd_phys = pte_addr P pdpt_entry;
        pd_vaddr \<leftarrow> uadd pd_phys PHYS_OFFSET;
        s \<leftarrow> free_pd P [0..<512] pd_vaddr s;
        s \<leftarrow> clear_frame pd_phys s;
        free_pdpt P js pdpt s
      } else free_pdpt P js pdpt s)"

fun free_pml4 :: "pt_ops \<Rightarrow> nat list \<Rightarrow> usize \<Rightarrow> buddy_st \<Rightarrow> buddy_st option" where
  "free_pml4 P [] pml4 s = Some s"
| "free_pml4 P (i # is) pml4 s =
     (let pml4_entry = rd64 (fst s) (slot pml4 i) in
      if PRESENT \<in> pte_flags P pml4_entry then do {
        let pdpt_phys = pte_addr P pml4_entry;
        pdpt_vaddr \<leftarrow> uadd pdpt_phys PHYS_OFFSET;
        s \<leftarrow> free_pdpt P [0..<512] pdpt_vaddr s;
        s \<leftarrow> clear_frame pdpt_phys s;
        free_pml4 P is pml4 s
      } else free_pml4 P is pml4 s)"

definition destroy_user_address_space :: "pt_ops \<Rightarrow> usize \<Rightarrow> buddy_st \<Rightarrow> buddy_st option" where
  "destroy_user_address_space P pml4_phys s = do {
     pml4_vaddr \<leftarrow> uadd pml4_phys PHYS_OFFSET;
     s \<leftarrow> free_pml4 P [0..<256] pml4_vaddr s;
     clear_frame pml4_phys s
   }"

section \<open>The tree of tables\<close>

text \<open>
  Ghost state: \<open>T p\<close> is the physical address of the table (or, for paths of length four, of the
  mapped frame) that the indices \<open>p\<close> lead to from the root.  \<open>I\<close> are the root entries under
  consideration, for instance the user half.
\<close>

type_synonym pt_tree = "nat list \<Rightarrow> usize option"

definition entry_ok :: "pt_ops \<Rightarrow> nat \<Rightarrow> usize option \<Rightarrow> nat \<Rightarrow> bool" where
  "entry_ok P n t e = (case t of
     None \<Rightarrow> e = 0
   | Some c \<Rightarrow> PRESENT \<in> pte_flags P e \<and> pte_addr P e = c \<and> (n = 2 \<longrightarrow> HUGE_PAGE \<notin> pte_flags P e))"

definition pt_shape :: "nat set \<Rightarrow> pt_tree \<Rightarrow> bool" where
  "pt_shape I T \<longleftrightarrow> T [] \<noteq> None \<and>
     (\<forall>p a. T p = Some a \<longrightarrow> length p \<le> 4 \<and> 4096 dvd a \<and> a < 2 ^ 52) \<and>
     (\<forall>p i. T (p @ [i]) \<noteq> None \<longrightarrow> T p \<noteq> None \<and> i < 512 \<and> (p = [] \<longrightarrow> i \<in> I)) \<and>
     (\<forall>p q a. T p = Some a \<longrightarrow> T q = Some a \<longrightarrow> length p < 4 \<longrightarrow> length q < 4 \<longrightarrow> p = q)"

definition pt_mem :: "pt_ops \<Rightarrow> nat set \<Rightarrow> pt_tree \<Rightarrow> mem \<Rightarrow> bool" where
  "pt_mem P I T m \<longleftrightarrow> (\<forall>p a i. T p = Some a \<longrightarrow> length p < 4 \<longrightarrow> i < 512 \<longrightarrow> (p = [] \<longrightarrow> i \<in> I) \<longrightarrow>
     entry_ok P (length p) (T (p @ [i])) (rd64 m (slot (a + PHYS_OFFSET) i)))"

definition tables :: "pt_tree \<Rightarrow> usize set" where
  "tables T = {a. \<exists>p. T p = Some a \<and> length p < 4}"

definition pt_placed :: "nat \<Rightarrow> pt_tree \<Rightarrow> nat set \<Rightarrow> buddy_allocator \<Rightarrow> bool" where
  "pt_placed L T F b \<longleftrightarrow> (\<forall>a \<in> tables T. frame_valid L b a \<and> page a \<inter> F = {})"

definition pt_inv :: "pt_ops \<Rightarrow> nat set \<Rightarrow> nat \<Rightarrow> pt_tree \<Rightarrow> nat set \<Rightarrow> buddy_st \<Rightarrow> bool" where
  "pt_inv P I L T F s \<longleftrightarrow> frame_inv L F s \<and> pt_shape I T \<and> pt_mem P I T (fst s) \<and> pt_placed L T F (snd s)"

lemma pt_lawsD:
  assumes "pt_laws P"
  shows "is_unused P e \<longleftrightarrow> e = 0" "pte_flags P 0 = {}"
    "4096 dvd a \<Longrightarrow> a < 2 ^ 52 \<Longrightarrow> pte_addr P (set_addr P a f) = a"
    "4096 dvd a \<Longrightarrow> a < 2 ^ 52 \<Longrightarrow> pte_flags P (set_addr P a f) = f"
    "4096 dvd a \<Longrightarrow> a < 2 ^ 52 \<Longrightarrow> set_addr P a f < 2 ^ 64"
    "e < 2 ^ 64 \<Longrightarrow> pte_addr P (set_flags P e f) = pte_addr P e" "e < 2 ^ 64 \<Longrightarrow> pte_flags P (set_flags P e f) = f"
    "e < 2 ^ 64 \<Longrightarrow> set_flags P e f < 2 ^ 64" "p_index P l a = a div 2 ^ (12 + 9 * (l - 1)) mod 512"
    "a < 2 ^ 52 \<Longrightarrow> phys_addr_new P a = Some a" "canonical a \<Longrightarrow> virt_addr_new P a = Some a"
  using assms by (simp_all add: pt_laws_def)

lemma entry_ok_zero:
  assumes "pt_laws P" "entry_ok P n t e"
  shows "e = 0 \<longleftrightarrow> t = None"
proof (cases t)
  case (Some c)
  then have "PRESENT \<in> pte_flags P e" using assms(2) by (simp add: entry_ok_def)
  then have "e \<noteq> 0" using pt_lawsD(2) [OF assms(1)] by (metis empty_iff)
  then show ?thesis using Some by simp
qed (use assms(2) in \<open>simp add: entry_ok_def\<close>)

lemma p_index_lt: "pt_laws P \<Longrightarrow> p_index P l a < 512"
  by (simp add: pt_lawsD(9))

lemma slot_page: "i < 512 \<Longrightarrow> slot (a + PHYS_OFFSET) i \<le> x \<Longrightarrow> x < slot (a + PHYS_OFFSET) i + 8 \<Longrightarrow> x \<in> page a"
  by (simp add: slot_def page_iff)

lemma slots_apart:
  assumes "4096 dvd a" "4096 dvd c" "i < 512" "j < 512" "(a, i) \<noteq> (c, j)"
  shows "slot (a + PHYS_OFFSET) i + 8 \<le> slot (c + PHYS_OFFSET) j \<or> slot (c + PHYS_OFFSET) j + 8 \<le> slot (a + PHYS_OFFSET) i"
proof -
  consider "a = c" | "a + 4096 \<le> c" | "c + 4096 \<le> a"
    using page_gap [OF assms(1,2)] page_gap [OF assms(2,1)] by linarith
  then show ?thesis
  proof cases
    case 1
    then show ?thesis using assms(5) by (auto simp: slot_def)
  qed (use assms(3,4) in \<open>simp_all add: slot_def\<close>)
qed

lemma pt_shapeD:
  assumes "pt_shape I T"
  shows "T p = Some a \<Longrightarrow> length p \<le> 4" "T p = Some a \<Longrightarrow> 4096 dvd a" "T p = Some a \<Longrightarrow> a < 2 ^ 52"
    "T (p @ [i]) = Some c \<Longrightarrow> \<exists>a. T p = Some a" "T (p @ [i]) = Some c \<Longrightarrow> i < 512" "T [i] = Some c \<Longrightarrow> i \<in> I"
    "T p = Some a \<Longrightarrow> T q = Some a \<Longrightarrow> length p < 4 \<Longrightarrow> length q < 4 \<Longrightarrow> p = q" "\<exists>r. T [] = Some r"
proof -
  note d = assms [unfolded pt_shape_def]
  show "T p = Some a \<Longrightarrow> length p \<le> 4" "T p = Some a \<Longrightarrow> 4096 dvd a" "T p = Some a \<Longrightarrow> a < 2 ^ 52" using d by blast+
  show "T (p @ [i]) = Some c \<Longrightarrow> \<exists>a. T p = Some a" "T (p @ [i]) = Some c \<Longrightarrow> i < 512"
    using d by (metis not_Some_eq option.distinct(1))+
  show "T [i] = Some c \<Longrightarrow> i \<in> I" using d by (metis append_Nil option.distinct(1))
  show "T p = Some a \<Longrightarrow> T q = Some a \<Longrightarrow> length p < 4 \<Longrightarrow> length q < 4 \<Longrightarrow> p = q" "\<exists>r. T [] = Some r" using d by blast+
qed

lemma pt_memD: "pt_mem P I T m \<Longrightarrow> T p = Some a \<Longrightarrow> length p < 4 \<Longrightarrow> i < 512 \<Longrightarrow> (p = [] \<longrightarrow> i \<in> I) \<Longrightarrow>
    entry_ok P (length p) (T (p @ [i])) (rd64 m (slot (a + PHYS_OFFSET) i))"
  unfolding pt_mem_def by blast

lemma tablesI: "T p = Some a \<Longrightarrow> length p < 4 \<Longrightarrow> a \<in> tables T"
  unfolding tables_def by blast

lemma pt_mem_frame:
  assumes "pt_mem P I T m" "agree_off X m m'" "X \<inter> pages (tables T) = {}"
  shows "pt_mem P I T m'"
  unfolding pt_mem_def
proof (intro allI impI)
  fix p a i assume p: "T p = Some a" "length p < 4" "i < 512" "p = [] \<longrightarrow> i \<in> I"
  have "page a \<subseteq> pages (tables T)" using tablesI [of T p a, OF p(1,2)] unfolding pages_def by blast
  then have "rd64 m' (slot (a + PHYS_OFFSET) i) = rd64 m (slot (a + PHYS_OFFSET) i)"
    using slot_page [OF p(3)] assms(2,3) unfolding agree_off_def by (intro rd64_cong) blast
  then show "entry_ok P (length p) (T (p @ [i])) (rd64 m' (slot (a + PHYS_OFFSET) i))"
    using pt_memD [OF assms(1) p] by simp
qed

text \<open>Changing one entry of one table, with the tree changed accordingly.\<close>

lemma pt_mem_write:
  assumes T: "pt_mem P I T m" "pt_shape I T" and p: "T p = Some a" "length p < 4" "i < 512" "p = [] \<longrightarrow> i \<in> I"
    and v: "v < 2 ^ 64" "entry_ok P (length p) t v"
    and q: "T q = Some c" "length q < 4" "j < 512" "q = [] \<longrightarrow> j \<in> I"
  shows "entry_ok P (length q) ((T(p @ [i] := t)) (q @ [j])) (rd64 (wr64 m (slot (a + PHYS_OFFSET) i) v) (slot (c + PHYS_OFFSET) j))"
proof (cases "q = p \<and> j = i")
  case True
  then show ?thesis using p(1) q(1) v by (simp add: rd64_wr64_same)
next
  case False
  have "(a, i) \<noteq> (c, j)" using False pt_shapeD(7) [OF T(2) p(1) _ p(2) q(2)] q(1) by auto
  then have "rd64 (wr64 m (slot (a + PHYS_OFFSET) i) v) (slot (c + PHYS_OFFSET) j) = rd64 m (slot (c + PHYS_OFFSET) j)"
    using slots_apart [OF _ _ p(3) q(3)] pt_shapeD(2) [OF T(2)] p(1) q(1) by (intro rd64_wr64_other) blast
  then show ?thesis using False pt_memD [OF T(1) q] by auto
qed

lemma wr64_slot: "i < 512 \<Longrightarrow> agree_off (page a) m (wr64 m (slot (a + PHYS_OFFSET) i) v)"
  using slot_page by (auto simp: agree_off_def wr64_def)

lemma pt_inv_write:
  assumes inv: "pt_inv P I L T F (m, b)" and p: "T p = Some a" "length p < 4" "i < 512" "p = [] \<longrightarrow> i \<in> I"
    and v: "v < 2 ^ 64" "entry_ok P (length p) t v" and t: "t = T (p @ [i]) \<or> length p = 3"
    and c: "\<And>c. t = Some c \<Longrightarrow> 4096 dvd c \<and> c < 2 ^ 52"
  shows "pt_inv P I L (T(p @ [i] := t)) F (wr64 m (slot (a + PHYS_OFFSET) i) v, b)"
proof -
  from inv have sh: "pt_shape I T" and me: "pt_mem P I T m" and pl: "pt_placed L T F b" and fi: "frame_inv L F (m, b)"
    by (simp_all add: pt_inv_def)
  let ?T = "T(p @ [i] := t)" and ?m = "wr64 m (slot (a + PHYS_OFFSET) i) v"
  have same: "?T q = T q" if "length q < 4" for q using t that by auto
  have old: "T p \<noteq> None" using p(1) by simp
  have len: "length p = 3 \<Longrightarrow> T (p @ [i, j]) = None" for j using pt_shapeD(1) [OF sh, of "p @ [i, j]"] by fastforce
  have shape: "pt_shape I ?T"
    unfolding pt_shape_def
  proof (intro conjI allI impI)
    show "?T [] \<noteq> None" using same [of "[]"] pt_shapeD(8) [OF sh] by simp
    show "length q \<le> 4" "4096 dvd x" "x < 2 ^ 52" if "?T q = Some x" for q x
      using that c p(2) pt_shapeD(1-3) [OF sh, of q x] by (auto split: if_splits)
    show "?T q \<noteq> None" "j < 512" "q = [] \<Longrightarrow> j \<in> I" if q: "?T (q @ [j]) \<noteq> None" for q j
    proof -
      show "?T q \<noteq> None"
      proof (cases "q = p")
        case True
        then show ?thesis using same [OF p(2)] p(1) by simp
      next
        case False
        then obtain y where y: "T (q @ [j]) = Some y" using q by auto
        then have "length q < 4" using pt_shapeD(1) [OF sh] by fastforce
        then show ?thesis using same [of q] pt_shapeD(4) [OF sh y] by auto
      qed
      show "j < 512" "q = [] \<Longrightarrow> j \<in> I"
        using q p(3,4) pt_shapeD(5,6) [OF sh] by (auto split: if_splits)
    qed
    show "q = r" if "?T q = Some x" "?T r = Some x" "length q < 4" "length r < 4" for q r x
      using that same pt_shapeD(7) [OF sh] by metis
  qed
  have "pt_mem P I ?T ?m"
    unfolding pt_mem_def
  proof (intro allI impI)
    fix q x j assume q: "?T q = Some x" "length q < 4" "j < 512" "q = [] \<longrightarrow> j \<in> I"
    then have "T q = Some x" using same by simp
    from pt_mem_write [OF me sh p v this q(2-4)]
    show "entry_ok P (length q) (?T (q @ [j])) (rd64 ?m (slot (x + PHYS_OFFSET) j))" .
  qed
  moreover have tabs: "tables ?T = tables T" unfolding tables_def using same by (metis (no_types, lifting))
  then have "pt_placed L ?T F b" using pl by (simp add: pt_placed_def)
  moreover have "frame_inv L F (?m, b)"
  proof (rule fr.finv_frame [OF fi wr64_slot [OF p(3)]])
    have "a \<in> tables T" using p(1,2) by (rule tablesI)
    then have "frame_valid L b a" "page a \<inter> F = {}" using pl by (auto simp: pt_placed_def)
    then show "page a \<inter> (F \<union> bitmap_bytes b) = {}" using fr.fvalidD [of L b a] by blast
  qed
  ultimately show ?thesis using shape by (simp add: pt_inv_def)
qed

lemma valid_virt: "frame_valid L b c \<Longrightarrow> uadd c PHYS_OFFSET = Some (c + PHYS_OFFSET)"
  using fr.fvalidD [of L b c] by (simp add: uadd_def PHYS_OFFSET_def)

lemma rd64_zeros: "(\<And>x. a \<le> x \<Longrightarrow> x < a + 8 \<Longrightarrow> m x = 0) \<Longrightarrow> rd64 m a = 0"
  by (simp add: rd64_def)

lemma pt_shape_insert:
  assumes sh: "pt_shape I T" and p: "T p = Some a" "length p < 3" "i < 512" "p = [] \<longrightarrow> i \<in> I"
    and new: "T (p @ [i]) = None" and c: "4096 dvd c" "c < 2 ^ 52" "c \<notin> tables T"
  shows "pt_shape I (T(p @ [i] := Some c))"
  unfolding pt_shape_def
proof (intro conjI allI impI)
  let ?T = "T(p @ [i] := Some c)"
  show "?T [] \<noteq> None" using pt_shapeD(8) [OF sh] by auto
  show "length q \<le> 4" "4096 dvd x" "x < 2 ^ 52" if "?T q = Some x" for q x
    using that c p(2) pt_shapeD(1-3) [OF sh, of q x] by (auto split: if_splits)
  show "?T q \<noteq> None" "j < 512" "q = [] \<Longrightarrow> j \<in> I" if q: "?T (q @ [j]) \<noteq> None" for q j
    using q p pt_shapeD(4-6) [OF sh] by (auto split: if_splits)
  show "q = r" if "?T q = Some x" "?T r = Some x" "length q < 4" "length r < 4" for q r x
    using that c(3) tablesI [of T q c] tablesI [of T r c] pt_shapeD(7) [OF sh, of q x r] by (auto split: if_splits)
qed

lemma pt_inv_table:
  assumes inv: "pt_inv P I L T F (m, b)" and p: "T p = Some a" "length p < 3" "i < 512" "p = [] \<longrightarrow> i \<in> I"
    and new: "T (p @ [i]) = None"
    and fv: "frame_valid L b c" and sub: "page c \<subseteq> F" and fi: "frame_inv L (F - page c) (m1, b1)"
    and conf: "same_conf b b1" and ag: "agree_off (F \<union> bitmap_bytes b) m m1" and z: "\<forall>x \<in> page c. m1 x = 0"
    and v: "v < 2 ^ 64" "entry_ok P (length p) (Some c) v"
  shows "pt_inv P I L (T(p @ [i] := Some c)) (F - page c) (wr64 m1 (slot (a + PHYS_OFFSET) i) v, b1)"
proof -
  from inv have sh: "pt_shape I T" and me: "pt_mem P I T m" and pl: "pt_placed L T F b" by (simp_all add: pt_inv_def)
  let ?T = "T(p @ [i] := Some c)" and ?m = "wr64 m1 (slot (a + PHYS_OFFSET) i) v"
  have p4: "length p < 4" using p(2) by simp
  have tp: "page x \<inter> F = {}" "page x \<inter> bitmap_bytes b = {}" if "x \<in> tables T" for x
    using pl that fr.fvalidD [of L b x] by (auto simp: pt_placed_def)
  have ta: "a \<in> tables T" using p(1) p4 by (rule tablesI)
  have cF: "c + PHYS_OFFSET \<in> page c" by (simp add: page_iff)
  have ac: "c \<notin> tables T" using tp(1) [of c] sub cF by blast
  have "(F \<union> bitmap_bytes b) \<inter> pages (tables T) = {}" using tp unfolding pages_def by blast
  from pt_mem_frame [OF me ag this] have me1: "pt_mem P I T m1" .
  have "4096 dvd c" "c < 2 ^ 52" using fr.fvalidD [OF fv] by simp_all
  from pt_shape_insert [OF sh p new this ac] have shape: "pt_shape I ?T" .
  have zero: "rd64 ?m (slot (c + PHYS_OFFSET) j) = 0" if "j < 512" for j
  proof (rule rd64_zeros)
    fix x assume "slot (c + PHYS_OFFSET) j \<le> x" "x < slot (c + PHYS_OFFSET) j + 8"
    then have x: "x \<in> page c" using slot_page that by blast
    then have "x \<notin> page a" using tp(1) [OF ta] sub by blast
    then have "?m x = m1 x" using wr64_slot [OF p(3), of a m1 v] unfolding agree_off_def by blast
    then show "?m x = 0" using z x by simp
  qed
  have below: "T (p @ [i] @ [j]) = None" for j using pt_shapeD(4) [OF sh, of "p @ [i]" j] new by (cases "T (p @ [i] @ [j])") auto
  have "pt_mem P I ?T ?m"
    unfolding pt_mem_def
  proof (intro allI impI)
    fix q x j assume q: "?T q = Some x" "length q < 4" "j < 512" "q = [] \<longrightarrow> j \<in> I"
    show "entry_ok P (length q) (?T (q @ [j])) (rd64 ?m (slot (x + PHYS_OFFSET) j))"
    proof (cases "q = p @ [i]")
      case True
      then show ?thesis using q(1,3) zero below by (simp add: entry_ok_def)
    next
      case False
      then have "T q = Some x" using q(1) by simp
      from pt_mem_write [OF me1 sh p(1) p4 p(3,4) v this q(2-4)] show ?thesis .
    qed
  qed
  moreover have "tables ?T \<subseteq> insert c (tables T)" unfolding tables_def by auto
  then have "pt_placed L ?T (F - page c) b1"
    using pl fv tp frame_valid_conf [OF conf, of L] unfolding pt_placed_def by auto
  moreover have "frame_inv L (F - page c) (?m, b1)"
    using tp [OF ta] conf_cong(7) [OF conf] by (intro fr.finv_frame [OF fi wr64_slot [OF p(3)]]) auto
  ultimately show ?thesis using shape by (simp add: pt_inv_def)
qed

section \<open>Mapping a page\<close>

text \<open>\<open>T'\<close> has the mapped frames of \<open>T\<close> and possibly more tables, taken out of the free frames.\<close>

definition grown :: "pt_tree \<Rightarrow> nat set \<Rightarrow> pt_tree \<Rightarrow> nat set \<Rightarrow> bool" where
  "grown T F T' F' \<longleftrightarrow> (\<forall>q a. T q = Some a \<longrightarrow> T' q = Some a) \<and> (\<forall>q. length q = 4 \<longrightarrow> T' q = T q) \<and>
     F' = F - pages (tables T' - tables T) \<and> pages (tables T' - tables T) \<subseteq> F"

lemma grown_refl: "grown T F T F"
  by (simp add: grown_def)

lemma grown_tables: "grown T F T' F' \<Longrightarrow> tables T \<subseteq> tables T'"
  unfolding grown_def tables_def by blast

lemma grown_trans:
  assumes "grown T F T1 F1" "grown T1 F1 T2 F2"
  shows "grown T F T2 F2"
proof -
  have "tables T2 - tables T = (tables T2 - tables T1) \<union> (tables T1 - tables T)"
    using grown_tables [OF assms(1)] grown_tables [OF assms(2)] by blast
  then have "pages (tables T2 - tables T) = pages (tables T2 - tables T1) \<union> pages (tables T1 - tables T)" by simp
  with assms show ?thesis unfolding grown_def by auto
qed

definition pt_bytes :: "pt_tree \<Rightarrow> nat set \<Rightarrow> buddy_allocator \<Rightarrow> nat set" where
  "pt_bytes T F b = F \<union> bitmap_bytes b \<union> pages (tables T)"

lemma pt_bytes_grown:
  assumes "grown T F T' F'" "same_conf b b'"
  shows "pt_bytes T' F' b' = pt_bytes T F b"
proof -
  have "pages (tables T') = pages (tables T' - tables T) \<union> pages (tables T)"
    using grown_tables [OF assms(1)] by (metis Diff_partition Un_commute pages_simps(3))
  then show ?thesis using assms(1) conf_cong(7) [OF assms(2)] unfolding pt_bytes_def grown_def by blast
qed

lemma tables_insert:
  assumes "T (p @ [i]) = None" "length p < 3" "c \<notin> tables T"
  shows "tables (T(p @ [i] := Some c)) - tables T = {c}"
proof -
  have "(T(p @ [i] := Some c)) q = Some x \<longleftrightarrow> T q = Some x \<or> q = p @ [i] \<and> x = c" for q x
    using assms(1) by auto
  then have "tables (T(p @ [i] := Some c)) = {x. \<exists>q. (T q = Some x \<or> q = p @ [i] \<and> x = c) \<and> length q < 4}"
    unfolding tables_def by metis
  also have "\<dots> = insert c (tables T)" using assms(2) unfolding tables_def by auto
  finally have "tables (T(p @ [i] := Some c)) = insert c (tables T)" .
  then show ?thesis using assms(3) by blast
qed

text \<open>What a level of \<^verbatim>\<open>map_to\<close> does to the tree.\<close>

lemma map_level_spec:
  assumes laws: "pt_laws P" and inv: "pt_inv P I L T F (m, b)"
    and p: "T p = Some a" "length p < 3" "i < 512" "p = [] \<longrightarrow> i \<in> I"
  obtains (oom) "map_level P flags (a + PHYS_OFFSET) i (m, b) = Some (Inl FrameAllocationFailed, (m, b))"
      "T (p @ [i]) = None" "F = {}"
  | (table) c T' F' m' b' where "map_level P flags (a + PHYS_OFFSET) i (m, b) = Some (Inr (c + PHYS_OFFSET), (m', b'))"
      "grown T F T' F'" "T' (p @ [i]) = Some c" "pt_inv P I L T' F' (m', b')" "same_conf b b'"
      "agree_off (pt_bytes T F b) m m'" "tables T' - tables T \<subseteq> {c}"
proof -
  note law = pt_lawsD [OF laws]
  from inv have sh: "pt_shape I T" and me: "pt_mem P I T m" and pl: "pt_placed L T F b" and fi: "frame_inv L F (m, b)"
    by (simp_all add: pt_inv_def)
  have p4: "length p < 4" and p3: "length p \<noteq> 3" using p(2) by simp_all
  let ?sl = "slot (a + PHYS_OFFSET) i"
  note e = pt_memD [OF me p(1) p4 p(3,4)]
  have ta: "page a \<subseteq> pages (tables T)" using p(1) p4 unfolding pages_def tables_def by blast
  show thesis
  proof (cases "T (p @ [i])")
    case (Some c)
    let ?v = "set_flags P (rd64 m ?sl) (pte_flags P (rd64 m ?sl) \<union> (flags \<inter> {PRESENT, WRITABLE, USER_ACCESSIBLE}))"
    from e Some have ent: "PRESENT \<in> pte_flags P (rd64 m ?sl)" "pte_addr P (rd64 m ?sl) = c"
      "length p = 2 \<longrightarrow> HUGE_PAGE \<notin> pte_flags P (rd64 m ?sl)" by (auto simp: entry_ok_def)
    have used: "rd64 m ?sl \<noteq> 0" using entry_ok_zero [OF laws e] Some by simp
    have v: "?v < 2 ^ 64" "pte_addr P ?v = c" "pte_flags P ?v = pte_flags P (rd64 m ?sl) \<union> (flags \<inter> {PRESENT, WRITABLE, USER_ACCESSIBLE})"
      using law(6-8) rd64_bound ent(2) by auto
    then have ok: "entry_ok P (length p) (Some c) ?v" using ent by (auto simp: entry_ok_def)
    have c: "4096 dvd c" "c < 2 ^ 52" using pt_shapeD(2,3) [OF sh Some] by simp_all
    have "c \<in> tables T" using Some p(2) by (intro tablesI [of T "p @ [i]"]) auto
    then have cv: "frame_valid L b c" using pl by (simp add: pt_placed_def)
    have same: "T(p @ [i] := Some c) = T" using Some by auto
    have "pt_inv P I L T F (wr64 m ?sl ?v, b)"
      using pt_inv_write [OF inv p(1) p4 p(3,4) v(1) ok] Some c unfolding same by auto
    moreover have "map_level P flags (a + PHYS_OFFSET) i (m, b) = Some (Inr (c + PHYS_OFFSET), (wr64 m ?sl ?v, b))"
      using used v valid_virt [OF cv] by (simp add: map_level_def law(1) Let_def rd64_wr64_same)
    moreover have "agree_off (pt_bytes T F b) m (wr64 m ?sl ?v)"
      using ta by (intro agree_off_mono [OF wr64_slot [OF p(3)]]) (auto simp: pt_bytes_def)
    ultimately show thesis using Some grown_refl by (intro table) (auto simp: same_conf_def)
  next
    case None
    then have z: "rd64 m ?sl = 0" using e by (simp add: entry_ok_def)
    from fi show thesis
    proof (cases rule: allocate_zeroed_frame_cases)
      case none
      then show thesis using z None by (intro oom) (simp_all add: map_level_def law(1) Let_def)
    next
      case (some c m1 b1)
      let ?v = "set_addr P c {PRESENT, WRITABLE, USER_ACCESSIBLE}"
      have c: "4096 dvd c" "c < 2 ^ 52" using fr.fvalidD [OF some(2)] by simp_all
      have v: "?v < 2 ^ 64" "entry_ok P (length p) (Some c) ?v" using law(3-5) [OF c] by (auto simp: entry_ok_def)
      have inv': "pt_inv P I L (T(p @ [i] := Some c)) (F - page c) (wr64 m1 ?sl ?v, b1)"
        by (rule pt_inv_table [OF inv p None some(2-7) v])
      have "c + PHYS_OFFSET \<in> page c" by (simp add: page_iff)
      then have "c \<notin> tables T" using pl some(3) unfolding pt_placed_def by blast
      then have tabs: "tables (T(p @ [i] := Some c)) - tables T = {c}" using None p(2) by (intro tables_insert)
      then have "grown T F (T(p @ [i] := Some c)) (F - page c)"
        using None p(2) some(3) unfolding grown_def by auto
      moreover have "map_level P flags (a + PHYS_OFFSET) i (m, b) = Some (Inr (c + PHYS_OFFSET), (wr64 m1 ?sl ?v, b1))"
        using some(1) z v(1) law(3) [OF c] law(10) [OF c(2)] valid_virt [OF some(2)]
        by (simp add: map_level_def law(1) Let_def rd64_wr64_same)
      moreover have "agree_off (pt_bytes T F b) m (wr64 m1 ?sl ?v)"
        using ta by (intro agree_off_trans [OF some(6) wr64_slot [OF p(3)]]) (auto simp: pt_bytes_def)
      ultimately show thesis using inv' some(5) tabs by (intro table) auto
    qed
  qed
qed

definition ipath :: "pt_ops \<Rightarrow> usize \<Rightarrow> nat list" where
  "ipath P va = [p_index P 4 va, p_index P 3 va, p_index P 2 va, p_index P 1 va]"

lemma pt_shape_prefix: "pt_shape I T \<Longrightarrow> T p = None \<Longrightarrow> T (p @ q) = None"
proof (induction q rule: rev_induct)
  case (snoc i q)
  then show ?case using pt_shapeD(4) [OF snoc.prems(1), of "p @ q" i] by (cases "T (p @ q @ [i])") auto
qed simp

text \<open>The table at path \<open>p\<close> has been reached, with the tables on the way created.\<close>

definition reached ::
  "pt_ops \<Rightarrow> nat set \<Rightarrow> nat \<Rightarrow> pt_tree \<Rightarrow> nat set \<Rightarrow> buddy_st \<Rightarrow> nat list \<Rightarrow> pt_tree \<Rightarrow> nat set \<Rightarrow> buddy_st \<Rightarrow> usize \<Rightarrow> bool" where
  "reached P I L T F s p T' F' s' a \<longleftrightarrow> T' p = Some a \<and> grown T F T' F' \<and> pt_inv P I L T' F' s' \<and>
     finite (tables T' - tables T) \<and> card (tables T' - tables T) \<le> length p \<and>
     same_conf (snd s) (snd s') \<and> agree_off (pt_bytes T F (snd s)) (fst s) (fst s')"

lemma reached_step:
  assumes laws: "pt_laws P" and r: "reached P I L T F s p T1 F1 s1 a"
    and p: "length p < 3" "i < 512" "p = [] \<longrightarrow> i \<in> I"
  obtains (oom) "map_level P flags (a + PHYS_OFFSET) i s1 = Some (Inl FrameAllocationFailed, s1)" "T1 (p @ [i]) = None" "F1 = {}"
  | (table) c T2 F2 s2 where "map_level P flags (a + PHYS_OFFSET) i s1 = Some (Inr (c + PHYS_OFFSET), s2)"
      "reached P I L T F s (p @ [i]) T2 F2 s2 c"
proof -
  obtain m1 b1 where s1: "s1 = (m1, b1)" by (cases s1)
  from r have 1: "T1 p = Some a" "grown T F T1 F1" "pt_inv P I L T1 F1 (m1, b1)" "same_conf (snd s) b1"
    "agree_off (pt_bytes T F (snd s)) (fst s) m1" "finite (tables T1 - tables T)" "card (tables T1 - tables T) \<le> length p"
    by (simp_all add: reached_def s1)
  from laws 1(3) 1(1) p show thesis
  proof (cases rule: map_level_spec [where flags = flags])
    case oom
    then show thesis using that(1) by (simp add: s1)
  next
    case (table c T2 F2 m2 b2)
    have "agree_off (pt_bytes T F (snd s)) (fst s) m2"
      using table(6) unfolding pt_bytes_grown [OF 1(2,4)] by (rule agree_off_trans [OF 1(5)]) simp
    moreover have "tables T2 - tables T \<subseteq> insert c (tables T1 - tables T)" using table(7) by blast
    then have "finite (tables T2 - tables T)" "card (tables T2 - tables T) \<le> Suc (length p)"
      using 1(6,7) card_mono [of "insert c (tables T1 - tables T)" "tables T2 - tables T"]
      by (auto simp: card_insert_if intro: finite_subset split: if_splits)
    ultimately have "reached P I L T F s (p @ [i]) T2 F2 (m2, b2) c"
      using table grown_trans [OF 1(2) table(2)] 1(4) by (simp add: reached_def same_conf_def)
    with table(1) show thesis using that(2) by (simp add: s1)
  qed
qed

lemma reached_none: "reached P I L T F s p T1 F1 s1 a \<Longrightarrow> T1 (q @ [i]) = None \<Longrightarrow> length (q @ [i] @ r) = 4 \<Longrightarrow> T (q @ [i] @ r) = None"
  using pt_shape_prefix [of I T1 "q @ [i]" r] by (simp add: reached_def grown_def pt_inv_def)

lemma map_to_spec:
  assumes laws: "pt_laws P" and inv: "pt_inv P I L T F s" and root: "T [] = Some root"
    and pg: "p_index P 4 pg \<in> I" and fr: "4096 dvd frame" "frame < 2 ^ 52" and huge: "HUGE_PAGE \<notin> flags"
  obtains (oom) p T1 F1 s1 a where "map_to P pg frame flags (root + PHYS_OFFSET) s = Some (Inl FrameAllocationFailed, s1)"
      "reached P I L T F s p T1 F1 s1 a" "T (ipath P pg) = None" "F1 = {}" "length p \<le> 2"
  | (mapped) p T1 F1 s1 a where "map_to P pg frame flags (root + PHYS_OFFSET) s = Some (Inl (PageAlreadyMapped frame), s1)"
      "reached P I L T F s p T1 F1 s1 a" "T (ipath P pg) \<noteq> None"
  | (ok) p T1 F1 m1 b1 a e where "map_to P pg frame flags (root + PHYS_OFFSET) s = Some (Inr (), (wr64 m1 (slot (a + PHYS_OFFSET) (p_index P 1 pg)) e, b1))"
      "reached P I L T F s p T1 F1 (m1, b1) a" "p @ [p_index P 1 pg] = ipath P pg" "T (ipath P pg) = None"
      "pt_inv P I L (T1(ipath P pg := Some frame)) F1 (wr64 m1 (slot (a + PHYS_OFFSET) (p_index P 1 pg)) e, b1)"
proof -
  let ?i4 = "p_index P 4 pg" and ?i3 = "p_index P 3 pg" and ?i2 = "p_index P 2 pg" and ?i1 = "p_index P 1 pg"
  note law = pt_lawsD [OF laws] and lt = p_index_lt [OF laws]
  have r0: "reached P I L T F s [] T F s root" using inv root by (simp add: reached_def grown_refl same_conf_def)
  have "length [] < (3 :: nat)" "[] = [] \<longrightarrow> ?i4 \<in> I" using pg by simp_all
  from laws r0 this(1) lt this(2) show thesis
  proof (cases rule: reached_step [where flags = flags])
    case oom4: oom
    then show thesis using reached_none [OF r0, of "[]" ?i4 "[?i3, ?i2, ?i1]"] r0
      by (intro oom [OF _ r0]) (simp_all add: map_to_def ipath_def)
  next
    case t4: (table c3 T3 F3 s3)
    have "length ([] @ [?i4]) < 3" "[] @ [?i4] = [] \<longrightarrow> ?i3 \<in> I" by simp_all
    from laws t4(2) this(1) lt this(2) show thesis
    proof (cases rule: reached_step [where flags = flags])
      case oom3: oom
      then show thesis using reached_none [OF t4(2), of "[?i4]" ?i3 "[?i2, ?i1]"] t4
        by (intro oom [OF _ t4(2)]) (simp_all add: map_to_def ipath_def)
    next
      case t3: (table c2 T2 F2 s2)
      have "length (([] @ [?i4]) @ [?i3]) < 3" "([] @ [?i4]) @ [?i3] = [] \<longrightarrow> ?i2 \<in> I" by simp_all
      from laws t3(2) this(1) lt this(2) show thesis
      proof (cases rule: reached_step [where flags = flags])
        case oom2: oom
        then show thesis using reached_none [OF t3(2), of "[?i4, ?i3]" ?i2 "[?i1]"] t3 t4
          by (intro oom [OF _ t3(2)]) (simp_all add: map_to_def ipath_def)
      next
        case t2: (table c1 T1 F1 s1)
        obtain m1 b1 where s1: "s1 = (m1, b1)" by (cases s1)
        let ?p = "[?i4, ?i3, ?i2]" and ?sl = "slot (c1 + PHYS_OFFSET) ?i1" and ?e = "set_addr P frame (flags \<union> {PRESENT})"
        have r: "reached P I L T F s ?p T1 F1 (m1, b1) c1" using t2(2) by (simp add: s1)
        then have inv1: "pt_inv P I L T1 F1 (m1, b1)" and c1: "T1 ?p = Some c1" and gr: "grown T F T1 F1"
          by (simp_all add: reached_def)
        have leaf: "T1 (ipath P pg) = T (ipath P pg)" using gr by (simp add: grown_def ipath_def)
        have pth: "?p @ [?i1] = ipath P pg" by (simp add: ipath_def)
        have l: "length ?p < 4" "?p = [] \<longrightarrow> ?i1 \<in> I" "length ?p = 3" by simp_all
        have "entry_ok P (length ?p) (T1 (?p @ [?i1])) (rd64 m1 ?sl)"
          by (rule pt_memD [of P I T1 m1, OF _ c1 l(1) lt l(2)]) (use inv1 in \<open>simp add: pt_inv_def\<close>)
        then have ent: "rd64 m1 ?sl = 0 \<longleftrightarrow> T (ipath P pg) = None"
          unfolding pth leaf by (rule entry_ok_zero [OF laws])
        show thesis
        proof (cases "T (ipath P pg)")
          case None
          have e: "?e < 2 ^ 64" "entry_ok P (length ?p) (Some frame) ?e" using law(3-5) [OF fr] huge by (auto simp: entry_ok_def)
          have "pt_inv P I L (T1(?p @ [?i1] := Some frame)) F1 (wr64 m1 ?sl ?e, b1)"
            by (rule pt_inv_write [OF inv1 c1 l(1) lt l(2) e]) (use fr in auto)
          then show thesis using None ent r pth t4 t3 t2 law(1)
            by (intro ok [of m1 c1 ?e b1 ?p T1 F1]) (simp_all add: map_to_def s1 Let_def)
        next
          case (Some c)
          then show thesis using ent r t4 t3 t2 law(1) by (intro mapped) (simp_all add: map_to_def s1 Let_def)
        qed
      qed
    qed
  qed
qed

end
