(* ===== verification/Paging_Spec.thy ===== *)
theory Paging_Spec
  imports Paging
begin

text \<open>
  Specifications of the page-table operations over the tree of tables: translation is a lookup
  in the tree, unmapping removes one path, creating an address space makes an empty tree and
  destroying it gives back every frame of the tree.
\<close>

section \<open>Translation\<close>

definition lookup :: "pt_ops \<Rightarrow> pt_tree \<Rightarrow> usize \<Rightarrow> usize option" where
  "lookup P T va = map_option (\<lambda>c. c + va mod 4096) (T (ipath P va))"

lemma pt_inv_entry:
  assumes "pt_laws P" "pt_inv P I L T F (m, b)" "T p = Some a" "length p < 4" "p = [] \<longrightarrow> p_index P l va \<in> I"
  shows "entry_ok P (length p) (T (p @ [p_index P l va])) (rd64 m (slot (a + PHYS_OFFSET) (p_index P l va)))"
  using assms(2) by (intro pt_memD [of P I T m, OF _ assms(3,4) p_index_lt [OF assms(1)] assms(5)]) (simp add: pt_inv_def)

lemma pt_inv_virt:
  assumes "pt_inv P I L T F (m, b)" "T p = Some a" "length p < 4"
  shows "uadd a PHYS_OFFSET = Some (a + PHYS_OFFSET)"
proof -
  have "a \<in> tables T" using assms(2,3) by (rule tablesI)
  then have "frame_valid L b a" using assms(1) by (simp add: pt_inv_def pt_placed_def)
  then show ?thesis by (rule valid_virt)
qed

text \<open>Following the tree one level down.\<close>

lemma pt_inv_next:
  assumes "pt_laws P" "pt_inv P I L T F (m, b)" "T p = Some a" "length p < 4" "p = [] \<longrightarrow> p_index P l va \<in> I"
  defines "e \<equiv> rd64 m (slot (a + PHYS_OFFSET) (p_index P l va))"
  obtains (none) "T (p @ [p_index P l va]) = None" "e = 0" "PRESENT \<notin> pte_flags P e"
  | (some) c where "T (p @ [p_index P l va]) = Some c" "e \<noteq> 0" "PRESENT \<in> pte_flags P e" "pte_addr P e = c"
      "length p = 2 \<Longrightarrow> HUGE_PAGE \<notin> pte_flags P e" "length p < 3 \<Longrightarrow> uadd c PHYS_OFFSET = Some (c + PHYS_OFFSET)"
proof -
  note ok = pt_inv_entry [OF assms(1-5), folded e_def]
  show thesis
  proof (cases "T (p @ [p_index P l va])")
    case None
    then show thesis using ok pt_lawsD(2) [OF assms(1)] by (intro none) (simp_all add: entry_ok_def)
  next
    case (Some c)
    moreover have "length p < 3 \<Longrightarrow> uadd c PHYS_OFFSET = Some (c + PHYS_OFFSET)"
      using pt_inv_virt [OF assms(2) Some] by simp
    ultimately show thesis using ok entry_ok_zero [OF assms(1) ok] by (intro some) (auto simp: entry_ok_def)
  qed
qed

lemma pt_inv_shape: "pt_inv P I L T F s \<Longrightarrow> pt_shape I T"
  by (simp add: pt_inv_def)

lemma translate_lookup:
  assumes laws: "pt_laws P" and inv: "pt_inv P I L T F (m, b)" and root: "T [] = Some root" and va: "p_index P 4 va \<in> I"
  shows "translate_addr P root va m = Some (lookup P T va)"
proof -
  let ?i4 = "p_index P 4 va" and ?i3 = "p_index P 3 va" and ?i2 = "p_index P 2 va" and ?i1 = "p_index P 1 va"
  note law = pt_lawsD [OF laws] and sh = pt_inv_shape [OF inv]
  have r: "uadd root PHYS_OFFSET = Some (root + PHYS_OFFSET)" using pt_inv_virt [OF inv root] by simp
  have l: "length ([] :: nat list) < 4" "[] = [] \<longrightarrow> ?i4 \<in> I" using va by simp_all
  from laws inv root l show ?thesis
  proof (cases rule: pt_inv_next)
    case none
    then show ?thesis using r pt_shape_prefix [OF sh, of "[?i4]" "[?i3, ?i2, ?i1]"]
      by (simp add: translate_addr_def active_level_4_table_def law(1) lookup_def ipath_def Let_def)
  next
    case s4: (some c3)
    have l: "length ([] @ [?i4]) < 4" "[] @ [?i4] = [] \<longrightarrow> ?i3 \<in> I" by simp_all
    from laws inv s4(1) l show ?thesis
    proof (cases rule: pt_inv_next)
      case none
      then show ?thesis using r s4 pt_shape_prefix [OF sh, of "[?i4, ?i3]" "[?i2, ?i1]"]
        by (simp add: translate_addr_def active_level_4_table_def law(1) lookup_def ipath_def Let_def)
    next
      case s3: (some c2)
      have l: "length (([] @ [?i4]) @ [?i3]) < 4" "([] @ [?i4]) @ [?i3] = [] \<longrightarrow> ?i2 \<in> I" by simp_all
      from laws inv s3(1) l show ?thesis
      proof (cases rule: pt_inv_next)
        case none
        then show ?thesis using r s4 s3 pt_shape_prefix [OF sh, of "[?i4, ?i3, ?i2]" "[?i1]"]
          by (simp add: translate_addr_def active_level_4_table_def law(1) lookup_def ipath_def Let_def)
      next
        case s2: (some c1)
        have l: "length ((([] @ [?i4]) @ [?i3]) @ [?i2]) < 4" "(([] @ [?i4]) @ [?i3]) @ [?i2] = [] \<longrightarrow> ?i1 \<in> I" by simp_all
        from laws inv s2(1) l show ?thesis
        proof (cases rule: pt_inv_next)
          case none
          then show ?thesis using r s4 s3 s2
            by (simp add: translate_addr_def active_level_4_table_def law(1) lookup_def ipath_def Let_def)
        next
          case s1: (some c)
          have c: "c < 2 ^ 52" "4096 dvd c" using pt_shapeD(2,3) [OF sh s1(1)] by simp_all
          then have "c + 4096 \<le> 2 ^ 52" using page_gap [of c "2 ^ 52"] by simp
          then have t: "c + va mod 4096 < 2 ^ 52" using mod_less_divisor [of 4096 va] by linarith
          then have "uadd c (va mod 4096) = Some (c + va mod 4096)" by (simp add: uadd_def)
          then show ?thesis using r s4 s3 s2 s1 law(10) [OF t]
            by (simp add: translate_addr_def active_level_4_table_def law(1) lookup_def ipath_def Let_def)
        qed
      qed
    qed
  qed
qed

lemma unmap_spec:
  assumes laws: "pt_laws P" and inv: "pt_inv P I L T F (m, b)" and root: "T [] = Some root" and va: "p_index P 4 va \<in> I"
  shows "\<exists>m'. unmap P va (root + PHYS_OFFSET) m = Some (T (ipath P va), m') \<and>
    pt_inv P I L (T(ipath P va := None)) F (m', b) \<and> agree_off (pages (tables T)) m m'"
proof -
  let ?i4 = "p_index P 4 va" and ?i3 = "p_index P 3 va" and ?i2 = "p_index P 2 va" and ?i1 = "p_index P 1 va"
  note law = pt_lawsD [OF laws] and sh = pt_inv_shape [OF inv]
  have same: "T (ipath P va) = None \<Longrightarrow> T(ipath P va := None) = T" by auto
  have l: "length ([] :: nat list) < 4" "[] = [] \<longrightarrow> ?i4 \<in> I" using va by simp_all
  from laws inv root l show ?thesis
  proof (cases rule: pt_inv_next)
    case none
    then show ?thesis using inv same pt_shape_prefix [OF sh, of "[?i4]" "[?i3, ?i2, ?i1]"]
      by (simp add: unmap_def ipath_def Let_def)
  next
    case s4: (some c3)
    have l: "length ([] @ [?i4]) < 4" "[] @ [?i4] = [] \<longrightarrow> ?i3 \<in> I" by simp_all
    from laws inv s4(1) l show ?thesis
    proof (cases rule: pt_inv_next)
      case none
      then show ?thesis using inv same s4 pt_shape_prefix [OF sh, of "[?i4, ?i3]" "[?i2, ?i1]"]
        by (simp add: unmap_def ipath_def Let_def)
    next
      case s3: (some c2)
      have l: "length (([] @ [?i4]) @ [?i3]) < 4" "([] @ [?i4]) @ [?i3] = [] \<longrightarrow> ?i2 \<in> I" by simp_all
      from laws inv s3(1) l show ?thesis
      proof (cases rule: pt_inv_next)
        case none
        then show ?thesis using inv same s4 s3 pt_shape_prefix [OF sh, of "[?i4, ?i3, ?i2]" "[?i1]"]
          by (simp add: unmap_def ipath_def Let_def)
      next
        case s2: (some c1)
        let ?p = "[?i4, ?i3, ?i2]" and ?sl = "slot (c1 + PHYS_OFFSET) ?i1"
        have c1: "T ?p = Some c1" using s2(1) by simp
        have l: "length ?p < 4" "?p = [] \<longrightarrow> ?i1 \<in> I" by simp_all
        from laws inv c1 l show ?thesis
        proof (cases rule: pt_inv_next)
          case none
          then show ?thesis using inv same s4 s3 s2 by (simp add: unmap_def ipath_def Let_def)
        next
          case s1: (some c)
          have "mask_low 12 c = c" using pt_shapeD(2) [OF sh s1(1)] by (simp add: mask_low_id)
          then have run: "unmap P va (root + PHYS_OFFSET) m = Some (Some c, wr64 m ?sl 0)"
            using s4 s3 s2 s1 by (simp add: unmap_def Let_def)
          have "pt_inv P I L (T(?p @ [?i1] := None)) F (wr64 m ?sl 0, b)"
            by (rule pt_inv_write [OF inv c1 l(1) p_index_lt [OF laws] l(2)]) (simp_all add: entry_ok_def)
          moreover have "c1 \<in> tables T" using c1 l(1) by (rule tablesI)
          then have "agree_off (pages (tables T)) m (wr64 m ?sl 0)"
            by (intro agree_off_mono [OF wr64_slot [OF p_index_lt [OF laws]]]) (auto simp: pages_def)
          ultimately show ?thesis using run s1(1) by (auto simp: ipath_def)
        qed
      qed
    qed
  qed
qed

section \<open>Creating an address space\<close>

lemma copy_entries_spec:
  assumes "4096 dvd a" "4096 dvd c" "a \<noteq> c" "distinct is" "set is \<subseteq> {..<512}"
  shows "agree_off (page c) m (copy_entries is (a + PHYS_OFFSET) (c + PHYS_OFFSET) m) \<and>
    (\<forall>i \<in> set is. rd64 (copy_entries is (a + PHYS_OFFSET) (c + PHYS_OFFSET) m) (slot (c + PHYS_OFFSET) i) = rd64 m (slot (a + PHYS_OFFSET) i)) \<and>
    (\<forall>i < 512. i \<notin> set is \<longrightarrow> rd64 (copy_entries is (a + PHYS_OFFSET) (c + PHYS_OFFSET) m) (slot (c + PHYS_OFFSET) i) = rd64 m (slot (c + PHYS_OFFSET) i))"
  using assms(4,5)
proof (induction "is" arbitrary: m)
  case (Cons i "is")
  let ?m = "wr64 m (slot (c + PHYS_OFFSET) i) (rd64 m (slot (a + PHYS_OFFSET) i))"
  have i: "i < 512" using Cons.prems by simp
  have src: "rd64 ?m (slot (a + PHYS_OFFSET) j) = rd64 m (slot (a + PHYS_OFFSET) j)" if "j < 512" for j
    using slots_apart [OF assms(2,1) i that] assms(3) by (intro rd64_wr64_other) auto
  have dst: "rd64 ?m (slot (c + PHYS_OFFSET) j) = (if j = i then rd64 m (slot (a + PHYS_OFFSET) i) else rd64 m (slot (c + PHYS_OFFSET) j))"
    if "j < 512" for j
    using slots_apart [OF assms(2,2) i that] by (auto simp: rd64_wr64_same [OF rd64_bound] intro!: rd64_wr64_other)
  have ih: "distinct is" "set is \<subseteq> {..<512}" using Cons.prems by simp_all
  note IH = Cons.IH [OF ih, of ?m]
  have "agree_off (page c) m (copy_entries (i # is) (a + PHYS_OFFSET) (c + PHYS_OFFSET) m)"
    using IH agree_off_trans [OF wr64_slot [OF i] conjunct1 [OF IH], of "page c"] by simp
  then show ?case using IH src dst Cons.prems by auto
qed simp

lemma create_spec:
  assumes laws: "pt_laws P" and fi: "frame_inv L F (m, b)"
    and act: "frame_valid L b active" "page active \<inter> F = {}"
  obtains (none) "create_user_address_space P active (m, b) = Some (None, (m, b))" "F = {}"
  | (some) c m' b' where "create_user_address_space P active (m, b) = Some (Some c, (m', b'))"
      "pt_inv P {0..<256} L [[] \<mapsto> c] (F - page c) (m', b')" "page c \<subseteq> F"
      "\<forall>i \<in> {256..<512}. rd64 m' (slot (c + PHYS_OFFSET) i) = rd64 m (slot (active + PHYS_OFFSET) i)"
      "agree_off (F \<union> bitmap_bytes b) m m'"
  using fi
proof (cases rule: allocate_zeroed_frame_cases)
  case none
  then show thesis by (intro that(1)) (simp add: create_user_address_space_def)
next
  case (some c m1 b1)
  note law = pt_lawsD [OF laws]
  define ks where "ks = [256..<(512::nat)]"
  have ks: "distinct ks" "set ks = {256..<512}" "set ks \<subseteq> {..<512}" unfolding ks_def by (simp only: distinct_upt) (simp only: set_upt, auto simp only: set_upt atLeastLessThan_iff lessThan_iff)
  let ?m = "copy_entries ks (active + PHYS_OFFSET) (c + PHYS_OFFSET) m1"
  have c: "4096 dvd c" "c < 2 ^ 47" and a: "4096 dvd active" and off: "page active \<inter> bitmap_bytes b = {}" "page c \<inter> bitmap_bytes b = {}"
    using fr.fvalidD [OF some(2)] fr.fvalidD [OF act(1)] by simp_all
  have "c + PHYS_OFFSET \<in> page c" by (simp add: page_iff)
  then have ne: "active \<noteq> c" using act(2) some(3) by blast
  from copy_entries_spec [OF a c(1) ne ks(1,3), of m1] have cp: "agree_off (page c) m1 ?m"
    "\<forall>i \<in> {256..<512}. rd64 ?m (slot (c + PHYS_OFFSET) i) = rd64 m1 (slot (active + PHYS_OFFSET) i)"
    "\<forall>i < 256. rd64 ?m (slot (c + PHYS_OFFSET) i) = rd64 m1 (slot (c + PHYS_OFFSET) i)"
    unfolding ks(2) by auto
  have z: "rd64 m1 (slot (c + PHYS_OFFSET) i) = 0" if "i < 512" for i
    using some(7) slot_page [OF that, of c] by (intro rd64_zeros) blast
  have act1: "rd64 m1 (slot (active + PHYS_OFFSET) i) = rd64 m (slot (active + PHYS_OFFSET) i)" if "i < 512" for i
    using some(6) slot_page [OF that, of active] act(2) off(1) unfolding agree_off_def by (intro rd64_cong) blast
  have "canonical (c + PHYS_OFFSET)" using c(2) by (simp add: canonical_def PHYS_OFFSET_def)
  then have run: "create_user_address_space P active (m, b) = Some (Some c, (?m, b1))"
    using some(1) valid_virt [OF some(2)] valid_virt [OF act(1)] law(10,11) c(2)
    unfolding create_user_address_space_def ks_def [symmetric] by (simp add: active_level_4_table_def)
  have tabs: "tables [[] \<mapsto> c] = {c}" by (auto simp: tables_def split: if_splits)
  have "pt_shape {0..<256} [[] \<mapsto> c]" using c by (auto simp: pt_shape_def split: if_splits)
  moreover have "pt_mem P {0..<256} [[] \<mapsto> c] ?m" using cp(3) z by (auto simp: pt_mem_def entry_ok_def split: if_splits)
  moreover have "pt_placed L [[] \<mapsto> c] (F - page c) b1"
    using some(2) frame_valid_conf [OF some(5), of L] unfolding pt_placed_def tabs by auto
  moreover have "frame_inv L (F - page c) (?m, b1)"
    using off(2) conf_cong(7) [OF some(5)] by (intro fr.finv_frame [OF some(4) cp(1)]) auto
  ultimately have "pt_inv P {0..<256} L [[] \<mapsto> c] (F - page c) (?m, b1)" by (simp add: pt_inv_def)
  moreover have "agree_off (F \<union> bitmap_bytes b) m ?m" using some(3) by (intro agree_off_trans [OF some(6) cp(1)]) auto
  ultimately show thesis using run some(3) cp(2) act1 by (intro that(2)) auto
qed

section \<open>Destroying an address space\<close>

text \<open>The addresses at and below a path, and trees none of whose frames is shared.\<close>

definition below :: "pt_tree \<Rightarrow> nat list \<Rightarrow> usize set" where
  "below T p = {a. \<exists>q. T (p @ q) = Some a}"

definition exclusive :: "nat \<Rightarrow> buddy_allocator \<Rightarrow> pt_tree \<Rightarrow> bool" where
  "exclusive L b T \<longleftrightarrow> (\<forall>p a. T p = Some a \<longrightarrow> frame_valid L b a) \<and> (\<forall>p q a. T p = Some a \<longrightarrow> T q = Some a \<longrightarrow> p = q)"

definition mem_below :: "pt_ops \<Rightarrow> pt_tree \<Rightarrow> nat list \<Rightarrow> mem \<Rightarrow> bool" where
  "mem_below P T p m \<longleftrightarrow> (\<forall>q a i. T (p @ q) = Some a \<longrightarrow> length (p @ q) < 4 \<longrightarrow> i < 512 \<longrightarrow>
     entry_ok P (length (p @ q)) (T (p @ q @ [i])) (rd64 m (slot (a + PHYS_OFFSET) i)))"

lemma below_self: "T p = Some a \<Longrightarrow> a \<in> below T p"
  unfolding below_def by (metis (mono_tags) append_Nil2 mem_Collect_eq)

lemma below_None: "pt_shape I T \<Longrightarrow> T p = None \<Longrightarrow> below T p = {}"
  using pt_shape_prefix unfolding below_def by fastforce

lemma below_split:
  assumes "pt_shape I T" "T p = Some a"
  shows "below T p = insert a (\<Union>i < 512. below T (p @ [i]))"
proof (intro equalityI subsetI)
  fix x assume "x \<in> below T p"
  then obtain q where q: "T (p @ q) = Some x" by (auto simp: below_def)
  show "x \<in> insert a (\<Union>i < 512. below T (p @ [i]))"
  proof (cases q)
    case Nil
    then show ?thesis using q assms(2) by simp
  next
    case (Cons i r)
    then have x: "x \<in> below T (p @ [i])" using q by (auto simp: below_def)
    then have "T (p @ [i]) \<noteq> None" using below_None [OF assms(1)] by blast
    then have "i < 512" using pt_shapeD(5) [OF assms(1)] by blast
    with x show ?thesis by blast
  qed
next
  fix x assume "x \<in> insert a (\<Union>i < 512. below T (p @ [i]))"
  then show "x \<in> below T p" using below_self [of T p a] assms(2) by (auto simp: below_def)
qed

lemma below_apart:
  assumes "exclusive L b T" "i \<noteq> j"
  shows "below T (p @ [i]) \<inter> below T (p @ [j]) = {}"
proof (rule ccontr)
  assume "below T (p @ [i]) \<inter> below T (p @ [j]) \<noteq> {}"
  then obtain x q r where "T (p @ [i] @ q) = Some x" "T (p @ [j] @ r) = Some x" by (auto simp: below_def)
  then have "p @ [i] @ q = p @ [j] @ r" using assms(1) unfolding exclusive_def by blast
  with assms(2) show False by simp
qed

lemma below_notin:
  assumes "exclusive L b T" "T p = Some a"
  shows "a \<notin> below T (p @ [i])"
proof
  assume "a \<in> below T (p @ [i])"
  then obtain q where "T (p @ [i] @ q) = Some a" by (auto simp: below_def)
  then have "p @ [i] @ q = p" using assms unfolding exclusive_def by blast
  then show False by simp
qed

lemma exclusive_pages:
  assumes "exclusive L b T" "X \<subseteq> below T p" "Y \<subseteq> below T q" "X \<inter> Y = {}"
  shows "pages X \<inter> pages Y = {}"
proof -
  have al: "4096 dvd a" if "a \<in> below T r" for a r
    using that assms(1) fr.fvalidD [of L b a] unfolding below_def exclusive_def by blast
  have "page x \<inter> page y = {}" if "x \<in> X" "y \<in> Y" for x y
    using page_disjoint [of x y] al that assms(2-4) by blast
  then show ?thesis unfolding pages_def by blast
qed

lemma exclusive_bitmap:
  assumes "exclusive L b T" "X \<subseteq> below T p"
  shows "pages X \<inter> bitmap_bytes b = {}"
proof -
  have "page x \<inter> bitmap_bytes b = {}" if "x \<in> X" for x
    using that assms fr.fvalidD [of L b x] unfolding below_def exclusive_def by blast
  then show ?thesis unfolding pages_def by blast
qed

lemma mem_below_sub: "mem_below P T p m \<Longrightarrow> mem_below P T (p @ r) m"
  unfolding mem_below_def by (metis append_assoc)

lemma mem_below_frame:
  assumes "mem_below P T p m" "agree_off X m m'" "X \<inter> pages (below T p) = {}"
  shows "mem_below P T p m'"
  unfolding mem_below_def
proof (intro allI impI)
  fix q a and i :: nat assume q: "T (p @ q) = Some a" "length (p @ q) < 4" "i < 512"
  have "page a \<subseteq> pages (below T p)" using q(1) unfolding pages_def below_def by blast
  then have "rd64 m' (slot (a + PHYS_OFFSET) i) = rd64 m (slot (a + PHYS_OFFSET) i)"
    using slot_page [OF q(3)] assms(2,3) unfolding agree_off_def by (intro rd64_cong) blast
  then show "entry_ok P (length (p @ q)) (T (p @ q @ [i])) (rd64 m' (slot (a + PHYS_OFFSET) i))"
    using assms(1) q unfolding mem_below_def by auto
qed

lemma exclusive_conf: "same_conf b b' \<Longrightarrow> exclusive L b' T = exclusive L b T"
  using frame_valid_conf [of b b' L] by (simp add: exclusive_def)

text \<open>The bytes a loop over the entries \<open>is\<close> of the table at path \<open>p\<close> gives back.\<close>

definition subtrees :: "pt_tree \<Rightarrow> nat list \<Rightarrow> nat list \<Rightarrow> usize set" where
  "subtrees T p is = (\<Union>i \<in> set is. below T (p @ [i]))"

lemma subtrees_sub: "subtrees T p is \<subseteq> below T p"
  unfolding subtrees_def below_def by auto

lemma subtrees_simps: "subtrees T p [] = {}" "subtrees T p (i # is) = below T (p @ [i]) \<union> subtrees T p is"
  by (auto simp: subtrees_def)

lemma subtrees_apart: "exclusive L b T \<Longrightarrow> i \<notin> set is \<Longrightarrow> below T (p @ [i]) \<inter> subtrees T p is = {}"
proof -
  assume ex: "exclusive L b T" and i: "i \<notin> set is"
  have "below T (p @ [i]) \<inter> below T (p @ [j]) = {}" if "j \<in> set is" for j
    using below_apart [OF ex, of i j p] i that by blast
  then show ?thesis unfolding subtrees_def by blast
qed

definition level_pre :: "pt_ops \<Rightarrow> nat \<Rightarrow> pt_tree \<Rightarrow> nat list \<Rightarrow> usize \<Rightarrow> nat list \<Rightarrow> nat set \<Rightarrow> buddy_st \<Rightarrow> bool" where
  "level_pre P L T p a is F s \<longleftrightarrow> exclusive L (snd s) T \<and> distinct is \<and> set is \<subseteq> {..<512} \<and>
     (\<forall>i \<in> set is. mem_below P T (p @ [i]) (fst s) \<and>
        entry_ok P (length p) (T (p @ [i])) (rd64 (fst s) (slot (a + PHYS_OFFSET) i))) \<and>
     frame_inv L F s \<and> pages (subtrees T p is) \<inter> F = {} \<and> page a \<inter> F = {}"

definition level_post :: "nat \<Rightarrow> nat set \<Rightarrow> nat set \<Rightarrow> nat set \<Rightarrow> buddy_st \<Rightarrow> buddy_st \<Rightarrow> bool" where
  "level_post L F G X s s' \<longleftrightarrow> frame_inv L (F \<union> G) s' \<and> same_conf (snd s) (snd s') \<and>
     agree_off (F \<union> G \<union> X \<union> bitmap_bytes (snd s)) (fst s) (fst s')"

lemma level_post_trans:
  assumes "level_post L F G X s s1" "level_post L (F \<union> G) H X s1 s2"
  shows "level_post L F (G \<union> H) X s s2"
proof -
  have c: "same_conf (snd s) (snd s1)" using assms(1) by (simp add: level_post_def)
  have "agree_off (F \<union> (G \<union> H) \<union> X \<union> bitmap_bytes (snd s)) (fst s) (fst s2)"
    using assms unfolding level_post_def conf_cong(7) [OF c]
    by (elim conjE) (rule agree_off_trans, assumption, assumption, blast)
  then show ?thesis using assms c unfolding level_post_def
    by (auto simp: Un_assoc intro: same_conf_trans)
qed

text \<open>Keeping the precondition of the remaining entries while one subtree is given back.\<close>

lemma level_pre_step:
  assumes sh: "pt_shape I T" and a: "T p = Some a" and pre: "level_pre P L T p a (i # is) F s"
    and post: "level_post L F (pages (below T (p @ [i]))) X s s'" and X: "X \<subseteq> page a"
    and keep: "\<And>j. j \<in> set is \<Longrightarrow> rd64 (fst s') (slot (a + PHYS_OFFSET) j) = rd64 (fst s) (slot (a + PHYS_OFFSET) j)"
  shows "level_pre P L T p a is (F \<union> pages (below T (p @ [i]))) s'"
proof -
  let ?G = "pages (below T (p @ [i]))"
  from pre have ex: "exclusive L (snd s) T" and i: "i \<notin> set is" and dj: "pages (subtrees T p (i # is)) \<inter> F = {}" "page a \<inter> F = {}"
    by (simp_all add: level_pre_def)
  from post have conf: "same_conf (snd s) (snd s')" and ag: "agree_off (F \<union> ?G \<union> X \<union> bitmap_bytes (snd s)) (fst s) (fst s')"
    by (simp_all add: level_post_def)
  have G: "?G \<inter> pages (subtrees T p is) = {}"
    using exclusive_pages [OF ex order.refl subtrees_sub subtrees_apart [OF ex i]] .
  have aG: "page a \<inter> ?G = {}"
    using below_notin [OF ex a] below_self [of T p a] a
      exclusive_pages [OF ex, of "{a}" p "below T (p @ [i])" "p @ [i]"] by (simp add: pages_def)
  have aS: "page a \<inter> pages (subtrees T p is) = {}"
    using exclusive_pages [OF ex, of "{a}" p "subtrees T p is" p] below_notin [OF ex a] below_self [of T p a] a subtrees_sub
    by (auto simp: pages_def subtrees_def)
  have "mem_below P T (p @ [j]) (fst s')" if "j \<in> set is" for j
  proof (rule mem_below_frame [OF _ ag])
    have "pages (below T (p @ [j])) \<subseteq> pages (subtrees T p is)" using that unfolding subtrees_def pages_def by blast
    moreover have "pages (subtrees T p is) \<inter> bitmap_bytes (snd s) = {}" by (rule exclusive_bitmap [OF ex subtrees_sub])
    moreover have "pages (subtrees T p is) \<inter> F = {}" using dj(1) by (simp add: subtrees_simps) blast
    ultimately show "(F \<union> ?G \<union> X \<union> bitmap_bytes (snd s)) \<inter> pages (below T (p @ [j])) = {}" using G X aS by blast
    show "mem_below P T (p @ [j]) (fst s)" using pre that by (simp add: level_pre_def)
  qed
  moreover have "pages (subtrees T p is) \<inter> (F \<union> ?G) = {}" using G dj(1) by (simp add: subtrees_simps) blast
  ultimately show ?thesis using pre post keep aG dj(2) exclusive_conf [OF conf, of L T]
    unfolding level_pre_def level_post_def by auto
qed

lemma table_kept:
  assumes ex: "exclusive L b T" and a: "T p = Some a" and F: "page a \<inter> F = {}" and j: "j < 512"
    and ag: "agree_off (F \<union> pages (below T (p @ [i])) \<union> bitmap_bytes b) m m'"
  shows "rd64 m' (slot (a + PHYS_OFFSET) j) = rd64 m (slot (a + PHYS_OFFSET) j)"
proof -
  have "page a \<inter> pages (below T (p @ [i])) = {}"
    using below_notin [OF ex a] below_self [of T p a] a exclusive_pages [OF ex, of "{a}" p "below T (p @ [i])" "p @ [i]"]
    by (simp add: pages_def)
  moreover have "page a \<inter> bitmap_bytes b = {}"
    using exclusive_bitmap [OF ex, of "{a}" p] below_self [of T p a] a by (simp add: pages_def)
  ultimately show ?thesis
    using F slot_page [OF j, of a] ag unfolding agree_off_def by (intro rd64_cong) blast
qed

text \<open>Giving back the frame at the top of a subtree whose lower part is free already.\<close>

lemma clear_top:
  assumes ex: "exclusive L (snd s) T" and c: "T q = Some c" and dj: "pages (below T q) \<inter> F = {}"
    and post: "level_post L F (pages (below T q - {c})) (page c) s s1"
  shows "\<exists>s2. clear_frame c s1 = Some s2 \<and> level_post L F (pages (below T q)) {} s s2"
proof -
  let ?B = "below T q"
  obtain m1 b1 where s1: "s1 = (m1, b1)" by (cases s1)
  have cB: "c \<in> ?B" using c by (rule below_self)
  then have B: "pages ?B = pages (?B - {c}) \<union> page c" unfolding pages_def by blast
  from post have fi: "frame_inv L (F \<union> pages (?B - {c})) (m1, b1)" and conf: "same_conf (snd s) b1"
    and ag: "agree_off (F \<union> pages (?B - {c}) \<union> page c \<union> bitmap_bytes (snd s)) (fst s) m1"
    by (simp_all add: level_post_def s1)
  have v: "frame_valid L b1 c" using ex c frame_valid_conf [OF conf, of L] by (auto simp: exclusive_def)
  have "page c \<inter> pages (?B - {c}) = {}"
    using exclusive_pages [OF ex, of "{c}" q "?B - {c}" q] cB by (auto simp: pages_def)
  then have "page c \<inter> (F \<union> pages (?B - {c})) = {}" using dj B by blast
  from clear_frame_ok [OF fi v this] obtain m2 b2 where 2: "clear_frame c (m1, b1) = Some (m2, b2)"
    "frame_inv L (F \<union> pages (?B - {c}) \<union> page c) (m2, b2)" "same_conf b1 b2"
    "agree_off (F \<union> pages (?B - {c}) \<union> page c \<union> bitmap_bytes b1) m1 m2" by blast
  have "agree_off (F \<union> pages ?B \<union> {} \<union> bitmap_bytes (snd s)) (fst s) m2"
    using 2(4) unfolding conf_cong(7) [OF conf] B by (rule agree_off_trans [OF ag]) blast
  then have "level_post L F (pages ?B) {} s (m2, b2)"
    using 2(2) same_conf_trans [OF conf 2(3)] unfolding level_post_def B by (simp add: Un_assoc)
  with 2(1) s1 show ?thesis by blast
qed

fun free_level :: "(usize \<Rightarrow> buddy_st \<Rightarrow> buddy_st option) \<Rightarrow> pt_ops \<Rightarrow> nat list \<Rightarrow> usize \<Rightarrow> buddy_st \<Rightarrow> buddy_st option" where
  "free_level sub P [] table s = Some s"
| "free_level sub P (i # is) table s =
     (let entry = rd64 (fst s) (slot table i) in
      if PRESENT \<in> pte_flags P entry then do {
        let phys = pte_addr P entry;
        vaddr \<leftarrow> uadd phys PHYS_OFFSET;
        s \<leftarrow> sub vaddr s;
        s \<leftarrow> clear_frame phys s;
        free_level sub P is table s
      } else free_level sub P is table s)"

definition frees_below :: "(usize \<Rightarrow> buddy_st \<Rightarrow> buddy_st option) \<Rightarrow> pt_ops \<Rightarrow> nat \<Rightarrow> pt_tree \<Rightarrow> nat \<Rightarrow> bool" where
  "frees_below sub P L T n \<longleftrightarrow> (\<forall>p c F s. length p = n \<longrightarrow> T p = Some c \<longrightarrow> exclusive L (snd s) T \<longrightarrow>
     mem_below P T p (fst s) \<longrightarrow> frame_inv L F s \<longrightarrow> pages (below T p) \<inter> F = {} \<longrightarrow>
     (\<exists>s'. sub (c + PHYS_OFFSET) s = Some s' \<and> level_post L F (pages (below T p - {c})) (page c) s s'))"

lemma free_level_spec:
  assumes laws: "pt_laws P" and sh: "pt_shape I T" and a: "T p = Some a" and sub: "frees_below sub P L T (Suc (length p))"
    and pre: "level_pre P L T p a is F s"
  shows "\<exists>s'. free_level sub P is (a + PHYS_OFFSET) s = Some s' \<and> level_post L F (pages (subtrees T p is)) {} s s'"
  using pre
proof (induction "is" arbitrary: F s)
  case Nil
  then show ?case by (simp add: level_post_def level_pre_def subtrees_simps same_conf_def)
next
  case (Cons i "is")
  let ?e = "rd64 (fst s) (slot (a + PHYS_OFFSET) i)"
  from Cons.prems have ex: "exclusive L (snd s) T" and fi: "frame_inv L F s" and mb: "mem_below P T (p @ [i]) (fst s)"
    and ok: "entry_ok P (length p) (T (p @ [i])) ?e" and dj: "pages (subtrees T p (i # is)) \<inter> F = {}" "page a \<inter> F = {}"
    and lt: "set is \<subseteq> {..<512}"
    by (simp_all add: level_pre_def)
  show ?case
  proof (cases "T (p @ [i])")
    case None
    then have "PRESENT \<notin> pte_flags P ?e" using ok pt_lawsD(2) [OF laws] by (simp add: entry_ok_def)
    moreover have b: "below T (p @ [i]) = {}" by (rule below_None [OF sh None])
    moreover have "level_pre P L T p a is F s" using Cons.prems by (simp add: level_pre_def subtrees_simps b)
    ultimately show ?thesis using Cons.IH by (simp add: subtrees_simps Let_def)
  next
    case (Some c)
    then have e: "PRESENT \<in> pte_flags P ?e" "pte_addr P ?e = c" using ok by (auto simp: entry_ok_def)
    have v: "uadd c PHYS_OFFSET = Some (c + PHYS_OFFSET)" using ex Some valid_virt unfolding exclusive_def by blast
    have B: "pages (below T (p @ [i])) \<inter> F = {}" using dj(1) by (auto simp: subtrees_simps)
    obtain s1 where s1: "sub (c + PHYS_OFFSET) s = Some s1" "level_post L F (pages (below T (p @ [i]) - {c})) (page c) s s1"
      using sub Some ex mb fi B unfolding frees_below_def by (metis length_append_singleton)
    from clear_top [OF ex Some B s1(2)] obtain s2 where s2: "clear_frame c s1 = Some s2"
      "level_post L F (pages (below T (p @ [i]))) {} s s2" by blast
    have "level_pre P L T p a is (F \<union> pages (below T (p @ [i]))) s2"
    proof (rule level_pre_step [OF sh a Cons.prems s2(2)])
      show "rd64 (fst s2) (slot (a + PHYS_OFFSET) j) = rd64 (fst s) (slot (a + PHYS_OFFSET) j)" if "j \<in> set is" for j
        using that lt s2(2) by (intro table_kept [OF ex a dj(2), where i = i]) (auto simp: level_post_def)
    qed simp
    from Cons.IH [OF this] obtain s3 where "free_level sub P is (a + PHYS_OFFSET) s2 = Some s3"
      "level_post L (F \<union> pages (below T (p @ [i]))) (pages (subtrees T p is)) {} s2 s3" by blast
    then show ?thesis using e v s1(1) s2(1) level_post_trans [OF s2(2)] by (simp add: subtrees_simps Let_def)
  qed
qed

lemma leaf_below:
  assumes "pt_shape I T" "length p = 3" "T (p @ [i]) = Some c"
  shows "below T (p @ [i]) = {c}"
proof -
  have "x = c" if "T ((p @ [i]) @ q) = Some x" for q x
  proof -
    have "q = []" using pt_shapeD(1) [OF assms(1) that] assms(2) by simp
    then show ?thesis using that assms(3) by simp
  qed
  then have "below T (p @ [i]) \<subseteq> {c}" unfolding below_def by blast
  then show ?thesis using below_self [of T "p @ [i]" c] assms(3) by blast
qed

lemma free_pt_spec:
  assumes laws: "pt_laws P" and sh: "pt_shape I T" and a: "T p = Some a" and lp: "length p = 3"
    and pre: "level_pre P L T p a is F s"
  shows "\<exists>s'. free_pt P is (a + PHYS_OFFSET) s = Some s' \<and> level_post L F (pages (subtrees T p is)) (page a) s s'"
  using pre
proof (induction "is" arbitrary: F s)
  case Nil
  then show ?case by (simp add: level_post_def level_pre_def subtrees_simps same_conf_def)
next
  case (Cons i "is")
  let ?sl = "slot (a + PHYS_OFFSET) i"
  from Cons.prems have ex: "exclusive L (snd s) T" and fi: "frame_inv L F s"
    and ok: "entry_ok P (length p) (T (p @ [i])) (rd64 (fst s) ?sl)" and dj: "pages (subtrees T p (i # is)) \<inter> F = {}" "page a \<inter> F = {}"
    and lt: "i < 512" "set is \<subseteq> {..<512}" "i \<notin> set is"
    by (simp_all add: level_pre_def)
  obtain m b where s: "s = (m, b)" by (cases s)
  have va: "frame_valid L b a" and al: "4096 dvd a" and ab: "page a \<inter> bitmap_bytes b = {}"
    using ex a s fr.fvalidD [of L b a] by (auto simp: exclusive_def)
  show ?case
  proof (cases "T (p @ [i])")
    case None
    then have "PRESENT \<notin> pte_flags P (rd64 (fst s) ?sl)" using ok pt_lawsD(2) [OF laws] by (simp add: entry_ok_def)
    moreover have b: "below T (p @ [i]) = {}" by (rule below_None [OF sh None])
    moreover have "level_pre P L T p a is F s" using Cons.prems by (simp add: level_pre_def subtrees_simps b)
    ultimately show ?thesis using Cons.IH by (simp add: subtrees_simps Let_def)
  next
    case (Some c)
    then have e: "PRESENT \<in> pte_flags P (rd64 m ?sl)" "pte_addr P (rd64 m ?sl) = c" using ok s by (auto simp: entry_ok_def)
    have B: "below T (p @ [i]) = {c}" by (rule leaf_below [OF sh lp Some])
    have w: "agree_off (page a) m (wr64 m ?sl 0)" by (rule wr64_slot [OF lt(1)])
    have fi': "frame_inv L F (wr64 m ?sl 0, b)" using dj(2) ab fi s by (intro fr.finv_frame [OF _ w]) auto
    have vc: "frame_valid L b c" using ex Some s by (auto simp: exclusive_def)
    have "page c \<inter> F = {}" using dj(1) by (auto simp: subtrees_simps B)
    from clear_frame_ok [OF fi' vc this] obtain m2 b2 where 2: "clear_frame c (wr64 m ?sl 0, b) = Some (m2, b2)"
      "frame_inv L (F \<union> page c) (m2, b2)" "same_conf b b2" "agree_off (F \<union> page c \<union> bitmap_bytes b) (wr64 m ?sl 0) m2" by blast
    have post: "level_post L F (pages (below T (p @ [i]))) (page a) s (m2, b2)"
    proof -
      have "agree_off (F \<union> page c \<union> page a \<union> bitmap_bytes b) m m2" by (rule agree_off_trans [OF w 2(4)]) blast
      with 2(2,3) show ?thesis by (simp add: level_post_def B s)
    qed
    have "level_pre P L T p a is (F \<union> pages (below T (p @ [i]))) (m2, b2)"
    proof (rule level_pre_step [OF sh a Cons.prems post])
      fix j assume j: "j \<in> set is"
      then have j': "j < 512" "j \<noteq> i" using lt by auto
      have "rd64 m2 (slot (a + PHYS_OFFSET) j) = rd64 (wr64 m ?sl 0) (slot (a + PHYS_OFFSET) j)"
        using 2(4) s by (intro table_kept [OF ex a dj(2) j'(1), where i = i]) (simp add: B)
      also have "\<dots> = rd64 m (slot (a + PHYS_OFFSET) j)"
        using slots_apart [OF al al lt(1) j'(1)] j'(2) by (intro rd64_wr64_other) auto
      finally show "rd64 (fst (m2, b2)) (slot (a + PHYS_OFFSET) j) = rd64 (fst s) (slot (a + PHYS_OFFSET) j)" using s by simp
    qed simp
    from Cons.IH [OF this] obtain s3 where "free_pt P is (a + PHYS_OFFSET) (m2, b2) = Some s3"
      "level_post L (F \<union> pages (below T (p @ [i]))) (pages (subtrees T p is)) (page a) (m2, b2) s3" by blast
    then show ?thesis using e 2(1) level_post_trans [OF post] s by (simp add: subtrees_simps Let_def)
  qed
qed

text \<open>The loops of the code are instances of the generic one.\<close>

lemma free_pd_eq: "free_pd P ks t = free_level (free_pt P [0..<512]) P ks t"
proof (induction ks)
  case Nil
  show ?case by (rule ext) (simp only: free_pd.simps free_level.simps)
next
  case (Cons k ks)
  show ?case by (rule ext) (simp only: free_pd.simps free_level.simps Cons)
qed

lemma free_pdpt_eq: "free_pdpt P ks t = free_level (free_pd P [0..<512]) P ks t"
proof (induction ks)
  case Nil
  show ?case by (rule ext) (simp only: free_pdpt.simps free_level.simps)
next
  case (Cons k ks)
  show ?case by (rule ext) (simp only: free_pdpt.simps free_level.simps Cons)
qed

lemma free_pml4_eq: "free_pml4 P ks t = free_level (free_pdpt P [0..<512]) P ks t"
proof (induction ks)
  case Nil
  show ?case by (rule ext) (simp only: free_pml4.simps free_level.simps)
next
  case (Cons k ks)
  show ?case by (rule ext) (simp only: free_pml4.simps free_level.simps Cons)
qed

lemma below_pre:
  assumes sh: "pt_shape I T" and p: "T p = Some c" "length p < 4" and ex: "exclusive L (snd s) T" and mb: "mem_below P T p (fst s)"
    and fi: "frame_inv L F s" and dj: "pages (below T p) \<inter> F = {}"
  shows "level_pre P L T p c [0..<512] F s" "subtrees T p [0..<512] = below T p - {c}"
proof -
  have "page c \<subseteq> pages (below T p)" using below_self [of T p c] p(1) unfolding pages_def by blast
  then have "page c \<inter> F = {}" using dj by blast
  moreover have "pages (subtrees T p [0..<512]) \<subseteq> pages (below T p)" using subtrees_sub [of T p] unfolding pages_def by blast
  then have "pages (subtrees T p [0..<512]) \<inter> F = {}" using dj by blast
  moreover have "entry_ok P (length p) (T (p @ [i])) (rd64 (fst s) (slot (c + PHYS_OFFSET) i))" if "i < 512" for i
    using mb p that unfolding mem_below_def by (metis append_Nil append_Nil2)
  moreover have "distinct [0..<512]" "set [0..<512] = {..<512}" by (simp only: distinct_upt) (simp only: set_upt atLeast0LessThan)
  ultimately show "level_pre P L T p c [0..<512] F s"
    using ex fi mem_below_sub [OF mb] unfolding level_pre_def by simp
  have "subtrees T p [0..<512] = (\<Union>i < 512. below T (p @ [i]))"
    unfolding subtrees_def by (simp only: set_upt atLeast0LessThan)
  then show "subtrees T p [0..<512] = below T p - {c}" using below_split [OF sh p(1)] below_notin [OF ex p(1)] by auto
qed

lemma level_post_X: "level_post L F G {} s s' \<Longrightarrow> level_post L F G X s s'"
  unfolding level_post_def by (auto elim!: agree_off_mono)

lemma frees_pt:
  assumes laws: "pt_laws P" and sh: "pt_shape I T"
  shows "frees_below (free_pt P [0..<512]) P L T 3"
  unfolding frees_below_def
proof (intro allI impI)
  fix p c F s
  assume p: "length p = 3" "T p = Some c" and h: "exclusive L (snd s) T" "mem_below P T p (fst s)" "frame_inv L F s" "pages (below T p) \<inter> F = {}"
  have l: "length p < 4" using p(1) by simp
  note bp = below_pre [OF sh p(2) l h]
  from free_pt_spec [OF laws sh p(2,1) bp(1)]
  show "\<exists>s'. free_pt P [0..<512] (c + PHYS_OFFSET) s = Some s' \<and> level_post L F (pages (below T p - {c})) (page c) s s'"
    unfolding bp(2) .
qed

lemma frees_level:
  assumes laws: "pt_laws P" and sh: "pt_shape I T" and sub: "frees_below sub P L T (Suc n)" and n: "n < 4"
  shows "frees_below (free_level sub P [0..<512]) P L T n"
  unfolding frees_below_def
proof (intro allI impI)
  fix p c F s
  assume p: "length p = n" "T p = Some c" and h: "exclusive L (snd s) T" "mem_below P T p (fst s)" "frame_inv L F s" "pages (below T p) \<inter> F = {}"
  have l: "length p < 4" using p(1) n by simp
  note bp = below_pre [OF sh p(2) l h]
  have "frees_below sub P L T (Suc (length p))" using sub p(1) by simp
  from free_level_spec [OF laws sh p(2) this bp(1)]
  show "\<exists>s'. free_level sub P [0..<512] (c + PHYS_OFFSET) s = Some s' \<and> level_post L F (pages (below T p - {c})) (page c) s s'"
    unfolding bp(2) by (blast intro: level_post_X)
qed

lemma destroy_spec:
  assumes laws: "pt_laws P" and inv: "pt_inv P {0..<256} L T F s" and root: "T [] = Some root"
    and ex: "exclusive L (snd s) T" and dj: "pages (ran T) \<inter> F = {}"
  obtains s' where "destroy_user_address_space P root s = Some s'" "frame_inv L (F \<union> pages (ran T)) s'"
    "same_conf (snd s) (snd s')" "agree_off (F \<union> pages (ran T) \<union> bitmap_bytes (snd s)) (fst s) (fst s')"
proof -
  from inv have sh: "pt_shape {0..<256} T" and me: "pt_mem P {0..<256} T (fst s)" and fi: "frame_inv L F s"
    by (simp_all add: pt_inv_def)
  have ran: "ran T = below T []" by (auto simp: ran_def below_def)
  have mb: "mem_below P T [i] (fst s)" if "i < 256" for i
    unfolding mem_below_def
  proof (intro allI impI)
    fix q a and j :: nat assume "T ([i] @ q) = Some a" "length ([i] @ q) < 4" "j < 512"
    from pt_memD [OF me this] show "entry_ok P (length ([i] @ q)) (T ([i] @ q @ [j])) (rd64 (fst s) (slot (a + PHYS_OFFSET) j))" by simp
  qed
  have e3: "frees_below (free_pt P [0..<512]) P L T 3" by (rule frees_pt [OF laws sh])
  have e2: "frees_below (free_pd P [0..<512]) P L T 2"
    using frees_level [OF laws sh, of "free_pt P [0..<512]" L 2] e3
    unfolding free_pd_eq [abs_def] by (simp only: numeral_3_eq_3 numeral_2_eq_2)
  have e1: "frees_below (free_pdpt P [0..<512]) P L T 1"
    using frees_level [OF laws sh, of "free_pd P [0..<512]" L 1] e2
    unfolding free_pdpt_eq [abs_def] by (simp only: numeral_2_eq_2 One_nat_def)
  have "set [0..<256] = {..<(256::nat)}" by (simp only: set_upt atLeast0LessThan)
  moreover have "pages (subtrees T [] [0..<256]) \<inter> F = {}" using dj subtrees_sub [of T "[]" "[0..<256]"] unfolding ran pages_def by blast
  moreover have "page root \<inter> F = {}" using dj root unfolding pages_def ran_def by blast
  ultimately have pre: "level_pre P L T [] root [0..<256] F s"
    using ex fi mb pt_memD [OF me root] unfolding level_pre_def by simp
  have "Suc (length ([] :: nat list)) = 1" by simp
  with free_level_spec [OF laws sh root _ pre] e1 obtain s1 where s1: "free_pml4 P [0..<256] (root + PHYS_OFFSET) s = Some s1"
    "level_post L F (pages (subtrees T [] [0..<256])) {} s s1" unfolding free_pml4_eq by metis
  have sub: "subtrees T [] [0..<256] = below T [] - {root}"
  proof -
    have "i < 256" if "x \<in> below T ([] @ [i])" for i x
      using pt_shapeD(6) [OF sh, of i] below_None [OF sh, of "[i]"] that by (cases "T [i]") auto
    then have "(\<Union>i < 512. below T ([] @ [i])) = (\<Union>i < 256. below T ([] @ [i]))"
      by (intro equalityI subsetI) fastforce+
    then show ?thesis using below_split [OF sh root] below_notin [OF ex root]
      by (auto simp: subtrees_def \<open>set [0..<256] = {..<256}\<close> simp del: set_upt)
  qed
  have v: "uadd root PHYS_OFFSET = Some (root + PHYS_OFFSET)" using ex root valid_virt unfolding exclusive_def by blast
  have dj': "pages (below T []) \<inter> F = {}" using dj unfolding ran .
  from clear_top [OF ex root dj' level_post_X [OF s1(2) [unfolded sub]]] obtain s2 where s2: "clear_frame root s1 = Some s2"
    "level_post L F (pages (below T [])) {} s s2" by blast
  have "destroy_user_address_space P root s = Some s2"
    unfolding destroy_user_address_space_def v bind.bind_lunit s1(1) by (rule s2(1))
  with s2(2) show thesis by (intro that) (auto simp: level_post_def ran)
qed

end
