(* ===== verification/Paging_Props.thy ===== *)
theory Paging_Props
  imports Paging_Spec Frames_Props
begin

text \<open>
  Properties of the page tables: mapping and unmapping change the translation of exactly one page,
  a new address space has an empty user half and the kernel half of its creator, and destroying
  it gives back exactly its frames.
\<close>

section \<open>Pages and index paths\<close>

lemma ipath_number:
  assumes "pt_laws P"
  shows "va div 4096 mod 2 ^ 36 = p_index P 4 va * 2 ^ 27 + p_index P 3 va * 2 ^ 18 + p_index P 2 va * 2 ^ 9 + p_index P 1 va"
proof -
  define n where "n = va div 4096"
  have ix: "p_index P 4 va = n div 2 ^ 27 mod 512" "p_index P 3 va = n div 2 ^ 18 mod 512"
    "p_index P 2 va = n div 2 ^ 9 mod 512" "p_index P 1 va = n mod 512"
    unfolding n_def by (simp_all add: pt_lawsD(9) [OF assms] flip: div_mult2_eq)
  have "n mod 2 ^ 36 = 2 ^ 27 * (n div 2 ^ 27 mod 512) + n mod 2 ^ 27" using mod_mult2_eq [of n "2 ^ 27" 512] by simp
  moreover have "n mod 2 ^ 27 = 2 ^ 18 * (n div 2 ^ 18 mod 512) + n mod 2 ^ 18" using mod_mult2_eq [of n "2 ^ 18" 512] by simp
  moreover have "n mod 2 ^ 18 = 2 ^ 9 * (n div 2 ^ 9 mod 512) + n mod 2 ^ 9" using mod_mult2_eq [of n "2 ^ 9" 512] by simp
  moreover have "n mod 2 ^ 9 = n mod 512" by simp
  moreover have "a = w * 2 ^ 27 + x * 2 ^ 18 + y * 2 ^ 9 + z"
    if "a = 2 ^ 27 * w + b" "b = 2 ^ 18 * x + c" "c = 2 ^ 9 * y + d" "d = z" for a b c d w x y z :: nat
    using that by simp
  ultimately show ?thesis unfolding ix n_def [symmetric] by blast
qed

lemma canonical_page:
  assumes "canonical a" "canonical b" "a div 4096 mod 2 ^ 36 = b div 4096 mod 2 ^ 36"
  shows "a div 4096 = b div 4096"
proof -
  have half: "x div 4096 < 2 ^ 35 \<or> (2 ^ 52 - 2 ^ 35 \<le> x div 4096 \<and> x div 4096 < 2 ^ 52)" if "canonical x" for x
    using that unfolding canonical_def
  proof
    assume "x < 2 ^ 47"
    then have "x div 4096 < 2 ^ 35" by (simp add: less_mult_imp_div_less)
    then show ?thesis ..
  next
    assume x: "2 ^ 64 - 2 ^ 47 \<le> x \<and> x < 2 ^ 64"
    then have "(2 ^ 64 - 2 ^ 47) div 4096 \<le> x div 4096" by (intro div_le_mono) simp
    moreover have "x div 4096 < 2 ^ 52" using x by (simp add: less_mult_imp_div_less)
    ultimately show ?thesis by simp
  qed
  have low: "n < 2 ^ 35 \<and> n mod 2 ^ 36 = n \<or> 2 ^ 35 \<le> n mod 2 ^ 36 \<and> n = 2 ^ 36 * (2 ^ 16 - 1) + n mod 2 ^ 36"
    if "n < 2 ^ 35 \<or> (2 ^ 52 - 2 ^ 35 \<le> n \<and> n < 2 ^ 52)" for n :: nat
    using that
  proof
    assume "2 ^ 52 - 2 ^ 35 \<le> n \<and> n < 2 ^ 52"
    then have "n = (n - 2 ^ 36 * (2 ^ 16 - 1)) + 2 ^ 36 * (2 ^ 16 - 1)" "2 ^ 35 \<le> n - 2 ^ 36 * (2 ^ 16 - 1)"
      "n - 2 ^ 36 * (2 ^ 16 - 1) < 2 ^ 36" by auto
    then obtain r where r: "n = r + 2 ^ 36 * (2 ^ 16 - 1)" "2 ^ 35 \<le> r" "r < 2 ^ 36" by blast
    then have "n mod 2 ^ 36 = r" by (simp only: mod_mult_self2 mod_less)
    with r show ?thesis by simp
  qed simp
  from low [OF half [OF assms(1)]] low [OF half [OF assms(2)]] assms(3) show ?thesis by linarith
qed

lemma ipath_inj:
  assumes "pt_laws P" "canonical a" "canonical b"
  shows "ipath P a = ipath P b \<longleftrightarrow> a div 4096 = b div 4096"
proof
  assume "ipath P a = ipath P b"
  then have "a div 4096 mod 2 ^ 36 = b div 4096 mod 2 ^ 36"
    using ipath_number [OF assms(1), of a] ipath_number [OF assms(1), of b] by (simp add: ipath_def)
  then show "a div 4096 = b div 4096" by (rule canonical_page [OF assms(2,3)])
next
  assume eq: "a div 4096 = b div 4096"
  have "a div 2 ^ (12 + k) = b div 2 ^ (12 + k)" for k
    using eq by (simp add: power_add div_mult2_eq)
  then show "ipath P a = ipath P b" by (simp only: ipath_def pt_lawsD(9) [OF assms(1)])
qed

section \<open>A concrete entry format\<close>

definition fval :: "pt_flag set \<Rightarrow> nat" where
  "fval f = of_bool (PRESENT \<in> f) + 2 * of_bool (WRITABLE \<in> f) + 4 * of_bool (USER_ACCESSIBLE \<in> f) +
     8 * of_bool (WRITE_THROUGH \<in> f) + 16 * of_bool (NO_CACHE \<in> f) + 128 * of_bool (HUGE_PAGE \<in> f) + 2 ^ 63 * of_bool (NO_EXECUTE \<in> f)"

definition sample_pt :: pt_ops where
  "sample_pt = \<lparr>is_unused = (\<lambda>e. e = 0),
     pte_addr = (\<lambda>e. e mod 2 ^ 52 div 4096 * 4096),
     pte_flags = (\<lambda>e. (if odd e then {PRESENT} else {}) \<union> (if odd (e div 2) then {WRITABLE} else {}) \<union>
       (if odd (e div 4) then {USER_ACCESSIBLE} else {}) \<union> (if odd (e div 8) then {WRITE_THROUGH} else {}) \<union>
       (if odd (e div 16) then {NO_CACHE} else {}) \<union> (if odd (e div 128) then {HUGE_PAGE} else {}) \<union>
       (if odd (e div 2 ^ 63) then {NO_EXECUTE} else {})),
     set_addr = (\<lambda>a f. a + fval f),
     set_flags = (\<lambda>e f. e mod 2 ^ 52 div 4096 * 4096 + fval f),
     p_index = (\<lambda>l a. a div 2 ^ (12 + 9 * (l - 1)) mod 512),
     phys_addr_new = (\<lambda>a. if a < 2 ^ 52 then Some a else None),
     virt_addr_new = (\<lambda>a. if canonical a then Some a else None)\<rparr>"

lemma digit_at: "r < c \<Longrightarrow> d \<le> 1 \<Longrightarrow> x = r + c * (d + 2 * q) \<Longrightarrow> x div c mod 2 = d" for x r c d q :: nat
proof -
  assume "r < c" "d \<le> 1" "x = r + c * (d + 2 * q)"
  then have "x div c = d + 2 * q" by simp
  then show ?thesis using \<open>d \<le> 1\<close> by simp
qed

lemma fval_digits:
  fixes k p w u t c h n :: nat
  assumes "k < 2 ^ 40" "p \<le> 1" "w \<le> 1" "u \<le> 1" "t \<le> 1" "c \<le> 1" "h \<le> 1" "n \<le> 1"
  defines "x \<equiv> 4096 * k + (p + 2 * w + 4 * u + 8 * t + 16 * c + 128 * h + 2 ^ 63 * n)"
  shows "x mod 2 = p" "x div 2 mod 2 = w" "x div 4 mod 2 = u" "x div 8 mod 2 = t" "x div 16 mod 2 = c"
    "x div 128 mod 2 = h" "x div 2 ^ 63 mod 2 = n" "x mod 2 ^ 52 div 4096 = k" "x < 2 ^ 64"
proof -
  have "x = 0 + 1 * (p + 2 * (w + 2 * u + 4 * t + 8 * c + 64 * h + 2048 * k + 2 ^ 62 * n))" unfolding x_def by simp
  from digit_at [OF _ assms(2) this] show "x mod 2 = p" by simp
  have "x = p + 2 * (w + 2 * (u + 2 * t + 4 * c + 32 * h + 1024 * k + 2 ^ 61 * n))" unfolding x_def by simp
  from digit_at [OF _ assms(3) this] show "x div 2 mod 2 = w" using assms(2) by simp
  have "x = (p + 2 * w) + 4 * (u + 2 * (t + 2 * c + 16 * h + 512 * k + 2 ^ 60 * n))" unfolding x_def by simp
  from digit_at [OF _ assms(4) this] show "x div 4 mod 2 = u" using assms(2,3) by simp
  have "x = (p + 2 * w + 4 * u) + 8 * (t + 2 * (c + 8 * h + 256 * k + 2 ^ 59 * n))" unfolding x_def by simp
  from digit_at [OF _ assms(5) this] show "x div 8 mod 2 = t" using assms(2-4) by simp
  have "x = (p + 2 * w + 4 * u + 8 * t) + 16 * (c + 2 * (4 * h + 128 * k + 2 ^ 58 * n))" unfolding x_def by simp
  from digit_at [OF _ assms(6) this] show "x div 16 mod 2 = c" using assms(2-5) by simp
  have "x = (p + 2 * w + 4 * u + 8 * t + 16 * c) + 128 * (h + 2 * (16 * k + 2 ^ 55 * n))" unfolding x_def by simp
  from digit_at [OF _ assms(7) this] show "x div 128 mod 2 = h" using assms(2-6) by simp
  define l where "l = p + 2 * w + 4 * u + 8 * t + 16 * c + 128 * h"
  have l: "l < 4096" using assms(2-7) unfolding l_def by simp
  have lo: "4096 * k + l < 2 ^ 52" using assms(1) l by simp
  have x: "x = (4096 * k + l) + 2 ^ 63 * n" unfolding x_def l_def by simp
  have "x div 2 ^ 63 = n" unfolding x using lo by simp
  then show "x div 2 ^ 63 mod 2 = n" using assms(8) by simp
  have "x mod 2 ^ 52 = 4096 * k + l"
  proof -
    have "x = (4096 * k + l) + 2 ^ 52 * (2 ^ 11 * n)" unfolding x by simp
    then show ?thesis using lo by (simp only: mod_mult_self2 mod_less)
  qed
  then show "x mod 2 ^ 52 div 4096 = k" using l by simp
  show "x < 2 ^ 64" unfolding x using lo assms(8) by simp
qed

lemma sample_entry:
  fixes f
  assumes "k < 2 ^ 40"
  defines "x \<equiv> 4096 * k + fval f"
  shows "pte_addr sample_pt x = 4096 * k" "pte_flags sample_pt x = f" "x < 2 ^ 64"
proof -
  have b: "of_bool c \<le> (1 :: nat)" for c by simp
  note d = fval_digits [OF assms(1) b [of "PRESENT \<in> f"] b [of "WRITABLE \<in> f"] b [of "USER_ACCESSIBLE \<in> f"]
      b [of "WRITE_THROUGH \<in> f"] b [of "NO_CACHE \<in> f"] b [of "HUGE_PAGE \<in> f"] b [of "NO_EXECUTE \<in> f"], folded fval_def, folded x_def]
  show "pte_addr sample_pt x = 4096 * k" using d(8) by (simp add: sample_pt_def)
  show "x < 2 ^ 64" using d(9) by simp
  have "odd x \<longleftrightarrow> PRESENT \<in> f" "odd (x div 2) \<longleftrightarrow> WRITABLE \<in> f" "odd (x div 4) \<longleftrightarrow> USER_ACCESSIBLE \<in> f"
    "odd (x div 8) \<longleftrightarrow> WRITE_THROUGH \<in> f" "odd (x div 16) \<longleftrightarrow> NO_CACHE \<in> f" "odd (x div 128) \<longleftrightarrow> HUGE_PAGE \<in> f" "odd (x div 2 ^ 63) \<longleftrightarrow> NO_EXECUTE \<in> f"
    using d(1-7) by (simp_all add: odd_iff_mod_2_eq_one)
  then have "y \<in> pte_flags sample_pt x \<longleftrightarrow> y \<in> f" for y by (cases y) (simp_all add: sample_pt_def)
  then show "pte_flags sample_pt x = f" by blast
qed

lemma sample_laws: "pt_laws sample_pt"
proof -
  have "pte_addr sample_pt (set_addr sample_pt a f) = a \<and> pte_flags sample_pt (set_addr sample_pt a f) = f \<and> set_addr sample_pt a f < 2 ^ 64"
    if "4096 dvd a" "a < 2 ^ 52" for a f
  proof -
    from that(1) obtain k where k: "a = 4096 * k" by blast
    with that(2) have "k < 2 ^ 40" by simp
    from sample_entry [OF this, of f] k show ?thesis by (simp add: sample_pt_def)
  qed
  moreover have "pte_addr sample_pt (set_flags sample_pt e f) = pte_addr sample_pt e \<and> pte_flags sample_pt (set_flags sample_pt e f) = f \<and>
      set_flags sample_pt e f < 2 ^ 64" for e f
  proof -
    have "e mod 2 ^ 52 div 4096 < 2 ^ 40" by (simp add: less_mult_imp_div_less)
    from sample_entry [OF this, of f] show ?thesis by (simp add: sample_pt_def mult.commute)
  qed
  ultimately show ?thesis unfolding pt_laws_def by (simp add: sample_pt_def)
qed

text \<open>A root table at 8 MiB, in memory full of zeros.\<close>

definition sample_tree :: pt_tree where
  "sample_tree = [[] \<mapsto> 8388608]"

lemma sample_tree_Some: "sample_tree p = Some a \<longleftrightarrow> p = [] \<and> a = 8388608" "sample_tree p = None \<longleftrightarrow> p \<noteq> []"
  by (auto simp: sample_tree_def)

lemma sample_root:
  "pt_inv sample_pt {0..<256} (2 ^ 27) sample_tree {PHYS_OFFSET + 4194304 ..< PHYS_OFFSET + 8388608} (\<lambda>_. 0, sample_hbuddy)"
  "exclusive (2 ^ 27) sample_hbuddy sample_tree"
  "frame_valid (2 ^ 27) sample_hbuddy 8388608"
proof -
  have geo: "geometry (2 ^ 27) sample_hbuddy" by (simp add: geometry_def sample_hbuddy_def bsz_def PHYS_OFFSET_def)
  have "in_region (2 ^ 27) sample_hbuddy 0 (8388608 + PHYS_OFFSET)"
    by (auto simp: in_region_def sample_hbuddy_def bsz_def blk_def bitmap_bytes_def PHYS_OFFSET_def)
  then show v: "frame_valid (2 ^ 27) sample_hbuddy 8388608"
    using geo by (simp add: frame_valid_def buddy_valid_def sample_hbuddy_def)
  then show "exclusive (2 ^ 27) sample_hbuddy sample_tree" by (auto simp: exclusive_def sample_tree_Some)
  have "pt_shape {0..<256} sample_tree" by (auto simp: pt_shape_def sample_tree_Some)
  moreover have "pt_mem sample_pt {0..<256} sample_tree (\<lambda>_. 0)" by (auto simp: pt_mem_def entry_ok_def rd64_zero sample_tree_Some split: option.splits)
  moreover have "pt_placed (2 ^ 27) sample_tree {PHYS_OFFSET + 4194304 ..< PHYS_OFFSET + 8388608} sample_hbuddy"
    using v by (auto simp: pt_placed_def tables_def page_iff sample_tree_Some)
  ultimately show "pt_inv sample_pt {0..<256} (2 ^ 27) sample_tree {PHYS_OFFSET + 4194304 ..< PHYS_OFFSET + 8388608} (\<lambda>_. 0, sample_hbuddy)"
    using sample_hinv by (simp add: pt_inv_def)
qed

lemma tables_leaf: "tables (T(ipath P va := t)) = tables T"
proof -
  have "(T(ipath P va := t)) q = T q" if "length q < 4" for q using that by (auto simp: ipath_def)
  then show ?thesis unfolding tables_def by (metis (no_types, lifting))
qed


lemma sample_page: "p_index sample_pt 4 1073741824 \<in> {0..<256}" "canonical 1073741824"
  by (simp_all add: sample_pt_def canonical_def)

lemma sample_unmapped: "translate_addr sample_pt 8388608 1073741824 (\<lambda>_. 0) = Some None"
  by (simp add: translate_addr_def active_level_4_table_def uadd_def PHYS_OFFSET_def rd64_zero sample_pt_def Let_def)

lemma sample_tree_root: "sample_tree [] = Some 8388608"
  by (simp add: sample_tree_Some)

lemma card_pages: "finite A \<Longrightarrow> card (pages A) \<le> 4096 * card A"
proof (induction rule: finite_induct)
  case (insert x A)
  have "card (pages (insert x A)) \<le> card (page x) + card (pages A)" unfolding pages_simps by (rule card_Un_le)
  with insert show ?case by simp
qed simp

section \<open>Properties\<close>


lemma sample_card: "\<not> card {PHYS_OFFSET + 4194304 ..< PHYS_OFFSET + 8388608} \<le> 2 * 4096"
  by simp


text \<open>
  C20. \<^verbatim>\<open>unmap\<close> returns the frame the page was mapped to, or \<^verbatim>\<open>None\<close> if it was not mapped, leaves the page
  unmapped and the translation of every other address as it was, and takes and gives no frame.
\<close>

theorem unmap_correct:
  assumes laws: "pt_laws P" and inv: "pt_inv P I L T F (m, b)" and root: "T [] = Some root"
    and pg: "p_index P 4 pg \<in> I" "canonical pg" "4096 dvd pg"
  shows "\<exists>r m' T'. unmap P pg (root + PHYS_OFFSET) m = Some (r, m') \<and> translate_addr P root pg m = Some r \<and>
    pt_inv P I L T' F (m', b) \<and> T' [] = Some root \<and>
    (\<forall>va. canonical va \<longrightarrow> p_index P 4 va \<in> I \<longrightarrow>
       translate_addr P root va m' = (if va div 4096 = pg div 4096 then Some None else translate_addr P root va m))"
proof -
  from unmap_spec [OF laws inv root pg(1)] obtain m' where m': "unmap P pg (root + PHYS_OFFSET) m = Some (T (ipath P pg), m')"
    "pt_inv P I L (T(ipath P pg := None)) F (m', b)" by blast
  define T' where "T' = T(ipath P pg := None)"
  have inv': "pt_inv P I L T' F (m', b)" using m'(2) by (simp add: T'_def)
  have r1: "T' [] = Some root" using root by (simp add: T'_def ipath_def)
  have "lookup P T' va = (if va div 4096 = pg div 4096 then None else lookup P T va)" if "canonical va" for va
    using ipath_inj [OF laws that pg(2)] by (auto simp: lookup_def T'_def)
  then have tr: "translate_addr P root va m' = (if va div 4096 = pg div 4096 then Some None else translate_addr P root va m)"
    if "canonical va" "p_index P 4 va \<in> I" for va
    using that translate_lookup [OF laws inv' r1 that(2)] translate_lookup [OF laws inv root that(2)] by simp
  have "pg mod 4096 = 0" using pg(3) by simp
  then have "translate_addr P root pg m = Some (T (ipath P pg))"
    using translate_lookup [OF laws inv root pg(1)] by (simp add: lookup_def option.map_ident)
  with m'(1) inv' r1 tr show ?thesis by blast
qed

theorem unmap_correct_witness:
  "\<exists>m'. unmap sample_pt 1073741824 (8388608 + PHYS_OFFSET) (\<lambda>_. 0) = Some (None, m')"
proof -
  have "(4096 :: nat) dvd 1073741824" by simp
  then show ?thesis
    using unmap_correct [OF sample_laws sample_root(1) sample_tree_root sample_page] sample_unmapped by (metis option.inject)
qed

text \<open>
  C21. Mapping and unmapping a page is the identity on translations: if \<^verbatim>\<open>map_to\<close> returned \<^verbatim>\<open>Ok\<close>,
  \<^verbatim>\<open>unmap\<close> returns the frame that was mapped, and afterwards every address translates as before
  the mapping.
\<close>

theorem map_unmap_roundtrip:
  assumes laws: "pt_laws P" and inv: "pt_inv P I L T F s" and root: "T [] = Some root"
    and pg: "p_index P 4 pg \<in> I" and fr: "4096 dvd frame" "frame < 2 ^ 52" and huge: "HUGE_PAGE \<notin> flags"
    and ok: "map_to P pg frame flags (root + PHYS_OFFSET) s = Some (Inr (), s')"
  shows "\<exists>m'. unmap P pg (root + PHYS_OFFSET) (fst s') = Some (Some frame, m') \<and>
    (\<forall>va. p_index P 4 va \<in> I \<longrightarrow> translate_addr P root va m' = translate_addr P root va (fst s))"
proof -
  from laws inv root pg fr huge obtain T1 F1 where
    g: "grown T F T1 F1" "T (ipath P pg) = None" "pt_inv P I L (T1(ipath P pg := Some frame)) F1 s'"
    by (cases rule: map_to_spec) (use ok in \<open>auto simp: reached_def\<close>)
  obtain m b where s': "s' = (m, b)" by (cases s')
  define T2 where "T2 = T1(ipath P pg := Some frame)"
  define T3 where "T3 = T2(ipath P pg := None)"
  have r: "T2 [] = Some root" "T3 [] = Some root" "T2 (ipath P pg) = Some frame"
    using g(1) root by (simp_all add: T3_def T2_def grown_def ipath_def)
  have inv2: "pt_inv P I L T2 F1 (m, b)" using g(3) s' by (simp add: T2_def)
  from unmap_spec [OF laws inv2 r(1) pg] obtain m' where m': "unmap P pg (root + PHYS_OFFSET) m = Some (Some frame, m')"
    "pt_inv P I L T3 F1 (m', b)" unfolding r(3) T3_def by blast
  have "lookup P T3 va = lookup P T va" for va
    using g(1,2) by (auto simp: lookup_def grown_def ipath_def T3_def T2_def)
  then have "translate_addr P root va m' = translate_addr P root va (fst s)" if "p_index P 4 va \<in> I" for va
    using translate_lookup [OF laws m'(2) r(2) that] translate_lookup [OF laws, of I L T F "fst s" "snd s" root va] inv root that by simp
  with m'(1) s' show ?thesis by auto
qed

lemma sample_mapped:
  obtains s' where "map_to sample_pt 1073741824 12288 {WRITABLE} (8388608 + PHYS_OFFSET) (\<lambda>_. 0, sample_hbuddy) = Some (Inr (), s')"
proof -
  have "(4096 :: nat) dvd 12288" "(12288 :: nat) < 2 ^ 52" "HUGE_PAGE \<notin> {WRITABLE}" by simp_all
  from sample_laws sample_root(1) sample_tree_root sample_page(1) this show thesis
  proof (cases rule: map_to_spec)
    case (oom p T1 F1 s1 a)
    then have g: "grown sample_tree {PHYS_OFFSET + 4194304 ..< PHYS_OFFSET + 8388608} T1 {}"
      "finite (tables T1 - tables sample_tree)" "card (tables T1 - tables sample_tree) \<le> 2"
      by (simp_all add: reached_def)
    have "{PHYS_OFFSET + 4194304 ..< PHYS_OFFSET + 8388608} = pages (tables T1 - tables sample_tree)"
      using g(1) unfolding grown_def by blast
    then show thesis using card_pages [OF g(2)] g(3) sample_card by simp
  qed (use that in \<open>auto simp: ipath_def sample_tree_Some\<close>)
qed

theorem map_unmap_roundtrip_witness:
  "\<exists>s' m'. map_to sample_pt 1073741824 12288 {WRITABLE} (8388608 + PHYS_OFFSET) (\<lambda>_. 0, sample_hbuddy) = Some (Inr (), s') \<and>
     unmap sample_pt 1073741824 (8388608 + PHYS_OFFSET) (fst s') = Some (Some 12288, m')"
proof (rule sample_mapped)
  fix s' assume run: "map_to sample_pt 1073741824 12288 {WRITABLE} (8388608 + PHYS_OFFSET) (\<lambda>_. 0, sample_hbuddy) = Some (Inr (), s')"
  have "(4096 :: nat) dvd 12288" "(12288 :: nat) < 2 ^ 52" "HUGE_PAGE \<notin> {WRITABLE}" by simp_all
  from map_unmap_roundtrip [OF sample_laws sample_root(1) sample_tree_root sample_page(1) this run] run show ?thesis by blast
qed

text \<open>
  C22. A new address space is isolated in the user half and shares the kernel half.
  \<^verbatim>\<open>create_user_address_space\<close> returns \<^verbatim>\<open>None\<close> only if no frame is free; otherwise the new root is a
  fresh frame, no user address is mapped in it, its 256 upper entries are those of the
  active root, and only that frame was taken.
\<close>

theorem create_user_address_space_correct:
  assumes laws: "pt_laws P" and fi: "frame_inv L F (m, b)" and act: "frame_valid L b active" "page active \<inter> F = {}"
  shows "create_user_address_space P active (m, b) = Some (None, (m, b)) \<and> F = {} \<or>
    (\<exists>c m' b'. create_user_address_space P active (m, b) = Some (Some c, (m', b')) \<and> page c \<subseteq> F \<and>
      pt_inv P {0..<256} L [[] \<mapsto> c] (F - page c) (m', b') \<and>
      (\<forall>va < 2 ^ 47. translate_addr P c va m' = Some None) \<and>
      (\<forall>i \<in> {256..<512}. rd64 m' (slot (c + PHYS_OFFSET) i) = rd64 m (slot (active + PHYS_OFFSET) i)) \<and>
      agree_off (F \<union> bitmap_bytes b) m m')"
  using laws fi act
proof (cases rule: create_spec)
  case (some c m' b')
  have "translate_addr P c va m' = Some None" if "va < 2 ^ 47" for va
  proof -
    have "va div 2 ^ 39 < 256" using that by (simp add: less_mult_imp_div_less)
    then have "p_index P 4 va \<in> {0..<256}" by (simp add: pt_lawsD(9) [OF laws])
    from translate_lookup [OF laws some(2) _ this, of c] show ?thesis by (simp add: lookup_def ipath_def)
  qed
  with some show ?thesis by blast
qed simp

theorem create_user_address_space_correct_witness:
  "\<exists>c m' b'. create_user_address_space sample_pt 8388608 (\<lambda>_. 0, sample_hbuddy) = Some (Some c, (m', b'))"
proof -
  have "page 8388608 \<inter> {PHYS_OFFSET + 4194304 ..< PHYS_OFFSET + 8388608} = {}" by (auto simp: page_iff)
  from create_user_address_space_correct [OF sample_laws sample_hinv sample_root(3) this] show ?thesis by auto
qed

text \<open>
  C23. Destroying an address space gives back every frame exactly once: if the tables and the
  mapped frames of the user half are pairwise different valid frames that are not free,
  \<^verbatim>\<open>destroy_user_address_space\<close> never panics, and afterwards exactly the bytes of the tables (the
  root included) and of the mapped frames have become free.  Nothing but free memory, those
  frames and the bitmap is written.
\<close>

theorem destroy_user_address_space_correct:
  assumes "pt_laws P" "pt_inv P {0..<256} L T F s" "T [] = Some root"
    "exclusive L (snd s) T" "pages (ran T) \<inter> F = {}"
  shows "\<exists>s'. destroy_user_address_space P root s = Some s' \<and> frame_inv L (F \<union> pages (ran T)) s' \<and>
    agree_off (F \<union> pages (ran T) \<union> bitmap_bytes (snd s)) (fst s) (fst s')"
  by (rule destroy_spec [OF assms]) blast

theorem destroy_user_address_space_correct_witness:
  "\<exists>s'. destroy_user_address_space sample_pt 8388608 (\<lambda>_. 0, sample_hbuddy) = Some s' \<and>
     frame_inv (2 ^ 27) ({PHYS_OFFSET + 4194304 ..< PHYS_OFFSET + 8388608} \<union> page 8388608) s'"
proof -
  have "pages (ran sample_tree) \<inter> {PHYS_OFFSET + 4194304 ..< PHYS_OFFSET + 8388608} = {}"
    by (auto simp: page_iff ran_def sample_tree_Some)
  moreover have "ran sample_tree = {8388608}" by (auto simp: ran_def sample_tree_Some)
  ultimately show ?thesis
    using destroy_user_address_space_correct [OF sample_laws sample_root(1) sample_tree_root] sample_root(2) by auto
qed

end
