(* ===== verification/Console.thy ===== *)
theory Console
  imports Prelude
begin

text \<open>
  The VGA text console of \<^verbatim>\<open>src/drivers/vga_buffer.rs\<close>: the writer with its scrolling and cursor,
  and its refinement of a terminal that keeps every line ever shown.  The cells of the frame
  buffer are \<open>Volatile\<close> cells of the crate \<^verbatim>\<open>volatile\<close>, a parameter of the model; port accesses are
  recorded in a trace.
\<close>

section \<open>The code\<close>

datatype color = Black | Blue | Green | Cyan | Red | Magenta | Brown | LightGray
  | DarkGray | LightBlue | LightGreen | LightCyan | LightRed | Pink | Yellow | White

text \<open>The discriminant of a color, \<open>color as u8\<close>.\<close>

fun color_u8 :: "color \<Rightarrow> u8" where
  "color_u8 Black = 0" | "color_u8 Blue = 1" | "color_u8 Green = 2" | "color_u8 Cyan = 3"
| "color_u8 Red = 4" | "color_u8 Magenta = 5" | "color_u8 Brown = 6" | "color_u8 LightGray = 7"
| "color_u8 DarkGray = 8" | "color_u8 LightBlue = 9" | "color_u8 LightGreen = 10"
| "color_u8 LightCyan = 11" | "color_u8 LightRed = 12" | "color_u8 Pink = 13"
| "color_u8 Yellow = 14" | "color_u8 White = 15"

definition color_code_new :: "color \<Rightarrow> color \<Rightarrow> u8" where
  "color_code_new foreground background = push_bit 4 (color_u8 background) OR color_u8 foreground"

record screen_char =
  ascii_character :: u8
  char_color :: u8

definition BUFFER_HEIGHT :: usize where
  "BUFFER_HEIGHT = 25"

definition BUFFER_WIDTH :: usize where
  "BUFFER_WIDTH = 80"

text \<open>A \<open>Volatile<ScreenChar>\<close> cell: what the crate promises is that a read returns the value
  written last.\<close>

record 'c volatile_ops =
  vread :: "'c \<Rightarrow> screen_char"
  vwrite :: "screen_char \<Rightarrow> 'c \<Rightarrow> 'c"

definition volatile_laws :: "'c volatile_ops \<Rightarrow> bool" where
  "volatile_laws V \<longleftrightarrow> (\<forall>c x. vread V (vwrite V x c) = x)"

text \<open>Port accesses in the order they happen.  What a device answers to a read may depend on all
  earlier accesses; it is the parameter \<open>dev\<close> of the code that reads.\<close>

datatype port_io = Out nat u8 | In nat u8

type_synonym device = "port_io list \<Rightarrow> nat \<Rightarrow> u8"

text \<open>The \<open>Writer\<close>, together with the trace of port accesses.\<close>

record 'c writer =
  column_position :: usize
  color_code :: u8
  chars :: "'c list list"
  ports :: "port_io list"

definition out8 :: "nat \<Rightarrow> u8 \<Rightarrow> 'c writer \<Rightarrow> 'c writer" where
  "out8 p v w = w\<lparr>ports := ports w @ [Out p v]\<rparr>"

definition in8 :: "device \<Rightarrow> nat \<Rightarrow> 'c writer \<Rightarrow> u8 \<times> 'c writer" where
  "in8 dev p w = (let v = dev (ports w) p in (v, w\<lparr>ports := ports w @ [In p v]\<rparr>))"

text \<open>An access \<open>self.buffer.chars[row][col]\<close> panics out of bounds.\<close>

definition read_cell :: "'c volatile_ops \<Rightarrow> usize \<Rightarrow> usize \<Rightarrow> 'c writer \<Rightarrow> screen_char option" where
  "read_cell V row col w =
     (if row < BUFFER_HEIGHT \<and> col < BUFFER_WIDTH then Some (vread V (chars w ! row ! col)) else None)"

definition write_cell :: "'c volatile_ops \<Rightarrow> usize \<Rightarrow> usize \<Rightarrow> screen_char \<Rightarrow> 'c writer \<Rightarrow> 'c writer option" where
  "write_cell V row col x w =
     (if row < BUFFER_HEIGHT \<and> col < BUFFER_WIDTH
      then Some (w\<lparr>chars := (chars w)[row := (chars w ! row)[col := vwrite V x (chars w ! row ! col)]]\<rparr>)
      else None)"

definition clear_row :: "'c volatile_ops \<Rightarrow> usize \<Rightarrow> 'c writer \<Rightarrow> 'c writer option" where
  "clear_row V row w = do {
     let blank_char = \<lparr>ascii_character = 0x20, char_color = color_code w\<rparr>;
     for_in [0..<BUFFER_WIDTH] (\<lambda>col. write_cell V row col blank_char) w
   }"

definition new_line :: "'c volatile_ops \<Rightarrow> 'c writer \<Rightarrow> 'c writer option" where
  "new_line V w = do {
     w \<leftarrow> for_in [1..<BUFFER_HEIGHT] (\<lambda>row. for_in [0..<BUFFER_WIDTH] (\<lambda>col w. do {
            character \<leftarrow> read_cell V row col w;
            write_cell V (row - 1) col character w })) w;
     w \<leftarrow> clear_row V (BUFFER_HEIGHT - 1) w;
     Some (w\<lparr>column_position := 0\<rparr>)
   }"

text \<open>The position fits a \<open>u16\<close>; \<open>as u16\<close> and \<open>as u8\<close> truncate.\<close>

definition update_cursor :: "'c writer \<Rightarrow> 'c writer option" where
  "update_cursor w = do {
     let row = BUFFER_HEIGHT - 1;
     let col = column_position w;
     q \<leftarrow> umul row BUFFER_WIDTH;
     q \<leftarrow> uadd q col;
     let pos = (of_nat q :: 16 word);
     let w = out8 0x3D4 0x0E w;
     let w = out8 0x3D5 (ucast (drop_bit 8 pos AND 0xFF)) w;
     let w = out8 0x3D4 0x0F w;
     Some (out8 0x3D5 (ucast (pos AND 0xFF)) w)
   }"

definition enable_cursor :: "device \<Rightarrow> u8 \<Rightarrow> u8 \<Rightarrow> 'c writer \<Rightarrow> 'c writer" where
  "enable_cursor dev start_scanline end_scanline w = (
     let w = out8 0x3D4 0x0A w;
         (cur, w) = in8 dev 0x3D5 w;
         w = out8 0x3D4 0x0A w;
         w = out8 0x3D5 ((cur AND 0xC0) OR (start_scanline AND 0x1F)) w;
         w = out8 0x3D4 0x0B w;
         (cur2, w) = in8 dev 0x3D5 w;
         w = out8 0x3D4 0x0B w
     in out8 0x3D5 ((cur2 AND 0xE0) OR (end_scanline AND 0x1F)) w)"

definition clear :: "'c volatile_ops \<Rightarrow> 'c writer \<Rightarrow> 'c writer option" where
  "clear V w = do {
     w \<leftarrow> for_in [0..<BUFFER_HEIGHT] (clear_row V) w;
     update_cursor (w\<lparr>column_position := 0\<rparr>)
   }"

definition write_byte :: "'c volatile_ops \<Rightarrow> u8 \<Rightarrow> 'c writer \<Rightarrow> 'c writer option" where
  "write_byte V byte w =
     (if byte = 0x0A then new_line V w
      else if byte = 0x0D then Some (w\<lparr>column_position := 0\<rparr>)
      else if byte = 0x08 then
        (if column_position w > 0 then Some (w\<lparr>column_position := column_position w - 1\<rparr>) else Some w)
      else if byte = 0x0C then clear V w
      else do {
        w \<leftarrow> if column_position w \<ge> BUFFER_WIDTH then new_line V w else Some w;
        let row = BUFFER_HEIGHT - 1;
        let col = column_position w;
        let color = color_code w;
        w \<leftarrow> write_cell V row col \<lparr>ascii_character = byte, char_color = color\<rparr> w;
        c \<leftarrow> uadd (column_position w) 1;
        Some (w\<lparr>column_position := c\<rparr>)
      })"

text \<open>A string is the sequence of its UTF-8 bytes.\<close>

definition clear_home :: "u8 list" where
  "clear_home = [0x1b, 0x5b, 0x32, 0x4a, 0x1b, 0x5b, 0x48]"

definition clear_seq :: "u8 list" where
  "clear_seq = [0x1b, 0x5b, 0x32, 0x4a]"

definition shown_byte :: "u8 \<Rightarrow> u8" where
  "shown_byte byte =
     (if byte \<in> {0x0A, 0x0D, 0x08, 0x0C} then byte
      else if 0x20 \<le> byte \<and> byte \<le> 0x7e then byte else 0xfe)"

definition write_string :: "'c volatile_ops \<Rightarrow> u8 list \<Rightarrow> 'c writer \<Rightarrow> 'c writer option" where
  "write_string V s w =
     (if s = clear_home \<or> s = clear_seq then clear V w
      else do {
        w \<leftarrow> for_in s (\<lambda>byte. write_byte V (shown_byte byte)) w;
        update_cursor w
      })"

text \<open>\<open>write_fmt\<close> hands the pieces of the formatted text to \<open>write_str\<close> one after the other.\<close>

definition print :: "'c volatile_ops \<Rightarrow> u8 list list \<Rightarrow> 'c writer \<Rightarrow> 'c writer option" where
  "print V args w = for_in args (write_string V) w"

definition WRITER :: "'c list list \<Rightarrow> 'c writer" where
  "WRITER buffer = \<lparr>column_position = 0, color_code = color_code_new Yellow Black, chars = buffer, ports = []\<rparr>"

section \<open>The terminal\<close>

text \<open>
  The specification: a terminal keeps every line it was ever given, of which the screen shows
  the last ones, and a column in the last line.
\<close>

record terminal =
  tlines :: "screen_char list list"
  tcol :: nat

definition blank_line :: "u8 \<Rightarrow> screen_char list" where
  "blank_line col = replicate 80 \<lparr>ascii_character = 0x20, char_color = col\<rparr>"

definition term_line :: "u8 \<Rightarrow> terminal \<Rightarrow> terminal" where
  "term_line col t = \<lparr>tlines = tlines t @ [blank_line col], tcol = 0\<rparr>"

definition term_clear :: "u8 \<Rightarrow> terminal \<Rightarrow> terminal" where
  "term_clear col t = \<lparr>tlines = tlines t @ replicate 25 (blank_line col), tcol = 0\<rparr>"

definition term_put :: "u8 \<Rightarrow> u8 \<Rightarrow> terminal \<Rightarrow> terminal" where
  "term_put col b t =
     \<lparr>tlines = butlast (tlines t) @ [(last (tlines t))[tcol t := \<lparr>ascii_character = b, char_color = col\<rparr>]],
      tcol = tcol t + 1\<rparr>"

definition term_byte :: "u8 \<Rightarrow> u8 \<Rightarrow> terminal \<Rightarrow> terminal" where
  "term_byte col b t =
     (if b = 0x0A then term_line col t
      else if b = 0x0D then t\<lparr>tcol := 0\<rparr>
      else if b = 0x08 then t\<lparr>tcol := tcol t - 1\<rparr>
      else if b = 0x0C then term_clear col t
      else term_put col b (if tcol t = 80 then term_line col t else t))"

definition term_string :: "u8 \<Rightarrow> u8 list \<Rightarrow> terminal \<Rightarrow> terminal" where
  "term_string col s t =
     (if s = clear_home \<or> s = clear_seq then term_clear col t
      else fold (\<lambda>b. term_byte col (shown_byte b)) s t)"

text \<open>The writer shows the terminal: the buffer has the last 25 lines.\<close>

definition screen :: "'c volatile_ops \<Rightarrow> 'c writer \<Rightarrow> screen_char list list" where
  "screen V w = map (map (vread V)) (chars w)"

definition shows_term :: "'c volatile_ops \<Rightarrow> 'c writer \<Rightarrow> terminal \<Rightarrow> bool" where
  "shows_term V w t \<longleftrightarrow> 25 \<le> length (tlines t) \<and> (\<forall>l \<in> set (tlines t). length l = 80) \<and> tcol t \<le> 80 \<and>
     screen V w = drop (length (tlines t) - 25) (tlines t) \<and> column_position w = tcol t"

lemmas dims = BUFFER_HEIGHT_def BUFFER_WIDTH_def

section \<open>The loops\<close>

text \<open>A state of a loop over the buffer: only the cells differ from those of \<open>w\<close>, and they show \<open>S\<close>.\<close>

definition dims_ok :: "'c writer \<Rightarrow> bool" where
  "dims_ok w \<longleftrightarrow> map length (chars w) = replicate 25 80"

definition scr :: "'c volatile_ops \<Rightarrow> 'c writer \<Rightarrow> screen_char list list \<Rightarrow> 'c writer \<Rightarrow> bool" where
  "scr V w S w' \<longleftrightarrow> dims_ok w' \<and> screen V w' = S \<and> w' = w\<lparr>chars := chars w'\<rparr>"

lemma dims_okD: "dims_ok w \<Longrightarrow> length (chars w) = 25" "dims_ok w \<Longrightarrow> row < 25 \<Longrightarrow> length (chars w ! row) = 80"
proof -
  assume d: "dims_ok w"
  from arg_cong [OF d [unfolded dims_ok_def], of length] show l: "length (chars w) = 25" by simp
  assume "row < 25"
  with arg_cong [OF d [unfolded dims_ok_def], of "\<lambda>l. l ! row"] l show "length (chars w ! row) = 80" by simp
qed

lemma screen_dims: "dims_ok w \<Longrightarrow> length (screen V w) = 25" "dims_ok w \<Longrightarrow> row < 25 \<Longrightarrow> length (screen V w ! row) = 80"
  by (simp_all add: screen_def dims_okD)

lemma scr_refl: "dims_ok w \<Longrightarrow> scr V w (screen V w) w"
  by (simp add: scr_def)

lemma scr_write:
  assumes "volatile_laws V" "scr V w S w'" "row < 25" "col < 80"
  shows "\<exists>w''. write_cell V row col x w' = Some w'' \<and> scr V w (S[row := (S ! row)[col := x]]) w''"
proof -
  let ?cs = "(chars w')[row := (chars w' ! row)[col := vwrite V x (chars w' ! row ! col)]]"
  from assms(2) have w': "dims_ok w'" "S = screen V w'" "w' = w\<lparr>chars := chars w'\<rparr>" by (auto simp: scr_def)
  note d = dims_okD(1) [OF w'(1)] dims_okD(2) [OF w'(1) assms(3)]
  have "map length ?cs = map length (chars w')" using d assms(3) by (auto intro!: nth_equalityI simp: nth_list_update)
  then have "dims_ok (w'\<lparr>chars := ?cs\<rparr>)" using w'(1) by (simp add: dims_ok_def)
  moreover have "map (map (vread V)) ?cs = (screen V w')[row := (screen V w' ! row)[col := x]]"
    using d assms(1,3,4) by (simp add: map_update screen_def volatile_laws_def)
  moreover have "w'\<lparr>chars := ?cs\<rparr> = w\<lparr>chars := ?cs\<rparr>" using w'(3) by (metis writer.update_convs(3) writer.surjective)
  ultimately have "scr V w (S[row := (S ! row)[col := x]]) (w'\<lparr>chars := ?cs\<rparr>)"
    unfolding scr_def w'(2) by (simp add: screen_def)
  then show ?thesis using assms(3,4) by (simp add: write_cell_def dims)
qed

lemma scr_row:
  assumes "volatile_laws V" "scr V w S w'" "row < 25" "length xs = 80"
    and body: "\<And>col w1. col < 80 \<Longrightarrow> scr V w (S[row := take col xs @ drop col (S ! row)]) w1 \<Longrightarrow>
      f col w1 = write_cell V row col (xs ! col) w1"
  shows "\<exists>w''. for_in [0..<80] f w' = Some w'' \<and> scr V w (S[row := xs]) w''"
proof -
  have l: "length S = 25" "length (S ! row) = 80"
    using assms(2,3) screen_dims by (auto simp: scr_def)
  let ?P = "\<lambda>k w1. scr V w (S[row := take k xs @ drop k (S ! row)]) w1"
  have step: "\<exists>w2. f k w1 = Some w2 \<and> ?P (Suc k) w2" if "k < 80" "?P k w1" for k w1
  proof -
    have "(take k xs @ drop k (S ! row))[k := xs ! k] = take (Suc k) xs @ drop (Suc k) (S ! row)"
      using that(1) assms(4) l(2)
      by (auto simp: list_update_append take_Suc_conv_app_nth Cons_nth_drop_Suc [symmetric])
    with scr_write [OF assms(1) that(2) assms(3) that(1), of "xs ! k"] body [OF that] l(1) assms(3)
    show ?thesis by simp
  qed
  from assms(2) have "?P 0 w'" by simp
  from for_range [where P = ?P and lo = 0 and hi = 80 and f = f, OF step _ this] assms(4) l(2)
  show ?thesis by simp
qed

lemma clear_row_scr:
  assumes "volatile_laws V" "scr V w S w'" "row < 25"
  shows "\<exists>w''. clear_row V row w' = Some w'' \<and> scr V w (S[row := blank_line (color_code w)]) w''"
proof -
  from assms(2) have "color_code w' = color_code w" by (metis scr_def writer.select_convs(2) writer.surjective writer.update_convs(3))
  then show ?thesis unfolding clear_row_def dims Let_def
    by (intro scr_row assms) (auto simp: blank_line_def)
qed

lemma copy_row_scr:
  assumes "volatile_laws V" "scr V w S w'" "0 < row" "row < 25"
  shows "\<exists>w''. for_in [0..<80] (\<lambda>col w. do { character \<leftarrow> read_cell V row col w;
           write_cell V (row - 1) col character w }) w' = Some w'' \<and> scr V w (S[row - 1 := S ! row]) w''"
proof (rule scr_row [OF assms(1,2)])
  have S: "S = screen V w'" "dims_ok w'" using assms(2) by (auto simp: scr_def)
  show "length (S ! row) = 80" using screen_dims(2) [OF S(2) assms(4)] S(1) by simp
  fix col w1 assume c: "col < 80" "scr V w (S[row - 1 := take col (S ! row) @ drop col (S ! (row - 1))]) w1"
  then have d: "dims_ok w1" and eq: "screen V w1 = S[row - 1 := take col (S ! row) @ drop col (S ! (row - 1))]"
    by (auto simp: scr_def)
  have "S ! row = screen V w1 ! row" unfolding eq using assms(3) by simp
  also have "\<dots> = map (vread V) (chars w1 ! row)" using dims_okD(1) [OF d] assms(4) by (simp add: screen_def)
  finally have "S ! row ! col = vread V (chars w1 ! row ! col)" using dims_okD(2) [OF d assms(4)] c(1) by simp
  then show "do { character \<leftarrow> read_cell V row col w1; write_cell V (row - 1) col character w1 } =
      write_cell V (row - 1) col (S ! row ! col) w1"
    using assms(4) c(1) by (simp add: read_cell_def dims)
qed (use assms in auto)

lemma scroll_scr:
  assumes "volatile_laws V" "dims_ok w"
  shows "\<exists>w'. new_line V w = Some (w'\<lparr>column_position := 0\<rparr>) \<and>
    scr V w (drop 1 (screen V w) @ [blank_line (color_code w)]) w'"
proof -
  let ?S = "screen V w"
  have l: "length ?S = 25" using screen_dims(1) [OF assms(2)] .
  let ?f = "\<lambda>row. for_in [0..<80] (\<lambda>col w. do { character \<leftarrow> read_cell V row col w;
           write_cell V (row - 1) col character w })"
  let ?P = "\<lambda>k w1. scr V w (take (k - 1) (drop 1 ?S) @ drop (k - 1) ?S) w1"
  have step: "\<exists>w2. ?f k w1 = Some w2 \<and> ?P (Suc k) w2" if "1 \<le> k" "k < 25" "?P k w1" for k w1
  proof -
    let ?T = "take (k - 1) (drop 1 ?S) @ drop (k - 1) ?S"
    from that(1) obtain j where j: "k = Suc j" by (cases k) auto
    have "?T ! k = ?S ! k" using that(1,2) l j by (simp add: nth_append)
    moreover have "drop j ?S = ?S ! j # drop (Suc j) ?S" using that(2) l j by (simp add: Cons_nth_drop_Suc)
    ultimately have "?T[k - 1 := ?T ! k] = take k (drop 1 ?S) @ drop k ?S"
      using that(1,2) l j by (simp add: list_update_append take_Suc_conv_app_nth)
    with copy_row_scr [OF assms(1) that(3) _ that(2)] that(1) show ?thesis by simp
  qed
  have "?P 1 w" using scr_refl [OF assms(2)] by simp
  from for_range [where P = ?P and lo = 1 and hi = 25 and f = ?f, OF step _ this]
  obtain w1 where w1: "for_in [1..<25] ?f w = Some w1" "scr V w (take 24 (drop 1 ?S) @ drop 24 ?S) w1" by auto
  from clear_row_scr [OF assms(1) w1(2), of 24] obtain w2 where
    w2: "clear_row V 24 w1 = Some w2" "scr V w ((take 24 (drop 1 ?S) @ drop 24 ?S)[24 := blank_line (color_code w)]) w2" by auto
  have "drop 24 ?S = [?S ! 24]" using l Cons_nth_drop_Suc [of 24 ?S] by simp
  then have "(take 24 (drop 1 ?S) @ drop 24 ?S)[24 := blank_line (color_code w)] = drop 1 ?S @ [blank_line (color_code w)]"
    using l by (simp add: list_update_append)
  with w1(1) w2 show ?thesis unfolding new_line_def dims by (simp only: bind.bind_lunit) auto
qed

lemma clear_scr:
  assumes "volatile_laws V" "dims_ok w"
  shows "\<exists>w'. for_in [0..<25] (clear_row V) w = Some w' \<and> scr V w (replicate 25 (blank_line (color_code w))) w'"
proof -
  let ?S = "screen V w" and ?b = "blank_line (color_code w)"
  have l: "length ?S = 25" using screen_dims(1) [OF assms(2)] .
  let ?P = "\<lambda>k w1. scr V w (replicate k ?b @ drop k ?S) w1"
  have step: "\<exists>w2. clear_row V k w1 = Some w2 \<and> ?P (Suc k) w2" if "k < 25" "?P k w1" for k w1
  proof -
    have "drop k ?S = ?S ! k # drop (Suc k) ?S" using that(1) l by (simp add: Cons_nth_drop_Suc)
    then have "(replicate k ?b @ drop k ?S)[k := ?b] = replicate (Suc k) ?b @ drop (Suc k) ?S"
      by (simp add: list_update_append replicate_append_same)
    with clear_row_scr [OF assms(1) that(2,1)] show ?thesis by simp
  qed
  have "?P 0 w" using scr_refl [OF assms(2)] by simp
  from for_range [where P = ?P and lo = 0 and hi = 25 and f = "clear_row V", OF step _ this] l
  show ?thesis by simp
qed

section \<open>Refinement\<close>

lemma shows_dims: "shows_term V w t \<Longrightarrow> dims_ok w"
proof -
  assume "shows_term V w t"
  then have s: "screen V w = drop (length (tlines t) - 25) (tlines t)" "25 \<le> length (tlines t)"
    "\<forall>l \<in> set (tlines t). length l = 80" unfolding shows_term_def by auto
  from s(3) have "\<forall>l \<in> set (screen V w). length l = 80" unfolding s(1) by (auto dest: in_set_dropD)
  moreover have "length (screen V w) = 25" using s(1,2) by simp
  ultimately have "map length (screen V w) = replicate 25 80"
    by (metis (no_types, lifting) map_replicate_const list.map_cong0)
  moreover have "map length (screen V w) = map length (chars w)" by (simp add: screen_def)
  ultimately show "dims_ok w" unfolding dims_ok_def by simp
qed

lemma scr_base: "scr V w S w' \<Longrightarrow> color_code w' = color_code w \<and> column_position w' = column_position w"
  unfolding scr_def by (metis writer.select_convs(1,2) writer.surjective writer.update_convs(3))

lemma screen_col [simp]: "screen V (w\<lparr>column_position := c\<rparr>) = screen V w"
  "screen V (w\<lparr>ports := p\<rparr>) = screen V w"
  by (simp_all add: screen_def)

lemma length_blank_line [simp]: "length (blank_line c) = 80"
  by (simp add: blank_line_def)

lemma new_line_refines:
  assumes "volatile_laws V" "shows_term V w t"
  shows "\<exists>w'. new_line V w = Some w' \<and> shows_term V w' (term_line (color_code w) t) \<and> color_code w' = color_code w"
proof -
  from scroll_scr [OF assms(1) shows_dims [OF assms(2)]] obtain w' where
    w': "new_line V w = Some (w'\<lparr>column_position := 0\<rparr>)"
      "scr V w (drop 1 (screen V w) @ [blank_line (color_code w)]) w'" by blast
  have "shows_term V (w'\<lparr>column_position := 0\<rparr>) (term_line (color_code w) t)"
    using assms(2) w'(2) Suc_diff_le [of 25 "length (tlines t)"] unfolding shows_term_def scr_def term_line_def
    by auto
  with w' scr_base [OF w'(2)] show ?thesis by simp
qed

lemma update_cursor_refines:
  assumes "shows_term V w t"
  shows "\<exists>hi lo. update_cursor w = Some (w\<lparr>ports := ports w @ [Out 0x3D4 0x0E, Out 0x3D5 hi, Out 0x3D4 0x0F, Out 0x3D5 lo]\<rparr>) \<and>
    256 * unat hi + unat lo = 24 * 80 + tcol t"
proof -
  from assms have c: "column_position w = tcol t" "tcol t \<le> 80" by (auto simp: shows_term_def)
  let ?p = "of_nat (1920 + tcol t) :: 16 word"
  have p: "unat ?p = 1920 + tcol t" using c(2) by (simp add: unat_of_nat take_bit_eq_mod del: of_nat_add)
  have hi: "unat (ucast (drop_bit 8 ?p AND 0xFF) :: u8) = unat ?p div 256"
  proof -
    have "drop_bit 8 ?p AND 0xFF = take_bit 8 (drop_bit 8 ?p)" by (simp add: take_bit_eq_mask mask_numeral del: of_nat_add)
    moreover have "(1920 + tcol t) mod 65536 div 256 mod 256 = (1920 + tcol t) div 256" using c(2) by (simp add: div_less_mono)
    ultimately show ?thesis
      by (simp only: unsigned_ucast_eq unsigned_take_bit_eq unsigned_drop_bit_eq p) (simp add: take_bit_eq_mod drop_bit_eq_div)
  qed
  have lo: "unat (ucast (?p AND 0xFF) :: u8) = unat ?p mod 256"
  proof -
    have "?p AND 0xFF = take_bit 8 ?p" by (simp add: take_bit_eq_mask mask_numeral)
    then show ?thesis by (simp only: unsigned_ucast_eq unsigned_take_bit_eq p) (simp add: take_bit_eq_mod)
  qed
  have "256 * unat (ucast (drop_bit 8 ?p AND 0xFF) :: u8) + unat (ucast (?p AND 0xFF) :: u8) = 24 * 80 + tcol t"
    unfolding hi lo p by presburger
  moreover have "umul (BUFFER_HEIGHT - 1) BUFFER_WIDTH = Some 1920" "uadd 1920 (tcol t) = Some (1920 + tcol t)"
    using c(2) by (simp_all add: checked dims)
  ultimately show ?thesis unfolding update_cursor_def Let_def c(1)
    by (intro exI [of _ "ucast (drop_bit 8 ?p AND 0xFF)"] exI [of _ "ucast (?p AND 0xFF)"]) (simp add: out8_def)
qed

definition cursor_sent :: "'c writer \<Rightarrow> bool" where
  "cursor_sent w \<longleftrightarrow> (\<exists>ps hi lo. ports w = ps @ [Out 0x3D4 0x0E, Out 0x3D5 hi, Out 0x3D4 0x0F, Out 0x3D5 lo] \<and>
     256 * unat hi + unat lo = 24 * 80 + column_position w)"

lemma update_cursor_shows:
  assumes "shows_term V w t"
  shows "\<exists>w'. update_cursor w = Some w' \<and> shows_term V w' t \<and> color_code w' = color_code w \<and> cursor_sent w'"
proof -
  from update_cursor_refines [OF assms] obtain hi lo where
    u: "update_cursor w = Some (w\<lparr>ports := ports w @ [Out 0x3D4 0x0E, Out 0x3D5 hi, Out 0x3D4 0x0F, Out 0x3D5 lo]\<rparr>)"
      "256 * unat hi + unat lo = 24 * 80 + tcol t" by blast
  with assms show ?thesis unfolding u(1) cursor_sent_def by (auto simp: shows_term_def)
qed

lemma clear_refines:
  assumes "volatile_laws V" "shows_term V w t"
  shows "\<exists>w'. clear V w = Some w' \<and> shows_term V w' (term_clear (color_code w) t) \<and> color_code w' = color_code w \<and> cursor_sent w'"
proof -
  from clear_scr [OF assms(1) shows_dims [OF assms(2)]] obtain w1 where
    w1: "for_in [0..<25] (clear_row V) w = Some w1" "scr V w (replicate 25 (blank_line (color_code w))) w1" by blast
  have "shows_term V (w1\<lparr>column_position := 0\<rparr>) (term_clear (color_code w) t)"
    using assms(2) w1(2) unfolding shows_term_def scr_def term_clear_def by auto
  from update_cursor_shows [OF this] scr_base [OF w1(2)] show ?thesis
    unfolding clear_def dims w1(1) by (simp only: bind.bind_lunit) simp
qed

lemma put_refines:
  assumes "volatile_laws V" "shows_term V w t" "tcol t < 80"
  shows "\<exists>w'. write_cell V 24 (column_position w) \<lparr>ascii_character = b, char_color = color_code w\<rparr> w = Some w' \<and>
    column_position w' = column_position w \<and> color_code w' = color_code w \<and>
    shows_term V (w'\<lparr>column_position := Suc (tcol t)\<rparr>) (term_put (color_code w) b t)"
proof -
  from assms(2) have s: "screen V w = drop (length (tlines t) - 25) (tlines t)" "25 \<le> length (tlines t)"
    "\<forall>l \<in> set (tlines t). length l = 80" "column_position w = tcol t" unfolding shows_term_def by auto
  let ?x = "\<lparr>ascii_character = b, char_color = color_code w\<rparr>"
  from scr_write [OF assms(1) scr_refl [OF shows_dims [OF assms(2)]], of 24 "tcol t" ?x] assms(3) obtain w' where
    w': "write_cell V 24 (tcol t) ?x w = Some w'"
      "scr V w ((screen V w)[24 := (screen V w ! 24)[tcol t := ?x]]) w'" by auto
  from s(2) obtain ls l where t: "tlines t = ls @ [l]" by (metis append_butlast_last_id list.size(3) not_numeral_le_zero)
  have "drop (length ls - 24) (ls @ [l]) = drop (length ls - 24) ls @ [l]" by simp
  moreover have "length (drop (length ls - 24) ls) = 24" using s(2) t by simp
  ultimately have "screen V w ! 24 = l" "(screen V w)[24 := l[tcol t := ?x]] = drop (length ls - 24) ls @ [l[tcol t := ?x]]"
    using s(1) t by (simp_all add: nth_append list_update_append)
  with w'(2) have "screen V w' = drop (length ls - 24) ls @ [l[tcol t := ?x]]" by (simp add: scr_def)
  then have "shows_term V (w'\<lparr>column_position := Suc (tcol t)\<rparr>) (term_put (color_code w) b t)"
    using s(2,3) t assms(3) unfolding shows_term_def term_put_def by auto
  with w' scr_base [OF w'(2)] s(4) show ?thesis by auto
qed

lemma write_byte_refines:
  assumes "volatile_laws V" "shows_term V w t"
  shows "\<exists>w'. write_byte V b w = Some w' \<and> shows_term V w' (term_byte (color_code w) b t) \<and> color_code w' = color_code w"
proof -
  have c: "column_position w = tcol t" "tcol t \<le> 80" using assms(2) by (auto simp: shows_term_def)
  consider "b = 0x0A" | "b = 0x0D" | "b = 0x08" | "b = 0x0C" | "b \<notin> {0x0A, 0x0D, 0x08, 0x0C}" by blast
  then show ?thesis
  proof cases
    case 5
    let ?t = "if tcol t = 80 then term_line (color_code w) t else t"
    obtain w1 where w1: "(if column_position w \<ge> BUFFER_WIDTH then new_line V w else Some w) = Some w1"
      "shows_term V w1 ?t" "color_code w1 = color_code w"
      using new_line_refines [OF assms] assms(2) c by (cases "tcol t = 80") (auto simp: dims)
    have t1: "tcol ?t < 80" using c(2) by (simp add: term_line_def)
    from put_refines [OF assms(1) w1(2) t1, of b] obtain w2 where
      w2: "write_cell V 24 (column_position w1) \<lparr>ascii_character = b, char_color = color_code w1\<rparr> w1 = Some w2"
        "column_position w2 = column_position w1" "color_code w2 = color_code w1"
        "shows_term V (w2\<lparr>column_position := Suc (tcol ?t)\<rparr>) (term_put (color_code w1) b ?t)" by blast
    have "column_position w1 = tcol ?t" using w1(2) by (simp add: shows_term_def)
    then have "uadd (column_position w2) 1 = Some (Suc (tcol ?t))" using w2(2) t1 by (simp add: checked)
    moreover have "BUFFER_HEIGHT - 1 = 24" by (simp add: dims)
    ultimately have "write_byte V b w = Some (w2\<lparr>column_position := Suc (tcol ?t)\<rparr>)"
      using 5 w1(1) w2(1) unfolding write_byte_def Let_def by (simp del: One_nat_def)
    with w2 w1(3) 5 show ?thesis by (simp add: term_byte_def)
  next
    case 1
    with new_line_refines [OF assms] show ?thesis by (simp add: write_byte_def term_byte_def)
  next
    case 4
    with clear_refines [OF assms] show ?thesis by (auto simp: write_byte_def term_byte_def)
  qed (use assms(2) in \<open>auto simp: write_byte_def term_byte_def shows_term_def\<close>)
qed

lemma write_string_refines:
  assumes "volatile_laws V" "shows_term V w t"
  shows "\<exists>w'. write_string V s w = Some w' \<and> shows_term V w' (term_string (color_code w) s t) \<and> color_code w' = color_code w \<and> cursor_sent w'"
proof (cases "s = clear_home \<or> s = clear_seq")
  case True
  with clear_refines [OF assms] show ?thesis by (simp add: write_string_def term_string_def)
next
  case False
  let ?c = "color_code w"
  let ?P = "\<lambda>ys w1. shows_term V w1 (fold (\<lambda>b. term_byte ?c (shown_byte b)) ys t) \<and> color_code w1 = ?c"
  have "\<exists>w1. for_in s (\<lambda>byte. write_byte V (shown_byte byte)) w = Some w1 \<and> ?P s w1"
  proof (rule for_in_inv)
    fix ys y zs w1 assume "?P ys w1"
    with write_byte_refines [OF assms(1), of w1 _ "shown_byte y"] show "\<exists>w2. write_byte V (shown_byte y) w1 = Some w2 \<and> ?P (ys @ [y]) w2"
      by fastforce
  qed (use assms(2) in simp)
  then obtain w1 where w1: "for_in s (\<lambda>byte. write_byte V (shown_byte byte)) w = Some w1" "?P s w1" by blast
  from update_cursor_shows [OF conjunct1 [OF w1(2)]] w1 False show ?thesis
    by (auto simp: write_string_def term_string_def)
qed

section \<open>Correctness\<close>

text \<open>
  C24.  The console implements the terminal.  If the screen shows the last 25 lines of a terminal,
  \<open>print\<close> of any text returns without an out-of-bounds access, whatever bytes the text has, and
  the screen then shows the last 25 lines of that terminal after it has taken the text; afterwards
  the column is at most 80, and the CRT controller has been sent the cell of the last line at that
  column as the position of the cursor, if there was anything to print.
\<close>

theorem console_refines_terminal:
  assumes "volatile_laws V" "shows_term V w t"
  shows "\<exists>w'. print V args w = Some w' \<and> shows_term V w' (fold (term_string (color_code w)) args t) \<and>
    column_position w' \<le> 80 \<and>
    (args \<noteq> [] \<longrightarrow> (\<exists>ps hi lo. ports w' = ps @ [Out 0x3D4 0x0E, Out 0x3D5 hi, Out 0x3D4 0x0F, Out 0x3D5 lo] \<and>
       256 * unat hi + unat lo = 24 * 80 + column_position w'))"
proof -
  let ?c = "color_code w"
  let ?P = "\<lambda>ys w1. shows_term V w1 (fold (term_string ?c) ys t) \<and> color_code w1 = ?c \<and> (ys \<noteq> [] \<longrightarrow> cursor_sent w1)"
  have "\<exists>w1. for_in args (write_string V) w = Some w1 \<and> ?P args w1"
  proof (rule for_in_inv)
    fix ys y zs w1 assume "?P ys w1"
    with write_string_refines [OF assms(1), of w1 _ y] show "\<exists>w2. write_string V y w1 = Some w2 \<and> ?P (ys @ [y]) w2"
      by fastforce
  qed (use assms(2) in simp)
  then obtain w1 where w1: "print V args w = Some w1" "?P args w1" unfolding print_def by blast
  moreover have "column_position w1 \<le> 80" using w1(2) unfolding shows_term_def by simp
  ultimately show ?thesis unfolding cursor_sent_def by blast
qed

text \<open>An instance: plain memory cells, and a blank screen.\<close>

definition plain_cells :: "screen_char volatile_ops" where
  "plain_cells = \<lparr>vread = \<lambda>c. c, vwrite = \<lambda>x c. x\<rparr>"

definition blank_screen :: "screen_char list list" where
  "blank_screen = replicate 25 (blank_line 0)"

theorem console_refines_terminal_witness:
  "\<exists>w'. print plain_cells [[0x48, 0x69, 0x0A], clear_seq] (WRITER blank_screen) = Some w' \<and>
    shows_term plain_cells w' (fold (term_string 14) [[0x48, 0x69, 0x0A], clear_seq] \<lparr>tlines = blank_screen, tcol = 0\<rparr>) \<and>
    column_position w' \<le> 80"
proof -
  have V: "volatile_laws plain_cells" by (simp add: volatile_laws_def plain_cells_def)
  have t: "shows_term plain_cells (WRITER blank_screen) \<lparr>tlines = blank_screen, tcol = 0\<rparr>"
    by (auto simp: shows_term_def WRITER_def blank_screen_def screen_def plain_cells_def)
  have c: "color_code (WRITER blank_screen) = 14" by (simp add: WRITER_def color_code_new_def)
  show ?thesis using console_refines_terminal [OF V t, of "[[0x48, 0x69, 0x0A], clear_seq]", unfolded c] by blast
qed

end
