(* ===== verification/Tar.thy ===== *)
theory Tar
  imports Heap
begin

text \<open>
  The initial RAM file system of \<^verbatim>\<open>src/fs/tar.rs\<close>: parsing a tar archive in memory, looking up a file,
  reading it and enumerating the directory; and the directory entries of \<^verbatim>\<open>src/fs/vfs.rs\<close>.
  The main result is the round trip: what is in an archive is what the file system serves.
\<close>

section \<open>The code\<close>

record tar_vnode =
  tv_name :: "u8 list"
  tv_size :: usize
  data_ptr :: usize

record dir_entry =
  de_size :: usize
  entry_type :: u8
  name_len :: u8
  de_name :: "u8 list"

text \<open>\<open>copy_nonoverlapping\<close> of \<open>n\<close> bytes.\<close>

definition copy_bytes :: "mem \<Rightarrow> usize \<Rightarrow> usize \<Rightarrow> nat \<Rightarrow> mem" where
  "copy_bytes m src dst n = (\<lambda>x. if dst \<le> x \<and> x < dst + n then m (src + (x - dst)) else m x)"

text \<open>\<open>TarVnode::read\<close> into the buffer of \<open>len\<close> bytes at \<open>buf\<close>: the result and the memory.\<close>

definition tar_read :: "tar_vnode \<Rightarrow> usize \<Rightarrow> usize \<Rightarrow> usize \<Rightarrow> mem \<Rightarrow> usize option \<times> mem" where
  "tar_read v offset buf len m =
     (if offset \<ge> tv_size v then (Some 0, m)
      else let bytes_to_read = min len (tv_size v - offset)
           in (Some bytes_to_read, copy_bytes m (data_ptr v + offset) buf bytes_to_read))"

fun parse_octal_from :: "u8 list \<Rightarrow> usize \<Rightarrow> usize option" where
  "parse_octal_from [] result = Some result"
| "parse_octal_from (b # bs) result =
     (if 0x30 \<le> b \<and> b \<le> 0x37 then do {
        r \<leftarrow> umul result 8;
        r \<leftarrow> uadd r (unat (b - 0x30));
        parse_octal_from bs r }
      else if (b = 0 \<or> b = 0x20) \<and> result > 0 then Some result
      else parse_octal_from bs result)"

definition parse_octal :: "u8 list \<Rightarrow> usize option" where
  "parse_octal bytes = parse_octal_from bytes 0"

definition tar_lookup :: "u8 list \<Rightarrow> tar_vnode list \<Rightarrow> tar_vnode option" where
  "tar_lookup name files = find (\<lambda>i. tv_name i = name) files"

definition tar_readdir :: "usize \<Rightarrow> tar_vnode list \<Rightarrow> dir_entry option" where
  "tar_readdir index files =
     (if index < length files then
        let file = files ! index;
            bytes = tv_name file;
            len = min (length bytes) 63
        in Some \<lparr>de_size = tv_size file, entry_type = 1, name_len = of_nat len,
                 de_name = take len bytes @ replicate (64 - len) 0\<rparr>
      else None)"

text \<open>The bytes of a raw_slice \<open>from_raw_parts\<close>.\<close>

definition raw_slice :: "mem \<Rightarrow> usize \<Rightarrow> nat \<Rightarrow> u8 list" where
  "raw_slice m a n = map m [a..<a + n]"

text \<open>The search for the end of the name: 0 when none of the first 100 bytes is zero.\<close>

definition null_index :: "u8 list \<Rightarrow> usize" where
  "null_index header = (case find (\<lambda>i. header ! i = 0) [0..<100] of Some i \<Rightarrow> i | None \<Rightarrow> 0)"

text \<open>The loop, which returns the files only if it ends.\<close>

partial_function (option) parse_loop :: "mem \<Rightarrow> usize \<Rightarrow> tar_vnode list \<Rightarrow> tar_vnode list option" where
  "parse_loop m current_addr files = (
     let header = raw_slice m current_addr 512
     in if header ! 0 = 0 then Some files
        else do {
          let null_idx = null_index header;
          let name = take null_idx header;
          sz \<leftarrow> parse_octal (take 12 (drop 124 header));
          ptr \<leftarrow> uadd current_addr 512;
          aligned \<leftarrow> align_to sz 512;
          step \<leftarrow> uadd 512 aligned;
          nxt \<leftarrow> uadd current_addr step;
          parse_loop m nxt (files @ [\<lparr>tv_name = name, tv_size = sz, data_ptr = ptr\<rparr>])
        })"

definition parse_tarball :: "usize \<Rightarrow> mem \<Rightarrow> tar_vnode list option" where
  "parse_tarball base m = parse_loop m base []"

section \<open>Archives\<close>

text \<open>
  The specification: an archive in memory, as the tar format has it.  A size field is padded on
  the left with blanks, has octal digits, and ends with a blank or a zero byte, or is filled by
  the digits.
\<close>

definition octal_digit :: "u8 \<Rightarrow> bool" where
  "octal_digit b \<longleftrightarrow> 0x30 \<le> b \<and> b \<le> 0x37"

definition octal_value :: "u8 list \<Rightarrow> nat" where
  "octal_value ds = fold (\<lambda>b n. n * 8 + unat (b - 0x30)) ds 0"

definition octal_field :: "u8 list \<Rightarrow> nat \<Rightarrow> bool" where
  "octal_field bs n \<longleftrightarrow> (\<exists>pad ds rest. bs = pad @ ds @ rest \<and> set pad \<subseteq> {0x20} \<and> (\<forall>d \<in> set ds. octal_digit d) \<and>
     octal_value ds = n \<and> (if n = 0 then set rest \<subseteq> {0, 0x20} else rest = [] \<or> hd rest \<in> {0, 0x20}))"

fun archive :: "mem \<Rightarrow> usize \<Rightarrow> (u8 list \<times> u8 list) list \<Rightarrow> bool" where
  "archive m a [] \<longleftrightarrow> m a = 0"
| "archive m a ((name, data) # fs) \<longleftrightarrow>
     name \<noteq> [] \<and> length name < 100 \<and> 0 \<notin> set name \<and> raw_slice m a (length name) = name \<and> m (a + length name) = 0 \<and>
     octal_field (raw_slice m (a + 124) 12) (length data) \<and> raw_slice m (a + 512) (length data) = data \<and>
     archive m (a + 512 + round_up 9 (length data)) fs"

fun archive_end :: "usize \<Rightarrow> (u8 list \<times> u8 list) list \<Rightarrow> usize" where
  "archive_end a [] = a"
| "archive_end a ((name, data) # fs) = archive_end (a + 512 + round_up 9 (length data)) fs"

text \<open>A file node that serves the given name and data.\<close>

definition serves :: "mem \<Rightarrow> tar_vnode \<Rightarrow> u8 list \<times> u8 list \<Rightarrow> bool" where
  "serves m v f \<longleftrightarrow> tv_name v = fst f \<and> tv_size v = length (snd f) \<and> raw_slice m (data_ptr v) (length (snd f)) = snd f"

section \<open>Parsing\<close>

abbreviation octal_step :: "u8 \<Rightarrow> nat \<Rightarrow> nat" where
  "octal_step b n \<equiv> n * 8 + unat (b - 0x30)"

lemma octal_fold_ge: "r \<le> fold octal_step ds r"
proof (induction ds arbitrary: r)
  case (Cons d ds)
  from Cons.IH [of "octal_step d r"] show ?case by simp
qed simp

lemma parse_octal_digits:
  "\<forall>d \<in> set ds. octal_digit d \<Longrightarrow> fold octal_step ds r < 2 ^ 64 \<Longrightarrow>
   parse_octal_from (ds @ rest) r = parse_octal_from rest (fold octal_step ds r)"
proof (induction ds arbitrary: r)
  case (Cons d ds)
  have "octal_step d r < 2 ^ 64" using Cons.prems(2) octal_fold_ge [of "octal_step d r" ds] by simp
  then have "umul r 8 = Some (r * 8)" "uadd (r * 8) (unat (d - 0x30)) = Some (octal_step d r)"
    by (simp_all add: checked)
  with Cons show ?case by (simp add: octal_digit_def)
qed simp

lemma parse_octal_pad: "set pad \<subseteq> {0, 0x20} \<Longrightarrow> parse_octal_from (pad @ bs) 0 = parse_octal_from bs 0"
  by (induction pad) auto

lemma parse_octal_field:
  assumes "octal_field bs n" "n < 2 ^ 64"
  shows "parse_octal bs = Some n"
proof -
  from assms(1) obtain pad ds rest where bs: "bs = pad @ ds @ rest" "set pad \<subseteq> {0, 0x20}" "\<forall>d \<in> set ds. octal_digit d"
    "fold octal_step ds 0 = n" "if n = 0 then set rest \<subseteq> {0, 0x20} else rest = [] \<or> hd rest \<in> {0, 0x20}"
    unfolding octal_field_def octal_value_def by blast
  have "parse_octal_from bs 0 = parse_octal_from rest n"
    unfolding bs(1) using parse_octal_pad [OF bs(2)] parse_octal_digits [OF bs(3)] bs(4) assms(2) by simp
  moreover have "parse_octal_from rest n = Some n"
  proof (cases "n = 0")
    case True
    with bs(5) parse_octal_pad [of rest "[]"] show ?thesis by simp
  next
    case False
    with bs(5) show ?thesis by (cases rest) auto
  qed
  ultimately show ?thesis by (simp add: parse_octal_def)
qed

lemma slice_nth [simp]: "i < n \<Longrightarrow> raw_slice m a n ! i = m (a + i)"
  by (simp add: raw_slice_def)

lemma length_slice [simp]: "length (raw_slice m a n) = n"
  by (simp add: raw_slice_def)

lemma take_slice: "k \<le> n \<Longrightarrow> take k (raw_slice m a n) = raw_slice m a k"
  by (auto intro!: nth_equalityI)

lemma drop_slice: "drop k (raw_slice m a n) = raw_slice m (a + k) (n - k)"
  by (auto intro!: nth_equalityI simp: add.assoc)

lemma null_index_name:
  assumes "length name < 100" "0 \<notin> set name" "raw_slice m a (length name) = name" "m (a + length name) = 0"
  shows "null_index (raw_slice m a 512) = length name"
proof -
  have before: "m (a + i) \<noteq> 0" if "i < length name" for i
    using that assms(2,3) by (metis nth_mem slice_nth)
  have "find (\<lambda>i. raw_slice m a 512 ! i = 0) [0..<100] = Some (length name)"
  proof (unfold find_Some_iff, intro exI [of _ "length name"] conjI allI impI)
    show "length name < length [0..<100]" using assms(1) by simp
    show "raw_slice m a 512 ! ([0..<100] ! length name) = 0" using assms(1,4) by (simp del: upt_rec_numeral)
    show "length name = [0..<100] ! length name" using assms(1) by (simp del: upt_rec_numeral)
    fix j assume "j < length name"
    then show "raw_slice m a 512 ! ([0..<100] ! j) \<noteq> 0" using assms(1) before by (simp del: upt_rec_numeral)
  qed
  then show ?thesis unfolding null_index_def by simp
qed

lemma archive_end_ge: "a \<le> archive_end a fs"
proof (induction fs arbitrary: a)
  case (Cons f fs)
  obtain name data where f: "f = (name, data)" by (cases f)
  show ?case unfolding f archive_end.simps using Cons.IH [of "a + 512 + round_up 9 (length data)"] by simp
qed simp

lemma parse_loop_archive:
  assumes "archive m a fs" "archive_end a fs + 512 < 2 ^ 64"
  shows "\<exists>vs. parse_loop m a files = Some (files @ vs) \<and> list_all2 (serves m) vs fs"
  using assms
proof (induction fs arbitrary: a files)
  case Nil
  then show ?case by (subst parse_loop.simps) simp
next
  case (Cons f fs)
  obtain name data where f: "f = (name, data)" by (cases f)
  let ?n = "length data"
  let ?a = "a + 512 + round_up 9 ?n"
  from Cons.prems f have h: "name \<noteq> []" "length name < 100" "0 \<notin> set name" "raw_slice m a (length name) = name"
    "m (a + length name) = 0" "octal_field (raw_slice m (a + 124) 12) ?n" "raw_slice m (a + 512) ?n = data" "archive m ?a fs"
    "archive_end ?a fs + 512 < 2 ^ 64" by auto
  have b: "?a + 512 < 2 ^ 64" using h(9) archive_end_ge [of ?a fs] by linarith
  have "?n + 512 < 2 ^ 64" using b round_up_ge [of ?n 9] by linarith
  then have al: "align_to ?n 512 = Some (round_up 9 ?n)" using align_to_eq [of ?n 9] by simp
  have "raw_slice m a 512 ! 0 \<noteq> 0" using h(1-4) by (metis length_greater_0_conv nth_mem slice_nth zero_less_numeral)
  moreover have "parse_octal (take 12 (drop 124 (raw_slice m a 512))) = Some ?n"
    using parse_octal_field [OF h(6)] \<open>?n + 512 < 2 ^ 64\<close> by (simp add: drop_slice take_slice)
  moreover have "take (null_index (raw_slice m a 512)) (raw_slice m a 512) = name"
    using null_index_name [OF h(2-5)] h(2,4) by (simp add: take_slice)
  moreover have "uadd a 512 = Some (a + 512)" "uadd 512 (round_up 9 ?n) = Some (512 + round_up 9 ?n)"
    "uadd a (512 + round_up 9 ?n) = Some ?a" using b by (simp_all add: checked)
  ultimately have "parse_loop m a files =
      parse_loop m ?a (files @ [\<lparr>tv_name = name, tv_size = ?n, data_ptr = a + 512\<rparr>])"
    by (subst parse_loop.simps) (simp add: al)
  moreover have "serves m \<lparr>tv_name = name, tv_size = ?n, data_ptr = a + 512\<rparr> f" using h(7) by (simp add: serves_def f)
  ultimately show ?case
    using Cons.IH [OF h(8,9), of "files @ [\<lparr>tv_name = name, tv_size = ?n, data_ptr = a + 512\<rparr>]"] by auto
qed

section \<open>Serving files\<close>

lemma tar_read_serves:
  assumes "serves m v (name, data)"
  shows "\<exists>m'. tar_read v offset buf len m = (Some (length (take len (drop offset data))), m') \<and>
    (data_ptr v + length data \<le> buf \<or> buf + len \<le> data_ptr v \<longrightarrow>
      raw_slice m' buf (length (take len (drop offset data))) = take len (drop offset data)) \<and>
    (\<forall>x. x < buf \<or> buf + length (take len (drop offset data)) \<le> x \<longrightarrow> m' x = m x)"
proof (cases "length data \<le> offset")
  case True
  with assms show ?thesis by (auto simp: tar_read_def serves_def raw_slice_def)
next
  case False
  from assms have v: "tv_size v = length data" "raw_slice m (data_ptr v) (length data) = data" by (auto simp: serves_def)
  let ?n = "min len (length data - offset)"
  have "raw_slice (copy_bytes m (data_ptr v + offset) buf ?n) buf ?n = take len (drop offset data)"
  proof (rule nth_equalityI)
    fix i assume "i < length (raw_slice (copy_bytes m (data_ptr v + offset) buf ?n) buf ?n)"
    then have i: "i < ?n" by simp
    then have "copy_bytes m (data_ptr v + offset) buf ?n (buf + i) = m (data_ptr v + (offset + i))"
      by (simp add: copy_bytes_def add.assoc)
    also have "\<dots> = data ! (offset + i)" using v(2) i False by (metis slice_nth add.commute less_diff_conv min_less_iff_conj)
    finally show "raw_slice (copy_bytes m (data_ptr v + offset) buf ?n) buf ?n ! i = take len (drop offset data) ! i"
      using i False by simp
  qed (simp add: min.commute)
  with False v(1) show ?thesis by (auto simp: tar_read_def copy_bytes_def min.commute Let_def)
qed

lemma lookup_serves:
  assumes "list_all2 (serves m) vs fs"
  shows "(case map_of fs name of None \<Rightarrow> tar_lookup name vs = None
    | Some data \<Rightarrow> \<exists>v. tar_lookup name vs = Some v \<and> v \<in> set vs \<and> serves m v (name, data))"
  using assms
proof (induction rule: list_all2_induct)
  case (Cons v vs f fs)
  then show ?case by (cases f) (auto simp: tar_lookup_def serves_def split: option.splits)
qed (simp add: tar_lookup_def)

lemma readdir_serves:
  assumes "list_all2 (serves m) vs fs" "i < length fs" "length (fst (fs ! i)) < 64"
  shows "\<exists>e. tar_readdir i vs = Some e \<and> de_size e = length (snd (fs ! i)) \<and>
    take (unat (name_len e)) (de_name e) = fst (fs ! i) \<and> length (de_name e) = 64"
proof -
  have l: "i < length vs" using assms(1,2) by (simp add: list_all2_lengthD)
  then have v: "tv_name (vs ! i) = fst (fs ! i)" "tv_size (vs ! i) = length (snd (fs ! i))"
    using list_all2_nthD [OF assms(1)] by (auto simp: serves_def)
  have "unat (of_nat (length (fst (fs ! i))) :: u8) = length (fst (fs ! i))"
    using assms(3) by (simp add: unat_of_nat take_bit_eq_mod)
  with l v assms(3) show ?thesis by (simp add: tar_readdir_def Let_def)
qed

lemma readdir_end:
  assumes "list_all2 (serves m) vs fs" "length fs \<le> i"
  shows "tar_readdir i vs = None"
  using assms by (simp add: tar_readdir_def list_all2_lengthD)

section \<open>Correctness\<close>

text \<open>
  C25.  The initial file system serves what the archive has.  For an archive in memory that ends below
  the top of the address space, \<open>parse_tarball\<close> terminates; then a lookup fails exactly for a name no
  file of the archive has, and otherwise finds the first file of that name, of which a read of \<open>len\<close>
  bytes at any offset returns the length of that part of its data (0 at and after the end), puts it into the buffer
  if the buffer does not overlap the archived data, and changes no other byte; and the directory enumerates
  the files in order, each with its size and its name, which is complete up to 63 bytes, and then ends.
\<close>

theorem initramfs_roundtrip:
  assumes "archive m base fs" "archive_end base fs + 512 < 2 ^ 64"
  shows "\<exists>vs. parse_tarball base m = Some vs \<and>
    (\<forall>name. case map_of fs name of
       None \<Rightarrow> tar_lookup name vs = None
     | Some data \<Rightarrow> \<exists>v. tar_lookup name vs = Some v \<and> tv_size v = length data \<and>
         (\<forall>offset buf len. \<exists>m'. tar_read v offset buf len m = (Some (length (take len (drop offset data))), m') \<and>
            (data_ptr v + length data \<le> buf \<or> buf + len \<le> data_ptr v \<longrightarrow>
              raw_slice m' buf (length (take len (drop offset data))) = take len (drop offset data)) \<and>
            (\<forall>x. x < buf \<or> buf + length (take len (drop offset data)) \<le> x \<longrightarrow> m' x = m x))) \<and>
    (\<forall>i. (i < length fs \<and> length (fst (fs ! i)) < 64 \<longrightarrow> (\<exists>e. tar_readdir i vs = Some e \<and>
         de_size e = length (snd (fs ! i)) \<and> take (unat (name_len e)) (de_name e) = fst (fs ! i))) \<and>
       (length fs \<le> i \<longrightarrow> tar_readdir i vs = None))"
proof -
  from parse_loop_archive [OF assms, of "[]"] obtain vs where
    vs: "parse_tarball base m = Some vs" "list_all2 (serves m) vs fs" by (auto simp: parse_tarball_def)
  have look: "case map_of fs name of
       None \<Rightarrow> tar_lookup name vs = None
     | Some data \<Rightarrow> \<exists>v. tar_lookup name vs = Some v \<and> tv_size v = length data \<and>
         (\<forall>offset buf len. \<exists>m'. tar_read v offset buf len m = (Some (length (take len (drop offset data))), m') \<and>
            (data_ptr v + length data \<le> buf \<or> buf + len \<le> data_ptr v \<longrightarrow>
              raw_slice m' buf (length (take len (drop offset data))) = take len (drop offset data)) \<and>
            (\<forall>x. x < buf \<or> buf + length (take len (drop offset data)) \<le> x \<longrightarrow> m' x = m x))" for name
  proof (cases "map_of fs name")
    case None
    with lookup_serves [OF vs(2), of name] show ?thesis by simp
  next
    case (Some data)
    with lookup_serves [OF vs(2), of name] obtain v where v: "tar_lookup name vs = Some v" "serves m v (name, data)" by auto
    from v(2) have "tv_size v = length data" by (simp add: serves_def)
    with v(1) tar_read_serves [OF v(2)] show ?thesis unfolding Some option.case by blast
  qed
  show ?thesis using vs(1) look readdir_serves [OF vs(2)] readdir_end [OF vs(2)] by blast
qed

text \<open>An archive with two files, one of them empty, and the image of an archive in memory.\<close>

fun octal_digits :: "nat \<Rightarrow> nat \<Rightarrow> u8 list" where
  "octal_digits 0 n = []"
| "octal_digits (Suc k) n = octal_digits k (n div 8) @ [0x30 + of_nat (n mod 8)]"

definition tar_header :: "u8 list \<Rightarrow> nat \<Rightarrow> u8 list" where
  "tar_header name n = name @ replicate (124 - length name) 0 @ octal_digits 11 n @ [0] @ replicate 376 0"

definition tar_image :: "(u8 list \<times> u8 list) list \<Rightarrow> u8 list" where
  "tar_image fs = concat (map (\<lambda>(name, data). tar_header name (length data) @ data @
     replicate (round_up 9 (length data) - length data) 0) fs) @ replicate 1024 0"

definition mem_of :: "usize \<Rightarrow> u8 list \<Rightarrow> mem" where
  "mem_of a bs = (\<lambda>x. if a \<le> x \<and> x < a + length bs then bs ! (x - a) else 0)"

lemma slice_append:
  "raw_slice m a (length (xs @ ys)) = xs @ ys \<longleftrightarrow> raw_slice m a (length xs) = xs \<and> raw_slice m (a + length xs) (length ys) = ys"
proof -
  have "raw_slice m a (length xs + length ys) = raw_slice m a (length xs) @ raw_slice m (a + length xs) (length ys)"
    unfolding raw_slice_def map_append [symmetric] using upt_add_eq_append [of a "a + length xs" "length ys"] by (simp add: add.assoc)
  then show ?thesis by (simp add: append_eq_append_conv)
qed

lemma octal_digits_props: "length (octal_digits k n) = k" "\<forall>d \<in> set (octal_digits k n). octal_digit d"
  "octal_value (octal_digits k n) = n mod 8 ^ k"
proof -
  have d: "unat (0x30 + of_nat (n mod 8) :: u8) = 0x30 + n mod 8" for n :: nat
  proof -
    have "unat (of_nat (48 + n mod 8) :: u8) = 48 + n mod 8" by (simp add: unat_of_nat take_bit_eq_mod del: of_nat_add)
    then show ?thesis by simp
  qed
  show "length (octal_digits k n) = k" by (induction k arbitrary: n) auto
  have "octal_digit (0x30 + of_nat (n mod 8))" for n :: nat
    unfolding octal_digit_def word_le_nat_alt d by simp
  then show "\<forall>d \<in> set (octal_digits k n). octal_digit d" by (induction k arbitrary: n) auto
  have u: "unat (of_nat (n mod 8) :: u8) = n mod 8" for n :: nat by (simp add: unat_of_nat take_bit_eq_mod)
  show "octal_value (octal_digits k n) = n mod 8 ^ k"
  proof (induction k arbitrary: n)
    case (Suc k)
    have "octal_value (octal_digits (Suc k) n) = octal_value (octal_digits k (n div 8)) * 8 + n mod 8"
      by (simp add: octal_value_def u)
    then show ?case unfolding Suc.IH using mod_mult2_eq [of n 8 "8 ^ k"] by simp
  qed (simp add: octal_value_def)
qed

text \<open>The image of the files is an archive: the format the parser reads is one that exists.\<close>

lemma image_archive:
  assumes "raw_slice m a (length (tar_image fs)) = tar_image fs"
    and "\<forall>(name, data) \<in> set fs. name \<noteq> [] \<and> length name < 100 \<and> 0 \<notin> set name \<and> length data < 8 ^ 11"
  shows "archive m a fs"
  using assms
proof (induction fs arbitrary: a)
  case Nil
  then have "raw_slice m a 1024 = replicate 1024 0" by (simp add: tar_image_def)
  from arg_cong [OF this, of "\<lambda>l. l ! 0"] show ?case by simp
next
  case (Cons f fs)
  obtain name data where f: "f = (name, data)" by (cases f)
  let ?n = "length data" and ?h = "tar_header name (length data)" and ?o = "octal_digits 11 (length data)"
  have img: "tar_image (f # fs) = ?h @ data @ replicate (round_up 9 ?n - ?n) 0 @ tar_image fs" by (simp add: tar_image_def f)
  from Cons.prems(2) f have g: "name \<noteq> []" "length name < 100" "0 \<notin> set name" "?n < 8 ^ 11" by auto
  have lh: "length ?h = 512" using g(2) by (simp add: tar_header_def octal_digits_props(1))
  from Cons.prems(1) have s: "raw_slice m a (length ?h) = ?h" "raw_slice m (a + 512) ?n = data"
    "raw_slice m (a + 512 + round_up 9 ?n) (length (tar_image fs)) = tar_image fs"
    unfolding img slice_append length_append [symmetric] using lh round_up_ge [of ?n 9] by (simp_all add: add.assoc)
  have h: "?h = name @ 0 # replicate (123 - length name) 0 @ ?o @ [0] @ replicate 376 0"
  proof -
    have "124 - length name = Suc (123 - length name)" using g(2) by simp
    then show ?thesis by (simp add: tar_header_def)
  qed
  have nm: "raw_slice m a (length name) = name" using arg_cong [OF s(1), of "take (length name)"] lh g(2)
    by (simp add: take_slice tar_header_def)
  have z: "m (a + length name) = 0" using arg_cong [OF s(1), of "\<lambda>l. l ! length name"] lh g(2)
    by (simp add: h)
  have "raw_slice m (a + 124) 12 = take 12 (drop 124 (raw_slice m a 512))" by (simp add: drop_slice take_slice)
  also have "\<dots> = take 12 (drop 124 ?h)" using s(1) lh by simp
  also have "\<dots> = [] @ ?o @ [0]" using g(2) by (simp add: tar_header_def octal_digits_props(1))
  finally have "octal_field (raw_slice m (a + 124) 12) ?n"
    unfolding octal_field_def using octal_digits_props(2,3) [of 11 ?n] g(4)
    by (intro exI [of _ "[]"] exI [of _ ?o] exI [of _ "[0]"]) simp
  moreover have "archive m (a + 512 + round_up 9 ?n) fs" by (rule Cons.IH [OF s(3)]) (use Cons.prems(2) in simp)
  ultimately show ?case using g nm z s(2) by (simp add: f)
qed

lemma mem_of_slice: "raw_slice (mem_of a bs) a (length bs) = bs"
  by (auto intro!: nth_equalityI simp: mem_of_def)

theorem initramfs_roundtrip_witness:
  "\<exists>vs. parse_tarball 4096 (mem_of 4096 (tar_image [([0x61], [1, 2, 3]), ([0x62], [])])) = Some vs \<and>
    (\<exists>v. tar_lookup [0x61] vs = Some v \<and> tv_size v = 3) \<and> tar_lookup [0x63] vs = None"
proof -
  let ?fs = "[([0x61], [1, 2, 3]), ([0x62], [])] :: (u8 list \<times> u8 list) list"
  have a: "archive (mem_of 4096 (tar_image ?fs)) 4096 ?fs" by (rule image_archive [OF mem_of_slice]) simp
  have e: "archive_end 4096 ?fs + 512 < 2 ^ 64" by (simp add: round_up_def mask_low_def)
  have l: "map_of ?fs [0x61] = Some [1, 2, 3]" "map_of ?fs [0x63] = None" by simp_all
  show ?thesis using initramfs_roundtrip [OF a e]
    apply (elim exE conjE)
    subgoal premises p for vs
      using p(1) spec [OF p(2), of "[0x61]", unfolded l option.case] spec [OF p(2), of "[0x63]", unfolded l option.case] by auto
    done
qed

end
