(* ===== verification/Arena.thy ===== *)
theory Arena
  imports Prelude
begin

text \<open>
  The arena of threads, \<open>ThreadArena\<close> of \<^verbatim>\<open>src/process/process.rs\<close>: slots addressed by stable indices,
  with a free list threaded through the empty ones, and its refinement of a finite map whose keys it
  chooses.
\<close>

section \<open>The code\<close>

datatype 't thread_slot = Empty "usize option" | Occupied 't

record 't thread_arena =
  slots :: "'t thread_slot list"
  free_head :: "usize option"

definition arena_new :: "'t thread_arena" where
  "arena_new = \<lparr>slots = [], free_head = None\<rparr>"

definition arena_is_empty :: "'t thread_arena \<Rightarrow> bool" where
  "arena_is_empty a \<longleftrightarrow> slots a = []"

text \<open>\<open>None\<close>: the free list leads out of bounds or to an occupied slot, a panic.\<close>

definition arena_insert :: "'t \<Rightarrow> 't thread_arena \<Rightarrow> (usize \<times> 't thread_arena) option" where
  "arena_insert task a =
     (case free_head a of
        Some idx \<Rightarrow>
          if idx < length (slots a) then
            (case slots a ! idx of
               Empty next_free \<Rightarrow> Some (idx, a\<lparr>free_head := next_free, slots := (slots a)[idx := Occupied task]\<rparr>)
             | Occupied _ \<Rightarrow> None)
          else None
      | None \<Rightarrow> Some (length (slots a), a\<lparr>slots := slots a @ [Occupied task]\<rparr>))"

definition arena_remove :: "usize \<Rightarrow> 't thread_arena \<Rightarrow> 't option \<times> 't thread_arena" where
  "arena_remove pid a =
     (if pid \<ge> length (slots a) then (None, a)
      else let slot = slots a ! pid;
               swapped = a\<lparr>slots := (slots a)[pid := Empty (free_head a)]\<rparr>
           in case slot of
                Occupied task \<Rightarrow> (Some task, swapped\<lparr>free_head := Some pid\<rparr>)
              | Empty _ \<Rightarrow> (None, swapped\<lparr>slots := (slots swapped)[pid := slot]\<rparr>))"

definition arena_get :: "'t thread_arena \<Rightarrow> usize \<Rightarrow> 't option" where
  "arena_get a pid =
     (if pid < length (slots a) then (case slots a ! pid of Occupied task \<Rightarrow> Some task | Empty _ \<Rightarrow> None) else None)"

text \<open>An update through the reference of \<open>get_mut\<close>; without a thread there is no reference to update.\<close>

definition arena_update :: "usize \<Rightarrow> ('t \<Rightarrow> 't) \<Rightarrow> 't thread_arena \<Rightarrow> 't thread_arena" where
  "arena_update pid f a =
     (case arena_get a pid of Some task \<Rightarrow> a\<lparr>slots := (slots a)[pid := Occupied (f task)]\<rparr> | None \<Rightarrow> a)"

section \<open>The interface\<close>

text \<open>
  What the scheduler relies on: a store of values under keys of its own choice.  The keys are
  stable, and a new key is one that is not in use.
\<close>

locale slot_store =
  fixes sinv :: "'s \<Rightarrow> bool"
    and look :: "'s \<Rightarrow> usize \<Rightarrow> 't option"
    and ins :: "'t \<Rightarrow> 's \<Rightarrow> (usize \<times> 's) option"
    and del :: "usize \<Rightarrow> 's \<Rightarrow> 't option \<times> 's"
    and upd :: "usize \<Rightarrow> ('t \<Rightarrow> 't) \<Rightarrow> 's \<Rightarrow> 's"
  assumes finite_keys: "sinv s \<Longrightarrow> finite (dom (look s))"
    and ins_ok: "sinv s \<Longrightarrow> \<exists>i s'. ins t s = Some (i, s') \<and> look s i = None \<and> sinv s' \<and> look s' = (look s)(i \<mapsto> t)"
    and del_ok: "sinv s \<Longrightarrow> del i s = (r, s') \<Longrightarrow> r = look s i \<and> sinv s' \<and> look s' = (look s)(i := None)"
    and upd_ok: "sinv s \<Longrightarrow> sinv (upd i f s) \<and> look (upd i f s) = (look s)(i := map_option f (look s i))"

text \<open>A history of calls, for any store.\<close>

datatype 't store_op = Ins 't | Del usize | Upd usize "'t \<Rightarrow> 't"

fun store_run :: "('t \<Rightarrow> 's \<Rightarrow> (usize \<times> 's) option) \<Rightarrow> (usize \<Rightarrow> 's \<Rightarrow> 't option \<times> 's) \<Rightarrow>
    (usize \<Rightarrow> ('t \<Rightarrow> 't) \<Rightarrow> 's \<Rightarrow> 's) \<Rightarrow> 't store_op list \<Rightarrow> 's \<Rightarrow> (usize list \<times> 's) option" where
  "store_run ins del upd [] s = Some ([], s)"
| "store_run ins del upd (Ins t # ops) s = do {
     (i, s) \<leftarrow> ins t s;
     (is, s) \<leftarrow> store_run ins del upd ops s;
     Some (i # is, s) }"
| "store_run ins del upd (Del i # ops) s = store_run ins del upd ops (snd (del i s))"
| "store_run ins del upd (Upd i f # ops) s = store_run ins del upd ops (upd i f s)"

text \<open>The same history on a map, with the keys chosen by an oracle \<open>is\<close>; it must choose unused keys.\<close>

fun map_run :: "'t store_op list \<Rightarrow> usize list \<Rightarrow> (usize \<Rightarrow> 't option) \<Rightarrow> (usize \<Rightarrow> 't option) option" where
  "map_run [] is M = (if is = [] then Some M else None)"
| "map_run (Ins t # ops) is M =
     (case is of i # is \<Rightarrow> if M i = None then map_run ops is (M(i \<mapsto> t)) else None | [] \<Rightarrow> None)"
| "map_run (Del i # ops) is M = map_run ops is (M(i := None))"
| "map_run (Upd i f # ops) is M = map_run ops is (M(i := map_option f (M i)))"

context slot_store
begin

lemma run_refines:
  assumes "sinv s"
  shows "\<exists>is s'. store_run ins del upd ops s = Some (is, s') \<and> sinv s' \<and> map_run ops is (look s) = Some (look s')"
  using assms
proof (induction ops arbitrary: s)
  case Nil
  then show ?case by simp
next
  case (Cons op ops)
  show ?case
  proof (cases op)
    case (Ins t)
    from ins_ok [OF Cons.prems] obtain i s1 where s1: "ins t s = Some (i, s1)" "look s i = None" "sinv s1"
      "look s1 = (look s)(i \<mapsto> t)" by blast
    from Cons.IH [OF s1(3)] obtain "is" s2 where
      "store_run ins del upd ops s1 = Some (is, s2)" "sinv s2" "map_run ops is (look s1) = Some (look s2)" by blast
    with s1 Ins show ?thesis by (intro exI [of _ "i # is"] exI [of _ s2]) simp
  next
    case (Del i)
    obtain r s1 where s1: "del i s = (r, s1)" by (cases "del i s")
    note d = del_ok [OF Cons.prems s1]
    with Cons.IH [of s1] obtain "is" s2 where
      "store_run ins del upd ops s1 = Some (is, s2)" "sinv s2" "map_run ops is (look s1) = Some (look s2)" by blast
    with d Del s1 show ?thesis by (intro exI [of _ "is"] exI [of _ s2]) simp
  next
    case (Upd i f)
    note u = upd_ok [OF Cons.prems, of i f]
    with Cons.IH [of "upd i f s"] obtain "is" s2 where
      "store_run ins del upd ops (upd i f s) = Some (is, s2)" "sinv s2" "map_run ops is (look (upd i f s)) = Some (look s2)" by blast
    with u Upd show ?thesis by (intro exI [of _ "is"] exI [of _ s2]) simp
  qed
qed

end

section \<open>The invariant\<close>

text \<open>The free list: a chain through exactly the empty slots.\<close>

fun free_chain :: "'t thread_slot list \<Rightarrow> usize option \<Rightarrow> usize list \<Rightarrow> bool" where
  "free_chain sl fh [] \<longleftrightarrow> fh = None"
| "free_chain sl fh (i # is) \<longleftrightarrow> fh = Some i \<and> i < length sl \<and> (\<exists>nxt. sl ! i = Empty nxt \<and> free_chain sl nxt is)"

definition arena_inv :: "'t thread_arena \<Rightarrow> bool" where
  "arena_inv a \<longleftrightarrow> (\<exists>fl. distinct fl \<and> free_chain (slots a) (free_head a) fl \<and>
     (\<forall>i < length (slots a). arena_get a i = None \<longrightarrow> i \<in> set fl))"

lemma chain_cong: "(\<And>i. i \<in> set is \<Longrightarrow> sl' ! i = sl ! i) \<Longrightarrow> length sl \<le> length sl' \<Longrightarrow> free_chain sl fh is \<Longrightarrow> free_chain sl' fh is"
  by (induction "is" arbitrary: fh) auto

lemma chain_update: "i \<notin> set is \<Longrightarrow> free_chain sl fh is \<Longrightarrow> free_chain (sl[i := x]) fh is"
  by (rule chain_cong) (auto, metis nth_list_update_neq)

lemma chain_empty: "free_chain sl fh is \<Longrightarrow> i \<in> set is \<Longrightarrow> i < length sl \<and> (\<exists>nxt. sl ! i = Empty nxt)"
  by (induction "is" arbitrary: fh) auto

lemma arena_insert_ok:
  assumes "arena_inv a"
  shows "\<exists>i a'. arena_insert t a = Some (i, a') \<and> arena_get a i = None \<and> arena_inv a' \<and> arena_get a' = (arena_get a)(i \<mapsto> t)"
proof -
  from assms obtain fl where fl: "distinct fl" "free_chain (slots a) (free_head a) fl"
    "\<forall>i < length (slots a). arena_get a i = None \<longrightarrow> i \<in> set fl" unfolding arena_inv_def by blast
  show ?thesis
  proof (cases fl)
    case Nil
    let ?a = "a\<lparr>slots := slots a @ [Occupied t]\<rparr>"
    have g: "arena_get ?a = (arena_get a)(length (slots a) \<mapsto> t)" by (auto simp: arena_get_def nth_append)
    from fl Nil have "arena_inv ?a" unfolding arena_inv_def g by (intro exI [of _ "[]"]) (auto simp: less_Suc_eq)
    with g fl(2) Nil show ?thesis by (auto simp: arena_insert_def arena_get_def)
  next
    case (Cons i rest)
    with fl(2) obtain nxt where i: "free_head a = Some i" "i < length (slots a)" "slots a ! i = Empty nxt"
      "free_chain (slots a) nxt rest" by auto
    let ?a = "a\<lparr>free_head := nxt, slots := (slots a)[i := Occupied t]\<rparr>"
    have g: "arena_get ?a = (arena_get a)(i \<mapsto> t)" using i(2) by (auto simp: arena_get_def nth_list_update)
    have "free_chain (slots ?a) nxt rest" using fl(1) Cons i(4) by (simp add: chain_update)
    then have "arena_inv ?a" using fl(1,3) Cons unfolding arena_inv_def g by (intro exI [of _ rest]) auto
    with g i show ?thesis by (auto simp: arena_insert_def arena_get_def)
  qed
qed

lemma arena_remove_ok:
  assumes "arena_inv a" "arena_remove i a = (r, a')"
  shows "r = arena_get a i \<and> arena_inv a' \<and> arena_get a' = (arena_get a)(i := None)"
proof (cases "arena_get a i")
  case None
  have same: "a\<lparr>slots := (slots a)[i := x]\<rparr> = a" if "slots a ! i = x" for x
    using that by (cases a) (simp add: list_update_same_conv [THEN iffD2] list_update_id flip: that)
  from None have "r = None" "a' = a" using assms(2)
    by (auto simp: arena_remove_def arena_get_def Let_def same split: if_splits thread_slot.splits)
  with None assms(1) show ?thesis by auto
next
  case (Some t)
  then have i: "i < length (slots a)" "slots a ! i = Occupied t"
    by (auto simp: arena_get_def split: if_splits thread_slot.splits)
  let ?a = "a\<lparr>slots := (slots a)[i := Empty (free_head a)], free_head := Some i\<rparr>"
  have r: "r = Some t" "a' = ?a" using assms(2) i by (auto simp: arena_remove_def)
  have g: "arena_get ?a = (arena_get a)(i := None)" using i(1) by (auto simp: arena_get_def nth_list_update)
  from assms(1) obtain fl where fl: "distinct fl" "free_chain (slots a) (free_head a) fl"
    "\<forall>i < length (slots a). arena_get a i = None \<longrightarrow> i \<in> set fl" unfolding arena_inv_def by blast
  have "i \<notin> set fl" using chain_empty [OF fl(2)] i(2) by fastforce
  then have "free_chain (slots ?a) (free_head a) fl" using fl(2) by (simp add: chain_update)
  then have "arena_inv ?a" using fl(1,3) i(1) \<open>i \<notin> set fl\<close> unfolding arena_inv_def g by (intro exI [of _ "i # fl"]) auto
  with g r Some show ?thesis by simp
qed

lemma arena_update_ok:
  assumes "arena_inv a"
  shows "arena_inv (arena_update i f a) \<and> arena_get (arena_update i f a) = (arena_get a)(i := map_option f (arena_get a i))"
proof (cases "arena_get a i")
  case None
  then show ?thesis using assms by (auto simp: arena_update_def)
next
  case (Some t)
  then have i: "i < length (slots a)" "slots a ! i = Occupied t"
    by (auto simp: arena_get_def split: if_splits thread_slot.splits)
  let ?a = "a\<lparr>slots := (slots a)[i := Occupied (f t)]\<rparr>"
  have g: "arena_get ?a = (arena_get a)(i \<mapsto> f t)" using i(1) by (auto simp: arena_get_def nth_list_update)
  from assms obtain fl where fl: "distinct fl" "free_chain (slots a) (free_head a) fl"
    "\<forall>i < length (slots a). arena_get a i = None \<longrightarrow> i \<in> set fl" unfolding arena_inv_def by blast
  have "i \<notin> set fl" using chain_empty [OF fl(2)] i(2) by fastforce
  then have "free_chain (slots ?a) (free_head a) fl" using fl(2) by (simp add: chain_update)
  then have "arena_inv ?a" using fl(1,3) unfolding arena_inv_def g by (intro exI [of _ fl]) auto
  with g Some show ?thesis by (simp add: arena_update_def)
qed

interpretation ar: slot_store arena_inv arena_get arena_insert arena_remove arena_update
proof unfold_locales
  fix s :: "'t thread_arena"
  have "dom (arena_get s) \<subseteq> {..<length (slots s)}" by (auto simp: arena_get_def split: if_splits)
  then show "finite (dom (arena_get s))" by (rule finite_subset) simp
qed (blast intro: arena_insert_ok dest: arena_remove_ok arena_update_ok)+

lemma arena_new_inv: "arena_inv arena_new"
  by (auto simp: arena_inv_def arena_new_def intro: exI [of _ "[]"])

lemma arena_get_new [simp]: "arena_get arena_new = Map.empty"
  by (auto simp: arena_get_def arena_new_def)

section \<open>Correctness\<close>

text \<open>
  C26.  The arena is a map under stable keys.  Every history of insertions, removals and updates
  from the empty arena returns, so the free list is never corrupt; the key of each insertion is not
  in use at that moment; and the threads the arena holds are those of the map with the same history,
  each under the key it was inserted with, however slots were reused in between.
\<close>

theorem arena_refines_map:
  "\<exists>is a. store_run arena_insert arena_remove arena_update ops arena_new = Some (is, a) \<and>
    arena_inv a \<and> map_run ops is Map.empty = Some (arena_get a)"
  using ar.run_refines [OF arena_new_inv] by simp

end
