(* ===== verification/Boot.thy ===== *)
theory Boot
  imports Paging_Props Heap
begin

text \<open>
  Reading the tables the boot loader and the firmware leave in memory: the Multiboot2 tags of
  \<^verbatim>\<open>src/boot/boot_info.rs\<close> and the parts of \<open>_start\<close> in \<^verbatim>\<open>src/lib.rs\<close> that walk them, find the memory map
  and the initial file system, locate the MADT through the ACPI tables, and set up the two interrupt
  controllers it describes.
\<close>

section \<open>The structures\<close>

text \<open>The fields of the \<open>repr(C)\<close> structures, by their offsets.\<close>

definition tag_typ :: "mem \<Rightarrow> usize \<Rightarrow> nat" where "tag_typ m tag = rd32 m tag"
definition tag_size :: "mem \<Rightarrow> usize \<Rightarrow> nat" where "tag_size m tag = rd32 m (tag + 4)"

definition mod_start :: "mem \<Rightarrow> usize \<Rightarrow> nat" where "mod_start m tag = rd32 m (tag + 8)"
definition mod_end :: "mem \<Rightarrow> usize \<Rightarrow> nat" where "mod_end m tag = rd32 m (tag + 12)"

definition entry_size :: "mem \<Rightarrow> usize \<Rightarrow> nat" where "entry_size m tag = rd32 m (tag + 8)"

definition memory_map_entry_at :: "mem \<Rightarrow> usize \<Rightarrow> memory_map_entry" where
  "memory_map_entry_at m p = \<lparr>mm_base = rd64 m p, mm_length = rd64 m (p + 8), mm_typ = rd32 m (p + 16)\<rparr>"

definition rsdt_address :: "mem \<Rightarrow> usize \<Rightarrow> nat" where "rsdt_address m tag = rd32 m (tag + 24)"
definition xsdt_address :: "mem \<Rightarrow> usize \<Rightarrow> nat" where "xsdt_address m tag = rd64 m (tag + 32)"

definition sdt_signature :: "mem \<Rightarrow> usize \<Rightarrow> u8 list" where "sdt_signature m p = map m [p, p + 1, p + 2, p + 3]"
definition sdt_length :: "mem \<Rightarrow> usize \<Rightarrow> nat" where "sdt_length m p = rd32 m (p + 4)"

definition SDT_HEADER :: nat where "SDT_HEADER = 36"
definition MADT_SIZE :: nat where "MADT_SIZE = 44"

definition local_apic_address :: "mem \<Rightarrow> usize \<Rightarrow> nat" where "local_apic_address m p = rd32 m (p + 36)"
definition madt_entry_type :: "mem \<Rightarrow> usize \<Rightarrow> u8" where "madt_entry_type m p = m p"
definition record_length :: "mem \<Rightarrow> usize \<Rightarrow> nat" where "record_length m p = unat (m (p + 1))"
definition io_apic_address :: "mem \<Rightarrow> usize \<Rightarrow> nat" where "io_apic_address m p = rd32 m (p + 4)"

section \<open>The tag iterator\<close>

record tag_iterator =
  current_address :: usize
  end_address :: usize

definition tag_iter_new :: "mem \<Rightarrow> usize \<Rightarrow> tag_iterator option" where
  "tag_iter_new m mbi_addr = do {
     let total_size = rd32 m mbi_addr;
     cur \<leftarrow> uadd mbi_addr 8;
     en \<leftarrow> uadd mbi_addr total_size;
     Some \<lparr>current_address = cur, end_address = en\<rparr>
   }"

definition tag_next :: "mem \<Rightarrow> tag_iterator \<Rightarrow> (usize option \<times> tag_iterator) option" where
  "tag_next m it =
     (if current_address it \<ge> end_address it then Some (None, it)
      else let tag_ptr = current_address it in
        if tag_typ m tag_ptr = 0 \<and> tag_size m tag_ptr = 8 then Some (None, it)
        else do {
          next_addr \<leftarrow> uadd (current_address it) (tag_size m tag_ptr);
          t \<leftarrow> uadd next_addr 7;
          Some (Some tag_ptr, it\<lparr>current_address := and_not t 7\<rparr>)
        })"

text \<open>A \<open>for\<close> loop over the tags; it may not end, if a tag has size 0.\<close>

partial_function (option) for_tags :: "(usize \<Rightarrow> 's \<Rightarrow> 's option) \<Rightarrow> mem \<Rightarrow> tag_iterator \<Rightarrow> 's \<Rightarrow> 's option" where
  "for_tags f m it s = do {
     (tag, it) \<leftarrow> tag_next m it;
     (case tag of
        None \<Rightarrow> Some s
      | Some tag \<Rightarrow> do { s \<leftarrow> f tag s; for_tags f m it s })
   }"

section \<open>The first pass: memory map and modules\<close>

record boot_scan =
  tag_option :: "usize option"
  initramfs_phys_start :: nat
  tracker :: region_tracker

definition scan_tag :: "mem \<Rightarrow> usize \<Rightarrow> boot_scan \<Rightarrow> boot_scan option" where
  "scan_tag m tag s =
     (if tag_typ m tag = 6 then Some (s\<lparr>tag_option := Some tag\<rparr>)
      else if tag_typ m tag = 3 then do {
        t \<leftarrow> reserve_region (mod_start m tag) (mod_end m tag) ''Initramfs Module'' (tracker s);
        Some (s\<lparr>initramfs_phys_start := mod_start m tag, tracker := t\<rparr>)
      }
      else Some s)"

definition scan_tags :: "mem \<Rightarrow> usize \<Rightarrow> region_tracker \<Rightarrow> boot_scan option" where
  "scan_tags m mbi_addr t = do {
     it \<leftarrow> tag_iter_new m mbi_addr;
     for_tags (scan_tag m) m it \<lparr>tag_option = None, initramfs_phys_start = 0, tracker = t\<rparr>
   }"

text \<open>The memory map behind its tag, after the assertions; the entries are 24 bytes apart.\<close>

definition memory_map_entries :: "mem \<Rightarrow> usize \<Rightarrow> memory_map_entry list option" where
  "memory_map_entries m tag =
     (if entry_size m tag > 0 \<and> tag_size m tag \<ge> 16 \<and> (tag_size m tag - 16) mod entry_size m tag = 0 then do {
        let num_entries = (tag_size m tag - 16) div entry_size m tag;
        first_entry \<leftarrow> uadd tag 16;
        Some (map (\<lambda>i. memory_map_entry_at m (first_entry + 24 * i)) [0..<num_entries])
      } else None)"

definition max_phys_addr :: "memory_map_entry list \<Rightarrow> usize option" where
  "max_phys_addr entries = for_in entries (\<lambda>entry mx.
     if mm_typ entry = 1 then do {
       region_end \<leftarrow> uadd (mm_base entry) (mm_length entry);
       Some (if region_end > mx then region_end else mx)
     } else Some mx) 0"

section \<open>The second pass: ACPI\<close>

definition validate_checksum :: "mem \<Rightarrow> usize \<Rightarrow> nat \<Rightarrow> bool" where
  "validate_checksum m start len = (fold (\<lambda>i checksum. checksum + m (start + i)) [0..<len] 0 = 0)"

definition APIC_SIGNATURE :: "u8 list" where
  "APIC_SIGNATURE = [0x41, 0x50, 0x49, 0x43]"

text \<open>The loop over the entries of a table, which stops at the first MADT.\<close>

fun find_apic :: "pt_ops \<Rightarrow> mem \<Rightarrow> nat list \<Rightarrow> usize option option" where
  "find_apic P m [] = Some None"
| "find_apic P m (entry # entries) = do {
     v \<leftarrow> uadd entry PHYS_OFFSET;
     entry_virt_addr \<leftarrow> virt_addr_new P v;
     if sdt_signature m entry_virt_addr = APIC_SIGNATURE then Some (Some entry)
     else find_apic P m entries
   }"

definition sdt_entries32 :: "mem \<Rightarrow> usize \<Rightarrow> nat \<Rightarrow> nat list" where
  "sdt_entries32 m start n = map (\<lambda>i. rd32 m (start + 4 * i)) [0..<n]"

definition sdt_entries64 :: "mem \<Rightarrow> usize \<Rightarrow> nat \<Rightarrow> nat list" where
  "sdt_entries64 m start n = map (\<lambda>i. rd64 m (start + 8 * i)) [0..<n]"

definition madt_tag :: "pt_ops \<Rightarrow> mem \<Rightarrow> usize \<Rightarrow> usize option \<Rightarrow> usize option option" where
  "madt_tag P m tag madt_phys_addr =
     (if tag_typ m tag = 14 then do {
        v \<leftarrow> uadd (rsdt_address m tag) PHYS_OFFSET;
        rsdt_virt_addr \<leftarrow> virt_addr_new P v;
        if \<not> validate_checksum m rsdt_virt_addr (sdt_length m rsdt_virt_addr) then None
        else do {
          n \<leftarrow> usub (sdt_length m rsdt_virt_addr) SDT_HEADER;
          start_ptr \<leftarrow> uadd rsdt_virt_addr SDT_HEADER;
          found \<leftarrow> find_apic P m (sdt_entries32 m start_ptr (n div 4));
          Some (case found of Some e \<Rightarrow> Some e | None \<Rightarrow> madt_phys_addr)
        }
      }
      else if tag_typ m tag = 15 then do {
        v \<leftarrow> uadd (xsdt_address m tag) PHYS_OFFSET;
        xsdt_virt_addr \<leftarrow> virt_addr_new P v;
        if \<not> validate_checksum m xsdt_virt_addr (sdt_length m xsdt_virt_addr) then None
        else do {
          n \<leftarrow> usub (sdt_length m xsdt_virt_addr) SDT_HEADER;
          start_ptr \<leftarrow> uadd xsdt_virt_addr SDT_HEADER;
          found \<leftarrow> find_apic P m (sdt_entries64 m start_ptr (n div 8));
          Some (case found of Some e \<Rightarrow> Some e | None \<Rightarrow> madt_phys_addr)
        }
      }
      else Some madt_phys_addr)"

definition find_madt :: "pt_ops \<Rightarrow> mem \<Rightarrow> usize \<Rightarrow> usize option option" where
  "find_madt P m mbi_addr = do {
     it \<leftarrow> tag_iter_new m mbi_addr;
     for_tags (madt_tag P m) m it None
   }"

section \<open>The interrupt controllers\<close>

definition mmio_flags :: "pt_flag set" where
  "mmio_flags = {PRESENT, WRITABLE, NO_CACHE, WRITE_THROUGH}"

text \<open>Map the page of a controller; \<open>expect\<close> panics on an error.  The result is the virtual address
  the driver is given.\<close>

definition map_mmio :: "pt_ops \<Rightarrow> usize \<Rightarrow> usize \<Rightarrow> buddy_st \<Rightarrow> (usize \<times> buddy_st) option" where
  "map_mmio P phys active_table s = do {
     phys \<leftarrow> phys_addr_new P phys;
     v \<leftarrow> uadd phys PHYS_OFFSET;
     virt \<leftarrow> virt_addr_new P v;
     (r, s) \<leftarrow> map_to P (mask_low 12 virt) (mask_low 12 phys) mmio_flags active_table s;
     (case r of Inl e \<Rightarrow> None | Inr _ \<Rightarrow> Some (virt, s))
   }"

text \<open>The loop over the records of the MADT: the address of the first I/O APIC, if there is one
  before the end of the table or a record too short to be one.\<close>

function madt_walk :: "pt_ops \<Rightarrow> usize \<Rightarrow> usize \<Rightarrow> nat \<Rightarrow> nat \<Rightarrow> buddy_st \<Rightarrow> (usize option \<times> buddy_st) option" where
  "madt_walk P active_table madt_virt total_table_length offset s =
     (if offset < total_table_length then do {
        v \<leftarrow> uadd madt_virt offset;
        record_virt \<leftarrow> virt_addr_new P v;
        let len = record_length (fst s) record_virt;
        if len < 2 then Some (None, s)
        else if madt_entry_type (fst s) record_virt = 1 then do {
          (virt, s) \<leftarrow> map_mmio P (io_apic_address (fst s) record_virt) active_table s;
          Some (Some virt, s)
        }
        else do {
          offset' \<leftarrow> uadd offset len;
          madt_walk P active_table madt_virt total_table_length offset' s
        }
      } else Some (None, s))"
  by pat_completeness auto
termination
  by (relation "measure (\<lambda>(P, t, mv, n, off, s). n - off)") (auto simp: checked)

text \<open>Locating and mapping both controllers; without a MADT the kernel panics.\<close>

definition setup_apics :: "pt_ops \<Rightarrow> usize \<Rightarrow> usize option \<Rightarrow> buddy_st \<Rightarrow> (usize \<times> usize option \<times> buddy_st) option" where
  "setup_apics P cr3 madt_phys_addr s =
     (case madt_phys_addr of
        None \<Rightarrow> None
      | Some madt_phys \<Rightarrow> do {
          v \<leftarrow> uadd madt_phys PHYS_OFFSET;
          madt_virt \<leftarrow> virt_addr_new P v;
          active_table \<leftarrow> active_level_4_table cr3;
          (lapic_virt, s) \<leftarrow> map_mmio P (local_apic_address (fst s) madt_virt) active_table s;
          let total_table_length = sdt_length (fst s) madt_virt;
          (io_apic, s) \<leftarrow> madt_walk P active_table madt_virt total_table_length MADT_SIZE s;
          Some (lapic_virt, io_apic, s)
        })"

section \<open>Well-formed tables\<close>

text \<open>The tags from \<open>a\<close> on, up to the terminal tag or the end \<open>e\<close> of the structure.\<close>

fun tags_at :: "mem \<Rightarrow> usize \<Rightarrow> usize \<Rightarrow> usize list \<Rightarrow> bool" where
  "tags_at m e a [] \<longleftrightarrow> e \<le> a \<or> (tag_typ m a = 0 \<and> tag_size m a = 8)"
| "tags_at m e a (p # ps) \<longleftrightarrow> p = a \<and> a < e \<and> \<not> (tag_typ m a = 0 \<and> tag_size m a = 8) \<and>
     tags_at m e (round_up 3 (a + tag_size m a)) ps"

definition mbi_tags :: "mem \<Rightarrow> usize \<Rightarrow> usize list \<Rightarrow> bool" where
  "mbi_tags m mbi ps \<longleftrightarrow> mbi + rd32 m mbi + 2 ^ 33 < 2 ^ 64 \<and> tags_at m (mbi + rd32 m mbi) (mbi + 8) ps"

text \<open>The tables a root pointer tag leads to, and the condition under which reading them does not
  panic: a valid checksum, a complete header, and addresses that are canonical in the direct map.\<close>

definition rsdp :: "mem \<Rightarrow> usize \<Rightarrow> bool" where
  "rsdp m tag \<longleftrightarrow> tag_typ m tag \<in> {14, 15}"

definition root_table :: "mem \<Rightarrow> usize \<Rightarrow> usize" where
  "root_table m tag = (if tag_typ m tag = 14 then rsdt_address m tag else xsdt_address m tag) + PHYS_OFFSET"

definition root_entries :: "mem \<Rightarrow> usize \<Rightarrow> nat list" where
  "root_entries m tag = (let v = root_table m tag; n = sdt_length m v - SDT_HEADER in
     if tag_typ m tag = 14 then sdt_entries32 m (v + SDT_HEADER) (n div 4) else sdt_entries64 m (v + SDT_HEADER) (n div 8))"

definition root_ok :: "mem \<Rightarrow> usize \<Rightarrow> bool" where
  "root_ok m tag \<longleftrightarrow> root_table m tag + SDT_HEADER < 2 ^ 64 \<and>
     SDT_HEADER \<le> sdt_length m (root_table m tag) \<and> validate_checksum m (root_table m tag) (sdt_length m (root_table m tag)) \<and>
     (\<forall>e \<in> set (root_entries m tag). e + PHYS_OFFSET < 2 ^ 64)"

definition is_madt :: "mem \<Rightarrow> usize \<Rightarrow> bool" where
  "is_madt m e \<longleftrightarrow> sdt_signature m (e + PHYS_OFFSET) = APIC_SIGNATURE"

fun last_opt :: "'a list \<Rightarrow> 'a option" where
  "last_opt [] = None"
| "last_opt (x # xs) = Some (last (x # xs))"

text \<open>The records of the MADT from offset \<open>off\<close> on, up to the end of the table or a record that is
  too short.\<close>

fun madt_records :: "mem \<Rightarrow> usize \<Rightarrow> nat \<Rightarrow> nat \<Rightarrow> usize list \<Rightarrow> bool" where
  "madt_records m v n off [] \<longleftrightarrow> n \<le> off \<or> record_length m (v + off) < 2"
| "madt_records m v n off (r # rs) \<longleftrightarrow> r = v + off \<and> off < n \<and> 2 \<le> record_length m r \<and>
     madt_records m v n (off + record_length m r) rs"

section \<open>The walks\<close>

lemma for_tags_eq:
  assumes "tags_at m e a ps" "e + 2 ^ 33 < 2 ^ 64"
  shows "for_tags f m \<lparr>current_address = a, end_address = e\<rparr> s = for_in ps f s"
  using assms(1)
proof (induction ps arbitrary: a s)
  case Nil
  then show ?case by (subst for_tags.simps) (auto simp: tag_next_def)
next
  case (Cons p ps)
  let ?n = "tag_size m a"
  from Cons.prems have p: "p = a" "a < e" "\<not> (tag_typ m a = 0 \<and> ?n = 8)" "tags_at m e (round_up 3 (a + ?n)) ps" by auto
  have "?n < 2 ^ 32" by (simp only: tag_size_def rd32_bound)
  then have "uadd a ?n = Some (a + ?n)" "uadd (a + ?n) 7 = Some (a + ?n + 7)" using p(2) assms(2) by (simp_all add: checked)
  moreover have "and_not (a + ?n + 7) 7 = round_up 3 (a + ?n)" using and_not_mask [of "a + ?n + 7" 3] by (simp add: round_up_def add.commute)
  ultimately have "tag_next m \<lparr>current_address = a, end_address = e\<rparr> =
      Some (Some a, \<lparr>current_address = round_up 3 (a + ?n), end_address = e\<rparr>)"
    using p(2,3) unfolding tag_next_def Let_def by (simp del: de_Morgan_conj)
  then have "for_tags f m \<lparr>current_address = a, end_address = e\<rparr> s =
      do { s \<leftarrow> f a s; for_tags f m \<lparr>current_address = round_up 3 (a + ?n), end_address = e\<rparr> s }"
    by (subst for_tags.simps) simp
  with Cons.IH [OF p(4)] p(1) show ?case by simp
qed

lemma mbi_loop:
  assumes "mbi_tags m mbi ps"
  shows "do { it \<leftarrow> tag_iter_new m mbi; for_tags f m it s } = for_in ps f s"
proof -
  have b: "mbi + rd32 m mbi + 2 ^ 33 < 2 ^ 64" and t: "tags_at m (mbi + rd32 m mbi) (mbi + 8) ps"
    using assms unfolding mbi_tags_def by auto
  have "tag_iter_new m mbi = Some \<lparr>current_address = mbi + 8, end_address = mbi + rd32 m mbi\<rparr>"
    using b by (simp add: tag_iter_new_def checked_ok)
  with for_tags_eq [OF t b] show ?thesis by simp
qed

lemma find_apic_eq:
  assumes "\<forall>e \<in> set es. e + PHYS_OFFSET < 2 ^ 64" "pt_laws P"
  shows "find_apic P m es = Some (find (is_madt m) es)"
  using assms(1)
proof (induction es)
  case (Cons e es)
  then have e: "e + PHYS_OFFSET < 2 ^ 64" by simp
  then have "canonical (e + PHYS_OFFSET)" by (simp add: canonical_def PHYS_OFFSET_def)
  then have "virt_addr_new P (e + PHYS_OFFSET) = Some (e + PHYS_OFFSET)" using assms(2) by (simp add: pt_laws_def)
  with Cons e show ?case by (simp add: uadd_ok is_madt_def)
qed simp

lemma madt_tag_eq:
  assumes "pt_laws P" "rsdp m tag \<Longrightarrow> root_ok m tag"
  shows "madt_tag P m tag found =
    Some (if rsdp m tag then (case find (is_madt m) (root_entries m tag) of Some e \<Rightarrow> Some e | None \<Rightarrow> found) else found)"
proof (cases "rsdp m tag")
  case True
  let ?v = "root_table m tag"
  from assms(2) [OF True] have r: "?v + SDT_HEADER < 2 ^ 64" "SDT_HEADER \<le> sdt_length m ?v" "validate_checksum m ?v (sdt_length m ?v)"
    "\<forall>e \<in> set (root_entries m tag). e + PHYS_OFFSET < 2 ^ 64" unfolding root_ok_def by auto
  have "canonical ?v" using r(1) unfolding root_table_def canonical_def PHYS_OFFSET_def by auto
  then have v: "virt_addr_new P ?v = Some ?v" using assms(1) by (simp add: pt_laws_def)
  have s: "usub (sdt_length m ?v) SDT_HEADER = Some (sdt_length m ?v - SDT_HEADER)" "uadd ?v SDT_HEADER = Some (?v + SDT_HEADER)"
    using r(1,2) by (simp_all add: checked)
  note f = find_apic_eq [OF r(4) assms(1), of m]
  show ?thesis
  proof (cases "tag_typ m tag = 14")
    case t: True
    then have u: "uadd (rsdt_address m tag) PHYS_OFFSET = Some ?v" using r(1) by (simp add: root_table_def checked)
    have e: "root_entries m tag = sdt_entries32 m (?v + SDT_HEADER) ((sdt_length m ?v - SDT_HEADER) div 4)"
      by (simp add: root_entries_def Let_def t)
    show ?thesis unfolding madt_tag_def using True r(3) by (simp only: t u v s bind.bind_lunit if_True f [unfolded e] e not_True_eq_False if_False refl)
  next
    case t: False
    then have u: "uadd (xsdt_address m tag) PHYS_OFFSET = Some ?v" "tag_typ m tag = 15"
      using r(1) True by (simp_all add: root_table_def checked rsdp_def)
    have e: "root_entries m tag = sdt_entries64 m (?v + SDT_HEADER) ((sdt_length m ?v - SDT_HEADER) div 8)"
      by (simp add: root_entries_def Let_def t)
    have "(15::nat) \<noteq> 14" by simp
    with True r(3) show ?thesis unfolding madt_tag_def by (simp only: u v s bind.bind_lunit if_True f [unfolded e] e not_True_eq_False if_False refl)
  qed
qed (simp add: madt_tag_def rsdp_def)

lemma madt_fold:
  assumes "pt_laws P" "\<forall>tag \<in> set ps. rsdp m tag \<longrightarrow> root_ok m tag"
  shows "for_in ps (madt_tag P m) found =
    Some (case last_opt (List.map_filter (\<lambda>tag. find (is_madt m) (root_entries m tag)) (filter (rsdp m) ps)) of
      Some e \<Rightarrow> Some e | None \<Rightarrow> found)"
  using assms(2)
proof (induction ps arbitrary: found)
  case Nil
  then show ?case by (simp add: List.map_filter_simps)
next
  case (Cons tag ps)
  let ?xs = "List.map_filter (\<lambda>tag. find (is_madt m) (root_entries m tag)) (filter (rsdp m) ps)"
  have l: "last_opt (e # ?xs) = Some (case last_opt ?xs of Some e' \<Rightarrow> e' | None \<Rightarrow> e)" for e
    by (cases ?xs) auto
  have eq: "madt_tag P m tag found =
      Some (if rsdp m tag then (case find (is_madt m) (root_entries m tag) of Some e \<Rightarrow> Some e | None \<Rightarrow> found) else found)"
    using Cons.prems by (intro madt_tag_eq assms(1)) simp
  show ?case
  proof (cases "rsdp m tag")
    case True
    with Cons eq l show ?thesis
      by (cases "find (is_madt m) (root_entries m tag)") (auto simp: List.map_filter_simps split: option.splits)
  next
    case False
    with Cons eq show ?thesis by simp
  qed
qed

text \<open>The modules of a list of tags, as regions to reserve.\<close>

definition module_region :: "mem \<Rightarrow> usize \<Rightarrow> reserved_region" where
  "module_region m tag = \<lparr>rr_start = mod_start m tag, rr_end = mod_end m tag, rr_name = ''Initramfs Module''\<rparr>"

abbreviation mmap_tags :: "mem \<Rightarrow> usize list \<Rightarrow> usize list" where
  "mmap_tags m ps \<equiv> filter (\<lambda>p. tag_typ m p = 6) ps"

abbreviation module_tags :: "mem \<Rightarrow> usize list \<Rightarrow> usize list" where
  "module_tags m ps \<equiv> filter (\<lambda>p. tag_typ m p = 3) ps"

definition reserved_list :: "region_tracker \<Rightarrow> reserved_region list" where
  "reserved_list t = take (rcount t) (regions t)"

lemma reserve_region_list:
  assumes "length (regions t) = 32" "rcount t < 32"
  shows "\<exists>t'. reserve_region a b nm t = Some t' \<and> length (regions t') = 32 \<and> rcount t' = rcount t + 1 \<and>
    reserved_list t' = reserved_list t @ [\<lparr>rr_start = a, rr_end = b, rr_name = nm\<rparr>]"
  using assms by (auto simp: reserve_region_def reserved_list_def take_Suc_conv_app_nth)

lemma scan_fold:
  assumes "length (regions (tracker s)) = 32" "rcount (tracker s) + length (module_tags m ps) \<le> 32"
  shows "\<exists>s'. for_in ps (scan_tag m) s = Some s' \<and>
    tag_option s' = (case last_opt (mmap_tags m ps) of Some p \<Rightarrow> Some p | None \<Rightarrow> tag_option s) \<and>
    initramfs_phys_start s' = (case last_opt (module_tags m ps) of Some p \<Rightarrow> mod_start m p | None \<Rightarrow> initramfs_phys_start s) \<and>
    reserved_list (tracker s') = reserved_list (tracker s) @ map (module_region m) (module_tags m ps)"
  using assms
proof (induction ps arbitrary: s)
  case Nil
  then show ?case by simp
next
  case (Cons p ps)
  have l: "last_opt (x # xs) = Some (case last_opt xs of Some y \<Rightarrow> y | None \<Rightarrow> x)" for x :: nat and xs
    by (cases xs) auto
  consider "tag_typ m p = 6" | "tag_typ m p = 3" | "tag_typ m p \<notin> {3, 6}" by blast
  then show ?case
  proof cases
    case 1
    from Cons.IH [of "s\<lparr>tag_option := Some p\<rparr>"] Cons.prems 1
    show ?thesis by (auto simp: scan_tag_def l simp del: last_opt.simps split: option.splits)
  next
    case 2
    with Cons.prems reserve_region_list [of "tracker s" "mod_start m p" "mod_end m p" "''Initramfs Module''"]
    obtain t where t: "reserve_region (mod_start m p) (mod_end m p) ''Initramfs Module'' (tracker s) = Some t"
      "length (regions t) = 32" "rcount t = rcount (tracker s) + 1"
      "reserved_list t = reserved_list (tracker s) @ [module_region m p]" by (auto simp: module_region_def)
    let ?s = "s\<lparr>initramfs_phys_start := mod_start m p, tracker := t\<rparr>"
    have "scan_tag m p s = Some ?s" using 2 t(1) by (simp add: scan_tag_def)
    with Cons.IH [of ?s] Cons.prems 2 t(2-4)
    show ?thesis by (auto simp: l simp del: last_opt.simps split: option.splits)
  next
    case 3
    with Cons show ?thesis by (simp add: scan_tag_def)
  qed
qed

lemma madt_walk_eq:
  assumes "madt_records (fst s) v n off rs" "pt_laws P" "PHYS_OFFSET \<le> v" "v + n < 2 ^ 64 - 256"
  shows "madt_walk P tab v n off s =
    (case find (\<lambda>r. madt_entry_type (fst s) r = 1) rs of
       None \<Rightarrow> Some (None, s)
     | Some r \<Rightarrow> do { (virt, s') \<leftarrow> map_mmio P (io_apic_address (fst s) r) tab s; Some (Some virt, s') })"
  using assms(1)
proof (induction rs arbitrary: off)
  case Nil
  have "virt_addr_new P (v + off) = Some (v + off)" "uadd v off = Some (v + off)" if "off < n"
    using assms(2-4) that by (simp_all add: pt_laws_def canonical_def PHYS_OFFSET_def checked)
  with Nil show ?case by (subst madt_walk.simps) (auto simp: Let_def)
next
  case (Cons r rs)
  let ?l = "record_length (fst s) r"
  from Cons.prems have r: "r = v + off" "off < n" "2 \<le> ?l" "madt_records (fst s) v n (off + ?l) rs" by auto
  have "?l < 256" using unsigned_less [of "fst s (r + 1)", where 'a = nat] by (simp add: record_length_def)
  then have "virt_addr_new P (v + off) = Some (v + off)" "uadd v off = Some (v + off)" "uadd off ?l = Some (off + ?l)"
    using assms(2-4) r(2) by (simp_all add: pt_laws_def canonical_def PHYS_OFFSET_def checked)
  with r Cons.IH [OF r(4)] show ?case by (subst madt_walk.simps) (simp add: Let_def)
qed

section \<open>Correctness\<close>

text \<open>
  C27.  The first pass over the boot information.  For a structure with the tags \<open>ps\<close>, none of which
  has to be of a known type, the loop over the tag iterator ends; it finds the last memory map tag,
  if there is one, and the start of the last module (0 without one), and reserves the range of every
  module, in order and after the regions reserved before, if the tracker has room for them.
\<close>

theorem boot_scan_correct:
  assumes "mbi_tags m mbi ps" "length (regions t) = 32" "rcount t + length (module_tags m ps) \<le> 32"
  shows "\<exists>s. scan_tags m mbi t = Some s \<and> tag_option s = last_opt (mmap_tags m ps) \<and>
    initramfs_phys_start s = (case last_opt (module_tags m ps) of Some p \<Rightarrow> mod_start m p | None \<Rightarrow> 0) \<and>
    reserved_list (tracker s) = reserved_list t @ map (module_region m) (module_tags m ps)"
proof -
  let ?s = "\<lparr>tag_option = None, initramfs_phys_start = 0, tracker = t\<rparr>"
  have "scan_tags m mbi t = for_in ps (scan_tag m) ?s" unfolding scan_tags_def by (rule mbi_loop [OF assms(1)])
  moreover have "\<exists>s. for_in ps (scan_tag m) ?s = Some s \<and>
    tag_option s = (case last_opt (mmap_tags m ps) of Some p \<Rightarrow> Some p | None \<Rightarrow> None) \<and>
    initramfs_phys_start s = (case last_opt (module_tags m ps) of Some p \<Rightarrow> mod_start m p | None \<Rightarrow> 0) \<and>
    reserved_list (tracker s) = reserved_list t @ map (module_region m) (module_tags m ps)"
    using scan_fold [of ?s m ps, unfolded boot_scan.simps, OF assms(2,3)] .
  ultimately show ?thesis by (auto split: option.splits)
qed


text \<open>
  C29.  The walk over the records of the MADT is the search for the first record of type 1: it ends for
  every table, at the first such record, at the end of the table or at a record with a length below 2,
  and maps the controller of the record it found.
\<close>

theorem madt_walk_finds_first:
  assumes "pt_laws P" "PHYS_OFFSET \<le> v" "v + n < 2 ^ 64 - 256" "madt_records (fst s) v n off rs"
  shows "madt_walk P tab v n off s =
    (case find (\<lambda>r. madt_entry_type (fst s) r = 1) rs of
       None \<Rightarrow> Some (None, s)
     | Some r \<Rightarrow> do { (virt, s') \<leftarrow> map_mmio P (io_apic_address (fst s) r) tab s; Some (Some virt, s') })"
  by (rule madt_walk_eq [OF assms(4,1,2,3)])

text \<open>An instance: a memory map tag, an ACPI 1.0 tag and the terminal tag; a root table at physical
  address 0 with the one entry 64, a MADT of two records.\<close>

definition sample_boot :: mem where
  "sample_boot x =
     (if x = 0 then 64 else if x = 8 then 6 else if x = 12 then 16
      else if x = 24 then 14 else if x = 28 then 28 else if x = 60 then 8
      else if x = PHYS_OFFSET + 4 then 40 else if x = PHYS_OFFSET + 9 then 152 else if x = PHYS_OFFSET + 36 then 64
      else if x = PHYS_OFFSET + 64 then 0x41 else if x = PHYS_OFFSET + 65 then 0x50
      else if x = PHYS_OFFSET + 66 then 0x49 else if x = PHYS_OFFSET + 67 then 0x43
      else if x = PHYS_OFFSET + 68 then 64 else if x = PHYS_OFFSET + 109 then 8
      else if x = PHYS_OFFSET + 116 then 1 else if x = PHYS_OFFSET + 117 then 12
      else 0)"

lemma rd32_bytes: "rd32 m a = unat (m a) + unat (m (a + 1)) * 256 + unat (m (a + 2)) * 65536 + unat (m (a + 3)) * 16777216"
proof -
  have "{..<4} = {0, 1, 2, 3::nat}" by auto
  then show ?thesis by (simp add: rd32_def)
qed

lemmas boot_sample_simps = tag_typ_def tag_size_def rd32_bytes sample_boot_def PHYS_OFFSET_def rsdt_address_def
  sdt_length_def sdt_signature_def record_length_def madt_entry_type_def

lemma boot_sample_tags: "mbi_tags sample_boot 0 [8, 24]"
  by (simp add: mbi_tags_def boot_sample_simps round_up_def mask_low_def)

theorem boot_scan_correct_witness:
  "\<exists>s. scan_tags sample_boot 0 RESERVED_TRACKER = Some s \<and> tag_option s = Some 8 \<and> initramfs_phys_start s = 0"
proof -
  have "mmap_tags sample_boot [8, 24] = [8]" "module_tags sample_boot [8, 24] = []" by (simp_all add: boot_sample_simps)
  with boot_scan_correct [OF boot_sample_tags, of RESERVED_TRACKER] show ?thesis by (auto simp: RESERVED_TRACKER_def)
qed

lemma boot_sample_root: "root_table sample_boot 24 = PHYS_OFFSET" "root_entries sample_boot 24 = [64]"
  "sdt_length sample_boot PHYS_OFFSET = 40"
proof -
  have t: "tag_typ sample_boot 24 = 14" "rsdt_address sample_boot 24 = 0" by (simp_all add: boot_sample_simps)
  then show r: "root_table sample_boot 24 = PHYS_OFFSET" by (simp add: root_table_def)
  show l: "sdt_length sample_boot PHYS_OFFSET = 40" by (simp add: boot_sample_simps)
  have "root_entries sample_boot 24 = [rd32 sample_boot (PHYS_OFFSET + 36)]"
    unfolding root_entries_def Let_def r l t(1) by (simp add: SDT_HEADER_def sdt_entries32_def)
  then show "root_entries sample_boot 24 = [64]" by (simp add: boot_sample_simps)
qed

lemma boot_sample_root_ok: "root_ok sample_boot 24"
proof -
  have l: "[0..<40] = [0, 1, 2, 3, 4, 5, 6, 7, 8, 9, 10, 11, 12, 13, 14, 15, 16, 17, 18, 19, 20, 21, 22, 23, 24, 25, 26, 27, 28, 29, 30, 31, 32, 33, 34, 35, 36, 37, 38, 39]"
    by (simp add: upt_rec)
  have "fold (\<lambda>i c. c + sample_boot (PHYS_OFFSET + i)) [0..<40] 0 = 0"
    unfolding l by (simp add: sample_boot_def PHYS_OFFSET_def)
  then show ?thesis unfolding root_ok_def boot_sample_root by (simp add: SDT_HEADER_def PHYS_OFFSET_def validate_checksum_def)
qed


theorem madt_walk_finds_first_witness:
  "madt_walk sample_pt 0 (PHYS_OFFSET + 64) 64 MADT_SIZE (sample_boot, sample_hbuddy) =
     do { (virt, s') \<leftarrow> map_mmio sample_pt (io_apic_address sample_boot (PHYS_OFFSET + 116)) 0 (sample_boot, sample_hbuddy); Some (Some virt, s') }"
proof -
  let ?rs = "[PHYS_OFFSET + 108, PHYS_OFFSET + 116]"
  have "madt_records (fst (sample_boot, sample_hbuddy)) (PHYS_OFFSET + 64) 64 MADT_SIZE ?rs"
    by (simp add: MADT_SIZE_def boot_sample_simps)
  from madt_walk_finds_first [OF sample_laws _ _ this] show ?thesis
    by (simp add: boot_sample_simps)
qed

end
