(* ===== verification/Rbtree.thy ===== *)
theory Rbtree
  imports Prelude
begin

text \<open>
  The red-black tree of runnable threads, \<^verbatim>\<open>src/rbtree.c\<close>: nodes in a store, linked by pointers to
  children and parents, with the color packed into the parent pointer.  A node that is not in the
  store cannot be accessed, so \<open>None\<close> also stands for an access through a null or dangling pointer.
\<close>

section \<open>The code\<close>

record sched_node =
  sn_vruntime :: nat
  sn_task_id :: nat
  sn_deadline :: nat
  sn_min_deadline :: nat
  sn_left :: usize
  sn_right :: usize
  parent_and_color :: usize

type_synonym nodes = "usize \<Rightarrow> sched_node option"

abbreviation (input) RB_BLACK :: nat where "RB_BLACK \<equiv> 0"
abbreviation (input) RB_RED :: nat where "RB_RED \<equiv> 1"

definition rb_color :: "sched_node \<Rightarrow> nat" where
  "rb_color n = parent_and_color n AND 1"

definition rb_parent :: "sched_node \<Rightarrow> usize" where
  "rb_parent n = and_not (parent_and_color n) 3"

text \<open>A load and a store through a pointer to a node.\<close>

definition load :: "usize \<Rightarrow> nodes \<Rightarrow> sched_node option" where
  "load p h = h p"

definition upd :: "usize \<Rightarrow> (sched_node \<Rightarrow> sched_node) \<Rightarrow> nodes \<Rightarrow> nodes" where
  "upd p f h = h(p := map_option f (h p))"

definition store :: "usize \<Rightarrow> (sched_node \<Rightarrow> sched_node) \<Rightarrow> nodes \<Rightarrow> nodes option" where
  "store p f h = (if h p = None then None else Some (upd p f h))"

definition with_color :: "nat \<Rightarrow> sched_node \<Rightarrow> sched_node" where
  "with_color color n = n\<lparr>parent_and_color := and_not (parent_and_color n) 1 OR color\<rparr>"

definition with_parent :: "usize \<Rightarrow> sched_node \<Rightarrow> sched_node" where
  "with_parent parent n = n\<lparr>parent_and_color := (parent_and_color n AND 1) OR and_not parent 3\<rparr>"

definition rb_set_color :: "usize \<Rightarrow> nat \<Rightarrow> nodes \<Rightarrow> nodes option" where
  "rb_set_color p color = store p (with_color color)"

definition rb_set_parent :: "usize \<Rightarrow> usize \<Rightarrow> nodes \<Rightarrow> nodes option" where
  "rb_set_parent p parent = store p (with_parent parent)"

definition set_left :: "usize \<Rightarrow> usize \<Rightarrow> nodes \<Rightarrow> nodes option" where
  "set_left p q = store p (\<lambda>n. n\<lparr>sn_left := q\<rparr>)"

definition set_right :: "usize \<Rightarrow> usize \<Rightarrow> nodes \<Rightarrow> nodes option" where
  "set_right p q = store p (\<lambda>n. n\<lparr>sn_right := q\<rparr>)"

text \<open>The functions take and return the root pointer along with the store.\<close>

definition rb_rotate_left :: "usize \<Rightarrow> usize \<Rightarrow> nodes \<Rightarrow> (usize \<times> nodes) option" where
  "rb_rotate_left root x h = do {
     xn \<leftarrow> load x h;
     let y = sn_right xn;
     if y = 0 then Some (root, h)
     else do {
       yn \<leftarrow> load y h;
       h \<leftarrow> set_right x (sn_left yn) h;
       yn \<leftarrow> load y h;
       h \<leftarrow> if sn_left yn \<noteq> 0 then rb_set_parent (sn_left yn) x h else Some h;
       xn \<leftarrow> load x h;
       let x_parent = rb_parent xn;
       (root, h) \<leftarrow>
         (if x_parent = 0 then do { h \<leftarrow> rb_set_parent y 0 h; Some (y, h) }
          else do {
            h \<leftarrow> rb_set_parent y x_parent h;
            pn \<leftarrow> load x_parent h;
            h \<leftarrow> if x = sn_left pn then set_left x_parent y h else set_right x_parent y h;
            Some (root, h) });
       h \<leftarrow> set_left y x h;
       h \<leftarrow> rb_set_parent x y h;
       Some (root, h)
     }
   }"

definition rb_rotate_right :: "usize \<Rightarrow> usize \<Rightarrow> nodes \<Rightarrow> (usize \<times> nodes) option" where
  "rb_rotate_right root y h = do {
     yn \<leftarrow> load y h;
     let x = sn_left yn;
     if x = 0 then Some (root, h)
     else do {
       xn \<leftarrow> load x h;
       h \<leftarrow> set_left y (sn_right xn) h;
       xn \<leftarrow> load x h;
       h \<leftarrow> if sn_right xn \<noteq> 0 then rb_set_parent (sn_right xn) y h else Some h;
       yn \<leftarrow> load y h;
       let y_parent = rb_parent yn;
       (root, h) \<leftarrow>
         (if y_parent = 0 then do { h \<leftarrow> rb_set_parent x 0 h; Some (x, h) }
          else do {
            h \<leftarrow> rb_set_parent x y_parent h;
            pn \<leftarrow> load y_parent h;
            h \<leftarrow> if y = sn_left pn then set_left y_parent x h else set_right y_parent x h;
            Some (root, h) });
       h \<leftarrow> set_right x y h;
       h \<leftarrow> rb_set_parent y x h;
       Some (root, h)
     }
   }"

text \<open>The body and the loop of \<open>rb_insert_fixup\<close>.\<close>

definition insert_fixup_left :: "usize \<Rightarrow> usize \<Rightarrow> usize \<Rightarrow> usize \<Rightarrow> nodes \<Rightarrow> (usize \<times> usize \<times> nodes) option" where
  "insert_fixup_left root node parent grandparent h = do {
     gn \<leftarrow> load grandparent h;
     let uncle = sn_right gn;
     uncle_red \<leftarrow> if uncle = 0 then Some False else do { un \<leftarrow> load uncle h; Some (rb_color un = RB_RED) };
     if uncle_red then do {
       h \<leftarrow> rb_set_color parent RB_BLACK h;
       h \<leftarrow> rb_set_color uncle RB_BLACK h;
       h \<leftarrow> rb_set_color grandparent RB_RED h;
       Some (root, grandparent, h)
     } else do {
       pn \<leftarrow> load parent h;
       (root, node, parent, h) \<leftarrow>
         (if node = sn_right pn then do {
            let node = parent;
            (root, h) \<leftarrow> rb_rotate_left root node h;
            nn \<leftarrow> load node h;
            Some (root, node, rb_parent nn, h) }
          else Some (root, node, parent, h));
       h \<leftarrow> rb_set_color parent RB_BLACK h;
       h \<leftarrow> rb_set_color grandparent RB_RED h;
       (root, h) \<leftarrow> rb_rotate_right root grandparent h;
       Some (root, node, h)
     }
   }"

definition insert_fixup_right :: "usize \<Rightarrow> usize \<Rightarrow> usize \<Rightarrow> usize \<Rightarrow> nodes \<Rightarrow> (usize \<times> usize \<times> nodes) option" where
  "insert_fixup_right root node parent grandparent h = do {
     gn \<leftarrow> load grandparent h;
     let uncle = sn_left gn;
     uncle_red \<leftarrow> if uncle = 0 then Some False else do { un \<leftarrow> load uncle h; Some (rb_color un = RB_RED) };
     if uncle_red then do {
       h \<leftarrow> rb_set_color parent RB_BLACK h;
       h \<leftarrow> rb_set_color uncle RB_BLACK h;
       h \<leftarrow> rb_set_color grandparent RB_RED h;
       Some (root, grandparent, h)
     } else do {
       pn \<leftarrow> load parent h;
       (root, node, parent, h) \<leftarrow>
         (if node = sn_left pn then do {
            let node = parent;
            (root, h) \<leftarrow> rb_rotate_right root node h;
            nn \<leftarrow> load node h;
            Some (root, node, rb_parent nn, h) }
          else Some (root, node, parent, h));
       h \<leftarrow> rb_set_color parent RB_BLACK h;
       h \<leftarrow> rb_set_color grandparent RB_RED h;
       (root, h) \<leftarrow> rb_rotate_left root grandparent h;
       Some (root, node, h)
     }
   }"

partial_function (option) rb_insert_fixup :: "usize \<Rightarrow> usize \<Rightarrow> nodes \<Rightarrow> (usize \<times> nodes) option" where
  "rb_insert_fixup root node h = do {
     continue \<leftarrow> (if node = root then Some False
       else do { nn \<leftarrow> load node h; pn \<leftarrow> load (rb_parent nn) h; Some (rb_color pn = RB_RED) });
     if continue then do {
       nn \<leftarrow> load node h;
       let parent = rb_parent nn;
       pn \<leftarrow> load parent h;
       let grandparent = rb_parent pn;
       gn \<leftarrow> load grandparent h;
       (root, node, h) \<leftarrow>
         (if parent = sn_left gn then insert_fixup_left root node parent grandparent h
          else insert_fixup_right root node parent grandparent h);
       rb_insert_fixup root node h
     } else do {
       h \<leftarrow> rb_set_color root RB_BLACK h;
       Some (root, h)
     }
   }"

text \<open>The search for the place of a new node: the last node on the way down.\<close>

partial_function (option) insert_parent :: "nodes \<Rightarrow> nat \<Rightarrow> usize \<Rightarrow> usize \<Rightarrow> usize option" where
  "insert_parent h vruntime parent current =
     (if current = 0 then Some parent
      else do {
        cn \<leftarrow> load current h;
        insert_parent h vruntime current (if vruntime < sn_vruntime cn then sn_left cn else sn_right cn)
      })"

definition rbtree_insert :: "usize \<Rightarrow> usize \<Rightarrow> nodes \<Rightarrow> (usize \<times> nodes) option" where
  "rbtree_insert root node h = do {
     h \<leftarrow> set_left node 0 h;
     h \<leftarrow> set_right node 0 h;
     if root = 0 then do {
       h \<leftarrow> rb_set_parent node 0 h;
       h \<leftarrow> rb_set_color node RB_BLACK h;
       Some (node, h)
     } else do {
       nn \<leftarrow> load node h;
       parent \<leftarrow> insert_parent h (sn_vruntime nn) 0 root;
       h \<leftarrow> rb_set_parent node parent h;
       h \<leftarrow> rb_set_color node RB_RED h;
       nn \<leftarrow> load node h;
       pn \<leftarrow> load parent h;
       h \<leftarrow> if sn_vruntime nn < sn_vruntime pn then set_left parent node h else set_right parent node h;
       rb_insert_fixup root node h
     }
   }"

definition rb_color_safe :: "nodes \<Rightarrow> usize \<Rightarrow> nat option" where
  "rb_color_safe h p = (if p \<noteq> 0 then do { n \<leftarrow> load p h; Some (rb_color n) } else Some RB_BLACK)"

text \<open>One iteration of \<open>rb_remove_fixup\<close>, on either side.\<close>

definition remove_fixup_left :: "usize \<Rightarrow> usize \<Rightarrow> usize \<Rightarrow> nodes \<Rightarrow> (usize \<times> usize \<times> usize \<times> nodes) option" where
  "remove_fixup_left root x x_parent h = do {
     pn \<leftarrow> load x_parent h;
     let w = sn_right pn;
     wc \<leftarrow> rb_color_safe h w;
     if wc = RB_RED then do {
       h \<leftarrow> rb_set_color x_parent RB_RED h;
       h \<leftarrow> rb_set_color w RB_BLACK h;
       (root, h) \<leftarrow> rb_rotate_left root x_parent h;
       Some (root, x, x_parent, h)
     } else do {
       wn \<leftarrow> load w h;
       cl \<leftarrow> rb_color_safe h (sn_left wn);
       cr \<leftarrow> rb_color_safe h (sn_right wn);
       if cl = RB_BLACK \<and> cr = RB_BLACK then do {
         h \<leftarrow> rb_set_color w RB_RED h;
         pn \<leftarrow> load x_parent h;
         Some (root, x_parent, rb_parent pn, h)
       } else if cl = RB_RED \<and> cr = RB_BLACK then do {
         h \<leftarrow> rb_set_color (sn_left wn) RB_BLACK h;
         h \<leftarrow> rb_set_color w RB_RED h;
         (root, h) \<leftarrow> rb_rotate_right root w h;
         Some (root, x, x_parent, h)
       } else do {
         pn \<leftarrow> load x_parent h;
         h \<leftarrow> rb_set_color w (rb_color pn) h;
         h \<leftarrow> rb_set_color x_parent RB_BLACK h;
         wn \<leftarrow> load w h;
         h \<leftarrow> rb_set_color (sn_right wn) RB_BLACK h;
         (root, h) \<leftarrow> rb_rotate_left root x_parent h;
         Some (root, root, x_parent, h)
       }
     }
   }"

definition remove_fixup_right :: "usize \<Rightarrow> usize \<Rightarrow> usize \<Rightarrow> nodes \<Rightarrow> (usize \<times> usize \<times> usize \<times> nodes) option" where
  "remove_fixup_right root x x_parent h = do {
     pn \<leftarrow> load x_parent h;
     let w = sn_left pn;
     wc \<leftarrow> rb_color_safe h w;
     if wc = RB_RED then do {
       h \<leftarrow> rb_set_color x_parent RB_RED h;
       h \<leftarrow> rb_set_color w RB_BLACK h;
       (root, h) \<leftarrow> rb_rotate_right root x_parent h;
       Some (root, x, x_parent, h)
     } else do {
       wn \<leftarrow> load w h;
       cl \<leftarrow> rb_color_safe h (sn_left wn);
       cr \<leftarrow> rb_color_safe h (sn_right wn);
       if cl = RB_BLACK \<and> cr = RB_BLACK then do {
         h \<leftarrow> rb_set_color w RB_RED h;
         pn \<leftarrow> load x_parent h;
         Some (root, x_parent, rb_parent pn, h)
       } else if cr = RB_RED \<and> cl = RB_BLACK then do {
         h \<leftarrow> rb_set_color (sn_right wn) RB_BLACK h;
         h \<leftarrow> rb_set_color w RB_RED h;
         (root, h) \<leftarrow> rb_rotate_left root w h;
         Some (root, x, x_parent, h)
       } else do {
         pn \<leftarrow> load x_parent h;
         h \<leftarrow> rb_set_color w (rb_color pn) h;
         h \<leftarrow> rb_set_color x_parent RB_BLACK h;
         wn \<leftarrow> load w h;
         h \<leftarrow> rb_set_color (sn_left wn) RB_BLACK h;
         (root, h) \<leftarrow> rb_rotate_right root x_parent h;
         Some (root, root, x_parent, h)
       }
     }
   }"

partial_function (option) rb_remove_fixup :: "usize \<Rightarrow> usize \<Rightarrow> usize \<Rightarrow> nodes \<Rightarrow> (usize \<times> nodes) option" where
  "rb_remove_fixup root x x_parent h = do {
     xc \<leftarrow> if x = root then Some RB_RED else rb_color_safe h x;
     if x \<noteq> root \<and> xc = RB_BLACK then do {
       pn \<leftarrow> load x_parent h;
       (root, x, x_parent, h) \<leftarrow>
         (if x = sn_left pn then remove_fixup_left root x x_parent h
          else remove_fixup_right root x x_parent h);
       rb_remove_fixup root x x_parent h
     } else do {
       h \<leftarrow> if x \<noteq> 0 then rb_set_color x RB_BLACK h else Some h;
       Some (root, h)
     }
   }"

definition rb_transplant :: "usize \<Rightarrow> usize \<Rightarrow> usize \<Rightarrow> nodes \<Rightarrow> (usize \<times> nodes) option" where
  "rb_transplant root u v h = do {
     un \<leftarrow> load u h;
     (root, h) \<leftarrow>
       (if rb_parent un = 0 then Some (v, h)
        else do {
          pn \<leftarrow> load (rb_parent un) h;
          h \<leftarrow> if u = sn_left pn then set_left (rb_parent un) v h else set_right (rb_parent un) v h;
          Some (root, h) });
     un \<leftarrow> load u h;
     h \<leftarrow> if v \<noteq> 0 then rb_set_parent v (rb_parent un) h else Some h;
     Some (root, h)
   }"

partial_function (option) leftmost_from :: "nodes \<Rightarrow> usize \<Rightarrow> usize option" where
  "leftmost_from h p = do {
     n \<leftarrow> load p h;
     if sn_left n \<noteq> 0 then leftmost_from h (sn_left n) else Some p
   }"

definition rbtree_leftmost :: "nodes \<Rightarrow> usize \<Rightarrow> usize option" where
  "rbtree_leftmost h root = (if root = 0 then Some 0 else leftmost_from h root)"

definition rbtree_remove :: "usize \<Rightarrow> usize \<Rightarrow> nodes \<Rightarrow> (usize \<times> nodes) option" where
  "rbtree_remove root z h = do {
     zn \<leftarrow> load z h;
     (y_original_color, x, x_parent, root, h) \<leftarrow>
       (if sn_left zn = 0 then do {
          let x = sn_right zn;
          let x_parent = rb_parent zn;
          (root, h) \<leftarrow> rb_transplant root z (sn_right zn) h;
          Some (rb_color zn, x, x_parent, root, h) }
        else if sn_right zn = 0 then do {
          let x = sn_left zn;
          let x_parent = rb_parent zn;
          (root, h) \<leftarrow> rb_transplant root z (sn_left zn) h;
          Some (rb_color zn, x, x_parent, root, h) }
        else do {
          y \<leftarrow> rbtree_leftmost h (sn_right zn);
          yn \<leftarrow> load y h;
          let y_original_color = rb_color yn;
          let x = sn_right yn;
          (x_parent, root, h) \<leftarrow>
            (if rb_parent yn = z then Some (y, root, h)
             else do {
               let x_parent = rb_parent yn;
               (root, h) \<leftarrow> rb_transplant root y x h;
               zn \<leftarrow> load z h;
               h \<leftarrow> set_right y (sn_right zn) h;
               yn \<leftarrow> load y h;
               h \<leftarrow> if sn_right yn \<noteq> 0 then rb_set_parent (sn_right yn) y h else Some h;
               Some (x_parent, root, h) });
          (root, h) \<leftarrow> rb_transplant root z y h;
          zn \<leftarrow> load z h;
          h \<leftarrow> set_left y (sn_left zn) h;
          yn \<leftarrow> load y h;
          h \<leftarrow> if sn_left yn \<noteq> 0 then rb_set_parent (sn_left yn) y h else Some h;
          zn \<leftarrow> load z h;
          h \<leftarrow> rb_set_color y (rb_color zn) h;
          Some (y_original_color, x, x_parent, root, h) });
     if y_original_color = RB_BLACK then rb_remove_fixup root x x_parent h else Some (root, h)
   }"

text \<open>The search of \<open>rbtree_pick_eevdf\<close>: \<open>best\<close> is 0 while nothing eligible has been seen, and
  \<open>UINT64_MAX\<close> then stands for its deadline.\<close>

definition deadline_of :: "nodes \<Rightarrow> usize \<Rightarrow> nat option" where
  "deadline_of h best = (if best \<noteq> 0 then do { n \<leftarrow> load best h; Some (sn_deadline n) } else Some (2 ^ 64 - 1))"

definition better_child :: "nodes \<Rightarrow> usize \<Rightarrow> usize \<Rightarrow> bool option" where
  "better_child h child best =
     (if child \<noteq> 0 then do { n \<leftarrow> load child h; d \<leftarrow> deadline_of h best; Some (sn_min_deadline n < d) } else Some False)"

partial_function (option) pick_from :: "nodes \<Rightarrow> nat \<Rightarrow> usize \<Rightarrow> usize \<Rightarrow> usize option" where
  "pick_from h system_vruntime best current =
     (if current = 0 then Some best
      else do {
        cn \<leftarrow> load current h;
        if sn_vruntime cn \<le> system_vruntime then do {
          improve \<leftarrow> if best = 0 then Some True else do { bn \<leftarrow> load best h; Some (sn_deadline cn < sn_deadline bn) };
          let best = (if improve then current else best);
          go_left \<leftarrow> better_child h (sn_left cn) best;
          if go_left then pick_from h system_vruntime best (sn_left cn)
          else do {
            go_right \<leftarrow> better_child h (sn_right cn) best;
            if go_right then pick_from h system_vruntime best (sn_right cn) else Some best
          }
        } else pick_from h system_vruntime best (sn_left cn)
      })"

definition rbtree_pick_eevdf :: "nodes \<Rightarrow> usize \<Rightarrow> nat \<Rightarrow> usize option" where
  "rbtree_pick_eevdf h root system_vruntime = do {
     best \<leftarrow> pick_from h system_vruntime 0 root;
     if best \<noteq> 0 then Some best else rbtree_leftmost h root
   }"

end
