(* ===== verification/Rbtree_Shape.thy ===== *)
theory Rbtree_Shape
  imports Rbtree
begin

text \<open>
  The shape of the tree in the store: the trees and positions that the pointers represent, the effect
  of the rotations and of recoloring on them, and the red-black invariant.
\<close>

section \<open>Fields\<close>

definition par :: "nodes \<Rightarrow> usize \<Rightarrow> usize" where "par h p = rb_parent (the (h p))"
definition col :: "nodes \<Rightarrow> usize \<Rightarrow> nat" where "col h p = rb_color (the (h p))"
definition lf :: "nodes \<Rightarrow> usize \<Rightarrow> usize" where "lf h p = sn_left (the (h p))"
definition rt :: "nodes \<Rightarrow> usize \<Rightarrow> usize" where "rt h p = sn_right (the (h p))"
definition vr :: "nodes \<Rightarrow> usize \<Rightarrow> nat" where "vr h p = sn_vruntime (the (h p))"

abbreviation upd_par :: "usize \<Rightarrow> usize \<Rightarrow> nodes \<Rightarrow> nodes" where
  "upd_par p q \<equiv> upd p (with_parent q)"
abbreviation upd_col :: "usize \<Rightarrow> nat \<Rightarrow> nodes \<Rightarrow> nodes" where
  "upd_col p c \<equiv> upd p (with_color c)"
abbreviation upd_lf :: "usize \<Rightarrow> usize \<Rightarrow> nodes \<Rightarrow> nodes" where
  "upd_lf p q \<equiv> upd p (\<lambda>n. n\<lparr>sn_left := q\<rparr>)"
abbreviation upd_rt :: "usize \<Rightarrow> usize \<Rightarrow> nodes \<Rightarrow> nodes" where
  "upd_rt p q \<equiv> upd p (\<lambda>n. n\<lparr>sn_right := q\<rparr>)"

lemma and_not_low: "and_not x 3 = x div 4 * 4" "and_not x 1 = x div 2 * 2" "x AND 1 = x mod 2" for x :: nat
proof -
  have "x AND 3 = x mod 4" using take_bit_eq_mask [of 2 x] by (simp add: mask_eq_exp_minus_1 take_bit_eq_mod)
  then show "and_not x 3 = x div 4 * 4" by (simp add: and_not_def minus_mod_eq_div_mult)
  show "x AND 1 = x mod 2" by (simp add: and_one_eq)
  then show "and_not x 1 = x div 2 * 2" by (simp add: and_not_def minus_mod_eq_div_mult)
qed

lemma or_low: "2 dvd a \<Longrightarrow> c \<le> 1 \<Longrightarrow> a OR c = a + c" "2 dvd a \<Longrightarrow> c \<le> 1 \<Longrightarrow> c OR a = a + c" for a c :: nat
proof -
  assume a: "2 dvd a" "c \<le> 1"
  have "\<not> bit a n \<or> \<not> bit c n" for n
    using a by (cases n) (auto simp: bit_0 bit_Suc le_Suc_eq)
  then show "a OR c = a + c" by (simp add: disjunctive_add)
  then show "c OR a = a + c" by (simp add: or.commute)
qed

lemma pack_arith:
  "(q div 4 * 4 + x mod 2) mod 2 = x mod 2" "(q div 4 * 4 + x mod 2) div 4 * 4 = q div 4 * 4"
  "c \<le> 1 \<Longrightarrow> (x div 2 * 2 + c) mod 2 = c" "c \<le> 1 \<Longrightarrow> (x div 2 * 2 + c) div 4 * 4 = x div 4 * 4" for q x c :: nat
  by presburger+

lemma pack_or: "x mod 2 OR q div 4 * 4 = q div 4 * 4 + x mod 2" "c \<le> 1 \<Longrightarrow> x div 2 * 2 OR c = x div 2 * 2 + c" for q x c :: nat
  by (rule or_low(2), presburger, presburger, rule or_low(1), simp_all)

lemma node_color [simp]:
  "4 dvd q \<Longrightarrow> rb_parent (with_parent q n) = q" "rb_color (with_parent q n) = rb_color n"
  "c < 2 \<Longrightarrow> rb_color (with_color c n) = c" "c < 2 \<Longrightarrow> rb_parent (with_color c n) = rb_parent n"
proof -
  have s: "parent_and_color (n\<lparr>parent_and_color := x\<rparr>) = x" for x by simp
  show "rb_color (with_parent q n) = rb_color n"
    by (simp only: rb_color_def with_parent_def s and_not_low pack_or pack_arith)
  show "4 dvd q \<Longrightarrow> rb_parent (with_parent q n) = q"
    unfolding rb_parent_def with_parent_def s and_not_low pack_or pack_arith by simp
  assume "c < 2"
  then have c: "c \<le> 1" by simp
  then show "rb_color (with_color c n) = c"
    by (simp only: rb_color_def with_color_def s and_not_low pack_or pack_arith)
  show "rb_parent (with_color c n) = rb_parent n"
    using c by (simp only: rb_parent_def with_color_def s and_not_low pack_or pack_arith)
qed

lemma node_rest [simp]:
  "sn_left (with_parent q n) = sn_left n" "sn_left (with_color c n) = sn_left n"
  "sn_right (with_parent q n) = sn_right n" "sn_right (with_color c n) = sn_right n"
  "sn_vruntime (with_parent q n) = sn_vruntime n" "sn_vruntime (with_color c n) = sn_vruntime n"
  by (simp_all add: with_parent_def with_color_def)

lemma rb_parent_dvd: "4 dvd rb_parent n"
  by (simp add: rb_parent_def and_not_low)

lemma node_other [simp]:
  "rb_parent (n\<lparr>sn_left := q\<rparr>) = rb_parent n" "rb_parent (n\<lparr>sn_right := q\<rparr>) = rb_parent n"
  "rb_color (n\<lparr>sn_left := q\<rparr>) = rb_color n" "rb_color (n\<lparr>sn_right := q\<rparr>) = rb_color n"
  by (simp_all add: rb_parent_def rb_color_def)

lemma dom_upd [simp]: "dom (upd p f h) = dom h"
  by (auto simp: upd_def split: if_splits)

lemma upd_upd [simp]: "upd p f h p' = (if p' = p then map_option f (h p) else h p')"
  by (simp add: upd_def)

lemma field_upd [simp]:
  "p \<in> dom h \<Longrightarrow> 4 dvd q \<Longrightarrow> par (upd_par p q h) p' = (if p' = p then q else par h p')"
  "p \<in> dom h \<Longrightarrow> c < 2 \<Longrightarrow> par (upd_col p c h) p' = par h p'"
  "p \<in> dom h \<Longrightarrow> par (upd_lf p q h) p' = par h p'"
  "p \<in> dom h \<Longrightarrow> par (upd_rt p q h) p' = par h p'"
  "p \<in> dom h \<Longrightarrow> col (upd_par p q h) p' = col h p'"
  "p \<in> dom h \<Longrightarrow> c < 2 \<Longrightarrow> col (upd_col p c h) p' = (if p' = p then c else col h p')"
  "p \<in> dom h \<Longrightarrow> col (upd_lf p q h) p' = col h p'"
  "p \<in> dom h \<Longrightarrow> col (upd_rt p q h) p' = col h p'"
  "p \<in> dom h \<Longrightarrow> lf (upd_par p q h) p' = lf h p'"
  "p \<in> dom h \<Longrightarrow> lf (upd_col p c h) p' = lf h p'"
  "p \<in> dom h \<Longrightarrow> lf (upd_lf p q h) p' = (if p' = p then q else lf h p')"
  "p \<in> dom h \<Longrightarrow> lf (upd_rt p q h) p' = lf h p'"
  "p \<in> dom h \<Longrightarrow> rt (upd_par p q h) p' = rt h p'"
  "p \<in> dom h \<Longrightarrow> rt (upd_col p c h) p' = rt h p'"
  "p \<in> dom h \<Longrightarrow> rt (upd_lf p q h) p' = rt h p'"
  "p \<in> dom h \<Longrightarrow> rt (upd_rt p q h) p' = (if p' = p then q else rt h p')"
  by (auto simp: par_def col_def lf_def rt_def)

text \<open>The stores of the code, once the pointer is known to be valid.\<close>

lemma store_eq [simp]:
  "p \<in> dom h \<Longrightarrow> rb_set_parent p q h = Some (upd_par p q h)"
  "p \<in> dom h \<Longrightarrow> rb_set_color p c h = Some (upd_col p c h)"
  "p \<in> dom h \<Longrightarrow> set_left p q h = Some (upd_lf p q h)"
  "p \<in> dom h \<Longrightarrow> set_right p q h = Some (upd_rt p q h)"
  by (auto simp: rb_set_parent_def rb_set_color_def set_left_def set_right_def store_def)

text \<open>A load through a valid pointer, and the fields of the node.\<close>

definition nd :: "nodes \<Rightarrow> usize \<Rightarrow> sched_node" where "nd h p = the (h p)"

lemma load_eq [simp]: "p \<in> dom h \<Longrightarrow> load p h = Some (nd h p)"
  by (auto simp: load_def nd_def)

lemma nd_simps [simp]:
  "sn_left (nd h p) = lf h p" "sn_right (nd h p) = rt h p" "rb_parent (nd h p) = par h p" "rb_color (nd h p) = col h p"
  "sn_vruntime (nd h p) = vr h p"
  by (simp_all add: nd_def lf_def rt_def par_def col_def vr_def)

text \<open>What the tree operations leave alone: the payload of the nodes.\<close>

definition payload :: "sched_node \<Rightarrow> nat \<times> nat \<times> nat \<times> nat" where
  "payload n = (sn_vruntime n, sn_task_id n, sn_deadline n, sn_min_deadline n)"

definition same_payload :: "nodes \<Rightarrow> nodes \<Rightarrow> bool" where
  "same_payload h h' \<longleftrightarrow> (\<forall>p. map_option payload (h p) = map_option payload (h' p))"

lemma same_payload_refl [simp]: "same_payload h h"
  by (simp add: same_payload_def)

lemma same_payload_trans: "same_payload h1 h2 \<Longrightarrow> same_payload h2 h3 \<Longrightarrow> same_payload h1 h3"
  by (simp add: same_payload_def)

lemma payload_upd: "(\<And>n. payload (f n) = payload n) \<Longrightarrow> map_option payload (upd p f h q) = map_option payload (h q)"
  by (cases "h p") auto

lemma same_payload_upd [simp]:
  "same_payload h (upd_par p q h') = same_payload h h'" "same_payload h (upd_col p c h') = same_payload h h'"
  "same_payload h (upd_lf p q h') = same_payload h h'" "same_payload h (upd_rt p q h') = same_payload h h'"
  unfolding same_payload_def
  by (subst payload_upd; simp add: payload_def with_parent_def with_color_def)+

lemma same_payload_dom: "same_payload h h' \<Longrightarrow> dom h' = dom h"
proof -
  assume s: "same_payload h h'"
  have "p \<in> dom h' \<longleftrightarrow> p \<in> dom h" for p
    using spec [OF s [unfolded same_payload_def], of p] by (cases "h p"; cases "h' p") auto
  then show ?thesis by blast
qed

lemma same_payload_vr: "same_payload h h' \<Longrightarrow> vr h' p = vr h p"
proof -
  assume s: "same_payload h h'"
  show ?thesis using spec [OF s [unfolded same_payload_def], of p]
    by (cases "h p"; cases "h' p") (auto simp: vr_def payload_def)
qed

section \<open>Trees\<close>

text \<open>A tree of node addresses with their colors, and the store it is held in: \<open>q\<close> is the parent.\<close>

datatype ptree = L | N ptree usize nat ptree

fun ad :: "ptree \<Rightarrow> usize" where
  "ad L = 0"
| "ad (N l a c r) = a"

fun addrs :: "ptree \<Rightarrow> usize list" where
  "addrs L = []"
| "addrs (N l a c r) = addrs l @ a # addrs r"

fun reps :: "nodes \<Rightarrow> usize \<Rightarrow> ptree \<Rightarrow> bool" where
  "reps h q L \<longleftrightarrow> True"
| "reps h q (N l a c r) \<longleftrightarrow> a \<in> dom h \<and> a \<noteq> 0 \<and> 4 dvd a \<and> c < 2 \<and> par h a = q \<and> col h a = c \<and>
     lf h a = ad l \<and> rt h a = ad r \<and> reps h a l \<and> reps h a r"

definition tree :: "nodes \<Rightarrow> ptree \<Rightarrow> bool" where
  "tree h t \<longleftrightarrow> reps h 0 t \<and> distinct (addrs t)"

text \<open>A position in a tree: the way up from a subtree, with the siblings.\<close>

datatype frm = LF usize nat ptree | RF ptree usize nat

fun plug :: "frm list \<Rightarrow> ptree \<Rightarrow> ptree" where
  "plug [] t = t"
| "plug (LF a c r # k) t = plug k (N t a c r)"
| "plug (RF l a c # k) t = plug k (N l a c t)"

fun kpar :: "frm list \<Rightarrow> usize" where
  "kpar [] = 0"
| "kpar (LF a c r # k) = a"
| "kpar (RF l a c # k) = a"

fun kaddrs :: "frm list \<Rightarrow> usize set" where
  "kaddrs [] = {}"
| "kaddrs (LF a c r # k) = insert a (set (addrs r) \<union> kaddrs k)"
| "kaddrs (RF l a c # k) = insert a (set (addrs l) \<union> kaddrs k)"

fun kdist :: "frm list \<Rightarrow> bool" where
  "kdist [] \<longleftrightarrow> True"
| "kdist (LF a c r # k) \<longleftrightarrow> a \<notin> set (addrs r) \<and> a \<notin> kaddrs k \<and> distinct (addrs r) \<and> set (addrs r) \<inter> kaddrs k = {} \<and> kdist k"
| "kdist (RF l a c # k) \<longleftrightarrow> a \<notin> set (addrs l) \<and> a \<notin> kaddrs k \<and> distinct (addrs l) \<and> set (addrs l) \<inter> kaddrs k = {} \<and> kdist k"

fun kreps :: "nodes \<Rightarrow> usize \<Rightarrow> frm list \<Rightarrow> bool" where
  "kreps h p [] \<longleftrightarrow> True"
| "kreps h p (LF a c r # k) \<longleftrightarrow> a \<in> dom h \<and> a \<noteq> 0 \<and> 4 dvd a \<and> c < 2 \<and> par h a = kpar k \<and> col h a = c \<and>
     lf h a = p \<and> rt h a = ad r \<and> reps h a r \<and> kreps h a k"
| "kreps h p (RF l a c # k) \<longleftrightarrow> a \<in> dom h \<and> a \<noteq> 0 \<and> 4 dvd a \<and> c < 2 \<and> par h a = kpar k \<and> col h a = c \<and>
     lf h a = ad l \<and> rt h a = p \<and> reps h a l \<and> kreps h a k"

lemma plug_induct [case_names Nil LF RF]:
  assumes "P []" "\<And>a c r k. P k \<Longrightarrow> P (LF a c r # k)" "\<And>l a c k. P k \<Longrightarrow> P (RF l a c # k)"
  shows "P k"
proof (induction k)
  case (Cons f k)
  with assms show ?case by (cases f) auto
qed (rule assms(1))

lemma reps_plug: "reps h 0 (plug k t) \<longleftrightarrow> reps h (kpar k) t \<and> kreps h (ad t) k"
proof -
  have "reps h 0 (plug k t) \<longleftrightarrow> reps h (kpar k) t \<and> kreps h (ad t) k" for t
    by (induction k arbitrary: t rule: plug_induct) auto
  then show ?thesis .
qed

lemma distinct_plug: "distinct (addrs (plug k t)) \<longleftrightarrow> distinct (addrs t) \<and> set (addrs t) \<inter> kaddrs k = {} \<and> kdist k"
proof -
  have "distinct (addrs (plug k t)) \<longleftrightarrow> distinct (addrs t) \<and> set (addrs t) \<inter> kaddrs k = {} \<and> kdist k" for t
    by (induction k arbitrary: t rule: plug_induct) auto
  then show ?thesis .
qed

lemma set_plug: "set (addrs (plug k t)) = set (addrs t) \<union> kaddrs k"
  by (induction k arbitrary: t rule: plug_induct) auto

lemma tree_plug: "tree h (plug k t) \<longleftrightarrow>
    reps h (kpar k) t \<and> kreps h (ad t) k \<and> distinct (addrs t) \<and> set (addrs t) \<inter> kaddrs k = {} \<and> kdist k"
  by (simp add: tree_def reps_plug distinct_plug)

text \<open>Stores outside a tree or a position do not matter to it.\<close>

lemma reps_upd [simp]: "p \<notin> set (addrs t) \<Longrightarrow> reps (upd p f h) q t = reps h q t"
  by (induction t arbitrary: q) (auto simp: par_def col_def lf_def rt_def)

lemma kreps_upd [simp]: "p \<notin> kaddrs k \<Longrightarrow> kreps (upd p f h) q k = kreps h q k"
  by (induction k arbitrary: q rule: plug_induct) (auto simp: par_def col_def lf_def rt_def)

text \<open>The root of a tree with a hole.\<close>

lemma ad_plug: "k \<noteq> [] \<Longrightarrow> ad (plug k t) = ad (plug k t')"
proof (induction k arbitrary: t t' rule: plug_induct)
  case (LF a c r k)
  then show ?case by (cases k) auto
next
  case (RF l a c k)
  then show ?case by (cases k) auto
qed simp

lemma ad_plug_same: "ad t = ad t' \<Longrightarrow> ad (plug k t) = ad (plug k t')"
  by (cases "k = []") (auto intro: ad_plug)


lemma ad_in: "t \<noteq> L \<Longrightarrow> ad t \<in> set (addrs t)"
  by (cases t) auto

lemma ad_ne: "a \<notin> set (addrs t) \<Longrightarrow> a \<noteq> 0 \<Longrightarrow> ad t \<noteq> a \<and> a \<noteq> ad t"
  by (cases t) auto

section \<open>Rotations\<close>

lemma rotate_left_ok:
  assumes "tree h (plug k (N A x c (N B y d C)))"
  shows "\<exists>h'. rb_rotate_left (ad (plug k (N A x c (N B y d C)))) x h = Some (ad (plug k (N (N A x c B) y d C)), h') \<and>
    tree h' (plug k (N (N A x c B) y d C)) \<and> same_payload h h'"
proof -
  let ?T = "plug k (N A x c (N B y d C))"
  note t = assms [unfolded tree_plug]
  show ?thesis
  proof (cases k rule: kpar.cases)
    case 1
    show ?thesis
    proof (cases B)
      case L
      with t 1 show ?thesis unfolding rb_rotate_left_def tree_plug by (auto simp: Let_def)
    next
      case (N bl b e br)
      with t 1 show ?thesis unfolding rb_rotate_left_def tree_plug by (auto simp: Let_def)
    qed
  next
    case (2 a e r k')
    have r: "ad ?T = ad (plug k (N (N A x c B) y d C))" using 2 by (intro ad_plug) simp
    show ?thesis
    proof (cases B)
      case L
      with t 2 show ?thesis unfolding r rb_rotate_left_def tree_plug by (auto simp: Let_def)
    next
      case (N bl b e br)
      with t 2 show ?thesis unfolding r rb_rotate_left_def tree_plug by (auto simp: Let_def)
    qed
  next
    case (3 l a e k')
    have r: "ad ?T = ad (plug k (N (N A x c B) y d C))" using 3 by (intro ad_plug) simp
    have ne: "x \<noteq> ad l" using t 3 ad_ne [of x l] by auto
    show ?thesis
    proof (cases B)
      case L
      with t 3 ne show ?thesis unfolding r rb_rotate_left_def tree_plug by (auto simp: Let_def)
    next
      case (N bl b e br)
      with t 3 ne show ?thesis unfolding r rb_rotate_left_def tree_plug by (auto simp: Let_def)
    qed
  qed
qed

lemma rotate_right_ok:
  assumes "tree h (plug k (N (N A x c B) y d C))"
  shows "\<exists>h'. rb_rotate_right (ad (plug k (N (N A x c B) y d C))) y h = Some (ad (plug k (N A x c (N B y d C))), h') \<and>
    tree h' (plug k (N A x c (N B y d C))) \<and> same_payload h h'"
proof -
  let ?T = "plug k (N (N A x c B) y d C)"
  note t = assms [unfolded tree_plug]
  show ?thesis
  proof (cases k rule: kpar.cases)
    case 1
    show ?thesis
    proof (cases B)
      case L
      with t 1 show ?thesis unfolding rb_rotate_right_def tree_plug by (auto simp: Let_def)
    next
      case (N bl b e br)
      with t 1 show ?thesis unfolding rb_rotate_right_def tree_plug by (auto simp: Let_def)
    qed
  next
    case (2 a e r k')
    have r: "ad ?T = ad (plug k (N A x c (N B y d C)))" using 2 by (intro ad_plug) simp
    show ?thesis
    proof (cases B)
      case L
      with t 2 show ?thesis unfolding r rb_rotate_right_def tree_plug by (auto simp: Let_def)
    next
      case (N bl b e br)
      with t 2 show ?thesis unfolding r rb_rotate_right_def tree_plug by (auto simp: Let_def)
    qed
  next
    case (3 l a e k')
    have r: "ad ?T = ad (plug k (N A x c (N B y d C)))" using 3 by (intro ad_plug) simp
    have ne: "y \<noteq> ad l" using t 3 ad_ne [of y l] by auto
    show ?thesis
    proof (cases B)
      case L
      with t 3 ne show ?thesis unfolding r rb_rotate_right_def tree_plug by (auto simp: Let_def)
    next
      case (N bl b e br)
      with t 3 ne show ?thesis unfolding r rb_rotate_right_def tree_plug by (auto simp: Let_def)
    qed
  qed
qed

lemma recolor_ok:
  assumes "tree h (plug k (N l a d r))" "c < 2"
  shows "rb_set_color a c h = Some (upd_col a c h) \<and> tree (upd_col a c h) (plug k (N l a c r)) \<and> same_payload h (upd_col a c h)"
  using assms unfolding tree_plug by auto

lemma tree_fields:
  assumes "tree h (plug k (N l a c r))"
  shows "a \<in> dom h" "a \<noteq> 0" "par h a = kpar k" "col h a = c" "lf h a = ad l" "rt h a = ad r" "c < 2" "4 dvd a"
  using assms unfolding tree_plug by auto

section \<open>Red-black trees\<close>

fun rcol :: "ptree \<Rightarrow> nat" where
  "rcol L = RB_BLACK"
| "rcol (N l a c r) = c"

fun bh :: "ptree \<Rightarrow> nat" where
  "bh L = 0"
| "bh (N l a c r) = bh l + (1 - c)"

fun bal :: "ptree \<Rightarrow> bool" where
  "bal L \<longleftrightarrow> True"
| "bal (N l a c r) \<longleftrightarrow> bal l \<and> bal r \<and> bh l = bh r"

fun nrr :: "ptree \<Rightarrow> bool" where
  "nrr L \<longleftrightarrow> True"
| "nrr (N l a c r) \<longleftrightarrow> nrr l \<and> nrr r \<and> (c \<noteq> RB_BLACK \<longrightarrow> rcol l = RB_BLACK \<and> rcol r = RB_BLACK)"

definition rbt :: "ptree \<Rightarrow> bool" where
  "rbt t \<longleftrightarrow> bal t \<and> nrr t \<and> rcol t = RB_BLACK"

text \<open>The same for a position: it expects a subtree of black height \<open>n\<close>.\<close>

fun kcol :: "frm list \<Rightarrow> nat" where
  "kcol [] = RB_BLACK"
| "kcol (LF a c r # k) = c"
| "kcol (RF l a c # k) = c"

fun kbal :: "frm list \<Rightarrow> nat \<Rightarrow> bool" where
  "kbal [] n \<longleftrightarrow> True"
| "kbal (LF a c r # k) n \<longleftrightarrow> bal r \<and> bh r = n \<and> kbal k (n + (1 - c))"
| "kbal (RF l a c # k) n \<longleftrightarrow> bal l \<and> bh l = n \<and> kbal k (n + (1 - c))"

text \<open>No red node with a red parent, and a black root.\<close>

fun knrr :: "frm list \<Rightarrow> bool" where
  "knrr [] \<longleftrightarrow> True"
| "knrr (LF a c r # k) \<longleftrightarrow> nrr r \<and> knrr k \<and> (c \<noteq> RB_BLACK \<longrightarrow> rcol r = RB_BLACK \<and> kcol k = RB_BLACK \<and> k \<noteq> [])"
| "knrr (RF l a c # k) \<longleftrightarrow> nrr l \<and> knrr k \<and> (c \<noteq> RB_BLACK \<longrightarrow> rcol l = RB_BLACK \<and> kcol k = RB_BLACK \<and> k \<noteq> [])"

lemma bal_plug: "bal (plug k t) \<longleftrightarrow> bal t \<and> kbal k (bh t)"
  by (induction k arbitrary: t rule: plug_induct) auto

text \<open>A tree is a red-black tree if the position is one and the subtree fits.\<close>

lemma rbt_plug: "rbt (plug k t) \<longleftrightarrow>
    knrr k \<and> bal t \<and> nrr t \<and> kbal k (bh t) \<and> (rcol t = RB_BLACK \<or> (k \<noteq> [] \<and> kcol k = RB_BLACK))"
  by (induction k arbitrary: t rule: plug_induct) (auto simp: rbt_def)

section \<open>Insertion\<close>

text \<open>The result of an operation: a red-black tree with the given nodes in the given order.\<close>

definition rb_result :: "nodes \<Rightarrow> usize list \<Rightarrow> (usize \<times> nodes) option \<Rightarrow> bool" where
  "rb_result h xs r \<longleftrightarrow> (\<exists>T h'. r = Some (ad T, h') \<and> tree h' T \<and> rbt T \<and> addrs T = xs \<and> same_payload h h')"

lemma rb_result_trans: "same_payload h h1 \<Longrightarrow> rb_result h1 xs r \<Longrightarrow> rb_result h xs r"
  unfolding rb_result_def by (blast intro: same_payload_trans)

lemma addrs_plug: "addrs (plug k t) = addrs (plug k t') \<longleftrightarrow> addrs t = addrs t'"
  by (induction k arbitrary: t t' rule: plug_induct) auto

lemma root_in: "k \<noteq> [] \<Longrightarrow> ad (plug k t) \<in> kaddrs k"
proof (induction k arbitrary: t rule: plug_induct)
  case (LF a c r k)
  then show ?case by (cases k) auto
next
  case (RF l a c k)
  then show ?case by (cases k) auto
qed simp

lemma tree_position:
  assumes "tree h (plug k t)" "k \<noteq> []"
  shows "kpar k \<in> dom h" "kpar k \<noteq> 0" "col h (kpar k) = kcol k" "kcol k < 2" "ad (plug k t) \<noteq> ad t"
    "ad (plug k t) \<in> dom h" "ad (plug k t) \<noteq> 0"
proof -
  note t = assms(1) [unfolded tree_plug]
  from t assms(2) show "kpar k \<in> dom h" "kpar k \<noteq> 0" "col h (kpar k) = kcol k" "kcol k < 2"
    by (cases k rule: kpar.cases; auto)+
  have "p \<in> dom h \<and> p \<noteq> 0" if "reps h q u" "p \<in> set (addrs u)" for p q u
    using that by (induction u arbitrary: q) auto
  moreover have "reps h 0 (plug k t)" using assms(1) by (simp add: tree_def)
  moreover have "ad (plug k t) \<in> set (addrs (plug k t))" using root_in [OF assms(2)] by (simp add: set_plug)
  ultimately show d: "ad (plug k t) \<in> dom h" "ad (plug k t) \<noteq> 0" by blast+
  show "ad (plug k t) \<noteq> ad t" using root_in [OF assms(2), of t] ad_in [of t] t d(2) by (cases t) auto
qed

lemma recolor_root:
  assumes "tree h T" "rbt T" "T \<noteq> L"
  shows "\<exists>h'. rb_set_color (ad T) 0 h = Some h' \<and> tree h' T \<and> same_payload h h'"
proof -
  from assms(2,3) obtain l a r where T: "T = N l a 0 r" by (cases T) (auto simp: rbt_def)
  from recolor_ok [of h "[]" l a 0 r 0] assms(1) show ?thesis unfolding T by simp
qed

lemma insert_fixup_done:
  assumes "tree h (plug k (N l a 1 r))" "kbal k (bh (N l a 1 r))" "bal (N l a 1 r)" "nrr (N l a 1 r)" "knrr k"
    and "kcol k = RB_BLACK"
  shows "rb_result h (addrs (plug k (N l a 1 r))) (rb_insert_fixup (ad (plug k (N l a 1 r))) a h)"
proof (cases "k = []")
  case True
  note f = tree_fields [OF assms(1)]
  have "rb_insert_fixup a a h = Some (a, upd_col a 0 h)" using f by (subst rb_insert_fixup.simps) simp
  moreover have "rbt (N l a 0 r)" using assms(3,4) by (auto simp: rbt_def)
  ultimately show ?thesis using True recolor_ok [OF assms(1), of 0] unfolding rb_result_def
    by (intro exI [of _ "N l a 0 r"]) auto
next
  case False
  let ?T = "plug k (N l a 1 r)"
  have rb: "rbt ?T" unfolding rbt_plug using assms False by auto
  note p = tree_position [OF assms(1) False] and g = tree_fields [OF assms(1)]
  have "?T \<noteq> L" using p(7) by auto
  from recolor_root [OF assms(1) rb this] obtain h' where
    h': "rb_set_color (ad ?T) 0 h = Some h'" "tree h' ?T" "same_payload h h'" by blast
  have "rb_insert_fixup (ad ?T) a h = Some (ad ?T, h')"
    using p(1,3,5) g(1,3) assms(6) h'(1) by (subst rb_insert_fixup.simps) (simp del: store_eq)
  then show ?thesis using h' rb unfolding rb_result_def by blast
qed

text \<open>The loop: the red node \<open>a\<close> may have a red parent; everything else is in order.\<close>

definition ins_pre :: "nodes \<Rightarrow> frm list \<Rightarrow> ptree \<Rightarrow> bool" where
  "ins_pre h k t \<longleftrightarrow> tree h (plug k t) \<and> kbal k (bh t) \<and> bal t \<and> nrr t \<and> knrr k \<and> rcol t = 1"

end
