(* ===== verification/Rbtree_Insert.thy ===== *)
theory Rbtree_Insert
  imports Rbtree_Shape
begin

text \<open>
  Insertion into the tree of runnable threads: the repair loop \<open>rb_insert_fixup\<close> restores the red-black
  invariant and keeps the in-order sequence, and \<open>rbtree_insert\<close> puts a node behind all nodes whose
  virtual runtime is not greater.
\<close>

lemma same_payload_sym: "same_payload h h' \<longleftrightarrow> same_payload h' h"
  by (auto simp: same_payload_def)

lemma same_payload_upd_left [simp]:
  "same_payload (upd_par p q h) h' = same_payload h h'" "same_payload (upd_col p c h) h' = same_payload h h'"
  "same_payload (upd_lf p q h) h' = same_payload h h'" "same_payload (upd_rt p q h) h' = same_payload h h'"
  by (simp_all add: same_payload_sym [of _ h'])

lemma insert_loop_step:
  assumes "tree h (plug (f # g # k) (N l a 1 r))" "kcol (f # g # k) = RB_RED"
  shows "rb_insert_fixup (ad (plug (f # g # k) (N l a 1 r))) a h =
    (do { (root, node, h) \<leftarrow>
       (case g of
          LF _ _ _ \<Rightarrow> insert_fixup_left (ad (plug (f # g # k) (N l a 1 r))) a (kpar (f # g # k)) (kpar (g # k)) h
        | RF _ _ _ \<Rightarrow> insert_fixup_right (ad (plug (f # g # k) (N l a 1 r))) a (kpar (f # g # k)) (kpar (g # k)) h);
      rb_insert_fixup root node h })"
proof -
  note p = tree_position [OF assms(1)] and n = tree_fields [OF assms(1)]
  have "par h (kpar (f # g # k)) = kpar (g # k) \<and> kpar (g # k) \<in> dom h \<and>
     (case g of LF _ _ _ \<Rightarrow> lf h (kpar (g # k)) = kpar (f # g # k) | RF _ _ _ \<Rightarrow> lf h (kpar (g # k)) \<noteq> kpar (f # g # k))"
  proof (cases g)
    case (LF b d s)
    then show ?thesis using assms(1) unfolding tree_plug by (cases f) auto
  next
    case (RF s b d)
    have "ad s \<noteq> kpar (f # g # k)"
      using assms(1) ad_ne [of "kpar (f # g # k)" s] unfolding tree_plug RF by (cases f) auto
    with RF show ?thesis using assms(1) unfolding tree_plug by (cases f) auto
  qed
  with p(1,3,5) n(1,3) assms(2) show ?thesis
    by (subst rb_insert_fixup.simps) (auto split: frm.splits)
qed

text \<open>Uncle red: the violation moves two levels up.\<close>

lemma fixup_left_red:
  assumes "tree h (plug (f # LF b 0 (N ul u 1 ur) # k) t)" "kcol [f] = 1"
  shows "\<exists>h'. insert_fixup_left root a (kpar [f]) b h = Some (root, b, h') \<and> same_payload h h' \<and>
    tree h' (plug k (N (case f of LF p c s \<Rightarrow> N t p 0 s | RF s p c \<Rightarrow> N s p 0 t) b 1 (N ul u 0 ur)))"
  using assms unfolding insert_fixup_left_def tree_plug by (cases f) (auto simp: Let_def)

lemma fixup_right_red:
  assumes "tree h (plug (f # RF (N ul u 1 ur) b 0 # k) t)" "kcol [f] = 1"
  shows "\<exists>h'. insert_fixup_right root a (kpar [f]) b h = Some (root, b, h') \<and> same_payload h h' \<and>
    tree h' (plug k (N (N ul u 0 ur) b 1 (case f of LF p c s \<Rightarrow> N t p 0 s | RF s p c \<Rightarrow> N s p 0 t)))"
  using assms unfolding insert_fixup_right_def tree_plug by (cases f) (auto simp: Let_def)

text \<open>Uncle black: recolor and rotate.\<close>

lemma uncle_black: "reps h q u \<Longrightarrow> rcol u = 0 \<Longrightarrow> ad u = 0 \<or> ad u \<noteq> 0 \<and> ad u \<in> dom h \<and> col h (ad u) = 0"
  by (cases u) auto

lemma recolor_rotate_right:
  assumes "tree h (plug k (N (N A x 1 B) b 0 C))"
  shows "\<exists>h'. (do { h \<leftarrow> rb_set_color x RB_BLACK h; h \<leftarrow> rb_set_color b RB_RED h;
       (root, h) \<leftarrow> rb_rotate_right (ad (plug k (N (N A x 1 B) b 0 C))) b h; Some (root, node, h) }) =
     Some (ad (plug k (N A x 0 (N B b 1 C))), node, h') \<and>
     tree h' (plug k (N A x 0 (N B b 1 C))) \<and> same_payload h h'"
proof -
  have t: "tree h (plug (LF b 0 C # k) (N A x 1 B))" using assms by simp
  from recolor_ok [OF t, of 0] have t1: "rb_set_color x 0 h = Some (upd_col x 0 h)"
    "tree (upd_col x 0 h) (plug k (N (N A x 0 B) b 0 C))" by auto
  from recolor_ok [OF t1(2), of 1] have t2: "rb_set_color b 1 (upd_col x 0 h) = Some (upd_col b 1 (upd_col x 0 h))"
    "tree (upd_col b 1 (upd_col x 0 h)) (plug k (N (N A x 0 B) b 1 C))" by auto
  have "ad (plug k (N (N A x 1 B) b 0 C)) = ad (plug k (N (N A x 0 B) b 1 C))" by (rule ad_plug_same) simp
  with rotate_right_ok [OF t2(2)] t1(1) t2(1) show ?thesis by (auto simp del: store_eq)
qed

lemma recolor_rotate_left:
  assumes "tree h (plug k (N C b 0 (N A x 1 B)))"
  shows "\<exists>h'. (do { h \<leftarrow> rb_set_color x RB_BLACK h; h \<leftarrow> rb_set_color b RB_RED h;
       (root, h) \<leftarrow> rb_rotate_left (ad (plug k (N C b 0 (N A x 1 B)))) b h; Some (root, node, h) }) =
     Some (ad (plug k (N (N C b 1 A) x 0 B)), node, h') \<and>
     tree h' (plug k (N (N C b 1 A) x 0 B)) \<and> same_payload h h'"
proof -
  have t: "tree h (plug (RF C b 0 # k) (N A x 1 B))" using assms by simp
  from recolor_ok [OF t, of 0] have t1: "rb_set_color x 0 h = Some (upd_col x 0 h)"
    "tree (upd_col x 0 h) (plug k (N C b 0 (N A x 0 B)))" by auto
  from recolor_ok [OF t1(2), of 1] have t2: "rb_set_color b 1 (upd_col x 0 h) = Some (upd_col b 1 (upd_col x 0 h))"
    "tree (upd_col b 1 (upd_col x 0 h)) (plug k (N C b 1 (N A x 0 B)))" by auto
  have "ad (plug k (N C b 0 (N A x 1 B))) = ad (plug k (N C b 1 (N A x 0 B)))" by (rule ad_plug_same) simp
  with rotate_left_ok [OF t2(2)] t1(1) t2(1) show ?thesis by (auto simp del: store_eq)
qed

lemma fixup_left_black:
  assumes "tree h (plug (f # LF b 0 u # k) (N l a 1 r))" "rcol u = 0" "kcol [f] = 1"
  shows "\<exists>h'. insert_fixup_left (ad (plug (f # LF b 0 u # k) (N l a 1 r))) a (kpar [f]) b h =
      Some (ad (plug k (case f of LF p c s \<Rightarrow> N (N l a 1 r) p 0 (N s b 1 u) | RF s p c \<Rightarrow> N (N s p 1 l) a 0 (N r b 1 u))),
        (case f of LF p c s \<Rightarrow> a | RF s p c \<Rightarrow> p), h') \<and>
    tree h' (plug k (case f of LF p c s \<Rightarrow> N (N l a 1 r) p 0 (N s b 1 u) | RF s p c \<Rightarrow> N (N s p 1 l) a 0 (N r b 1 u))) \<and>
    same_payload h h'"
proof (cases f)
  case (LF p c s)
  with assms have t: "tree h (plug k (N (N (N l a 1 r) p 1 s) b 0 u))" by simp
  have f: "reps h b u" "b \<in> dom h" "rt h b = ad u" "p \<in> dom h" "rt h p = ad s" "a \<noteq> ad s"
    using t ad_ne [of a s] unfolding tree_plug by auto
  from uncle_black [OF f(1) assms(2)] show ?thesis
  proof
    assume "ad u = 0"
    with recolor_rotate_right [OF t, of a] f(2-) LF assms(3) show ?thesis
      unfolding insert_fixup_left_def by (auto simp: Let_def simp del: store_eq)
  next
    assume "ad u \<noteq> 0 \<and> ad u \<in> dom h \<and> col h (ad u) = 0"
    with recolor_rotate_right [OF t, of a] f(2-) LF assms(3) show ?thesis
      unfolding insert_fixup_left_def by (auto simp: Let_def simp del: store_eq)
  qed
next
  case (RF s p c)
  with assms have t: "tree h (plug (LF b 0 u # k) (N s p 1 (N l a 1 r)))" by simp
  have f: "reps h b u" "b \<in> dom h" "rt h b = ad u" "p \<in> dom h" "rt h p = a"
    using t unfolding tree_plug by auto
  from rotate_left_ok [OF t] obtain h1 where
    h1: "rb_rotate_left (ad (plug k (N (N s p 1 (N l a 1 r)) b 0 u))) p h = Some (ad (plug k (N (N (N s p 1 l) a 1 r) b 0 u)), h1)"
      "tree h1 (plug k (N (N (N s p 1 l) a 1 r) b 0 u))" "same_payload h h1" by auto
  have g: "p \<in> dom h1" "par h1 p = a" using h1(2) unfolding tree_plug by auto
  from uncle_black [OF f(1) assms(2)] show ?thesis
  proof
    assume "ad u = 0"
    with recolor_rotate_right [OF h1(2), of p] f(2-) g h1(1,3) RF assms(3) show ?thesis
      unfolding insert_fixup_left_def by (auto simp: Let_def simp del: store_eq intro: same_payload_trans)
  next
    assume "ad u \<noteq> 0 \<and> ad u \<in> dom h \<and> col h (ad u) = 0"
    with recolor_rotate_right [OF h1(2), of p] f(2-) g h1(1,3) RF assms(3) show ?thesis
      unfolding insert_fixup_left_def by (auto simp: Let_def simp del: store_eq intro: same_payload_trans)
  qed
qed

lemma fixup_right_black:
  assumes "tree h (plug (f # RF u b 0 # k) (N l a 1 r))" "rcol u = 0" "kcol [f] = 1"
  shows "\<exists>h'. insert_fixup_right (ad (plug (f # RF u b 0 # k) (N l a 1 r))) a (kpar [f]) b h =
      Some (ad (plug k (case f of RF s p c \<Rightarrow> N (N u b 1 s) p 0 (N l a 1 r) | LF p c s \<Rightarrow> N (N u b 1 l) a 0 (N r p 1 s))),
        (case f of RF s p c \<Rightarrow> a | LF p c s \<Rightarrow> p), h') \<and>
    tree h' (plug k (case f of RF s p c \<Rightarrow> N (N u b 1 s) p 0 (N l a 1 r) | LF p c s \<Rightarrow> N (N u b 1 l) a 0 (N r p 1 s))) \<and>
    same_payload h h'"
proof (cases f)
  case (RF s p c)
  with assms have t: "tree h (plug k (N u b 0 (N s p 1 (N l a 1 r))))" by simp
  have f: "reps h b u" "b \<in> dom h" "lf h b = ad u" "p \<in> dom h" "lf h p = ad s" "a \<noteq> ad s"
    using t ad_ne [of a s] unfolding tree_plug by auto
  from uncle_black [OF f(1) assms(2)] show ?thesis
  proof
    assume "ad u = 0"
    with recolor_rotate_left [OF t, of a] f(2-) RF assms(3) show ?thesis
      unfolding insert_fixup_right_def by (auto simp: Let_def simp del: store_eq)
  next
    assume "ad u \<noteq> 0 \<and> ad u \<in> dom h \<and> col h (ad u) = 0"
    with recolor_rotate_left [OF t, of a] f(2-) RF assms(3) show ?thesis
      unfolding insert_fixup_right_def by (auto simp: Let_def simp del: store_eq)
  qed
next
  case (LF p c s)
  with assms have t: "tree h (plug (RF u b 0 # k) (N (N l a 1 r) p 1 s))" by simp
  have f: "reps h b u" "b \<in> dom h" "lf h b = ad u" "p \<in> dom h" "lf h p = a"
    using t unfolding tree_plug by auto
  from rotate_right_ok [OF t] obtain h1 where
    h1: "rb_rotate_right (ad (plug k (N u b 0 (N (N l a 1 r) p 1 s)))) p h = Some (ad (plug k (N u b 0 (N l a 1 (N r p 1 s)))), h1)"
      "tree h1 (plug k (N u b 0 (N l a 1 (N r p 1 s))))" "same_payload h h1" by auto
  have g: "p \<in> dom h1" "par h1 p = a" using h1(2) unfolding tree_plug by auto
  from uncle_black [OF f(1) assms(2)] show ?thesis
  proof
    assume "ad u = 0"
    with recolor_rotate_left [OF h1(2), of p] f(2-) g h1(1,3) LF assms(3) show ?thesis
      unfolding insert_fixup_right_def by (auto simp: Let_def simp del: store_eq intro: same_payload_trans)
  next
    assume "ad u \<noteq> 0 \<and> ad u \<in> dom h \<and> col h (ad u) = 0"
    with recolor_rotate_left [OF h1(2), of p] f(2-) g h1(1,3) LF assms(3) show ?thesis
      unfolding insert_fixup_right_def by (auto simp: Let_def simp del: store_eq intro: same_payload_trans)
  qed
qed

lemma reps_rcol: "reps h q t \<Longrightarrow> rcol t < 2"
  by (cases t) auto

text \<open>One iteration under a left grandparent edge, and the rest of the loop by induction.\<close>

lemma insert_fixup_LF:
  assumes pre: "ins_pre h (f # LF b 0 u # k) (N l a 1 r)" and c: "kcol [f] = 1"
    and IH: "\<And>h l a r. ins_pre h k (N l a 1 r) \<Longrightarrow>
      rb_result h (addrs (plug k (N l a 1 r))) (rb_insert_fixup (ad (plug k (N l a 1 r))) a h)"
  shows "rb_result h (addrs (plug (f # LF b 0 u # k) (N l a 1 r)))
    (rb_insert_fixup (ad (plug (f # LF b 0 u # k) (N l a 1 r))) a h)"
proof -
  let ?T = "plug (f # LF b 0 u # k) (N l a 1 r)"
  from pre have t: "tree h ?T" and kb: "kbal (f # LF b 0 u # k) (bh (N l a 1 r))" and bt: "bal (N l a 1 r)"
    and nt: "nrr (N l a 1 r)" and kn: "knrr (f # LF b 0 u # k)" unfolding ins_pre_def by auto
  have step: "rb_insert_fixup (ad ?T) a h = (do { (root, node, h) \<leftarrow> insert_fixup_left (ad ?T) a (kpar [f]) b h;
      rb_insert_fixup root node h })"
    using insert_loop_step [OF t] c by (cases f) simp_all
  have "rcol u < 2" using t unfolding tree_plug by (cases f) (auto intro: reps_rcol)
  then consider ul v ur where "u = N ul v 1 ur" | "rcol u = 0" by (cases u) (auto simp: less_2_cases_iff)
  then show ?thesis
  proof cases
    case 1
    let ?s = "case f of LF p c s \<Rightarrow> N (N l a 1 r) p 0 s | RF s p c \<Rightarrow> N s p 0 (N l a 1 r)"
    let ?t = "N ?s b 1 (N ul v 0 ur)"
    from fixup_left_red [OF t [unfolded 1] c] obtain h' where
      h': "insert_fixup_left (ad ?T) a (kpar [f]) b h = Some (ad ?T, b, h')" "same_payload h h'" "tree h' (plug k ?t)"
      unfolding 1 by blast
    have "ins_pre h' k ?t" using h'(3) kb bt nt kn c unfolding ins_pre_def 1 by (cases f) auto
    from IH [OF this] have "rb_result h (addrs (plug k ?t)) (rb_insert_fixup (ad (plug k ?t)) b h')"
      by (rule rb_result_trans [OF h'(2)])
    moreover have "addrs (plug k ?t) = addrs ?T" unfolding 1 by (cases f) (simp_all add: addrs_plug)
    moreover have "ad (plug k ?t) = ad ?T" unfolding 1 by (cases f) (auto intro: ad_plug_same)
    ultimately show ?thesis using step h'(1) by simp
  next
    case 2
    let ?t = "case f of LF p c s \<Rightarrow> N (N l a 1 r) p 0 (N s b 1 u) | RF s p c \<Rightarrow> N (N s p 1 l) a 0 (N r b 1 u)"
    from fixup_left_black [OF t 2 c] obtain h' where h': "insert_fixup_left (ad ?T) a (kpar [f]) b h =
        Some (ad (plug k ?t), (case f of LF p c s \<Rightarrow> a | RF s p c \<Rightarrow> p), h')"
      "tree h' (plug k ?t)" "same_payload h h'" by blast
    have "rb_result h' (addrs (plug k ?t)) (rb_insert_fixup (ad (plug k ?t)) (case f of LF p c s \<Rightarrow> a | RF s p c \<Rightarrow> p) h')"
    proof (cases f)
      case (LF p d s)
      have "rb_result h' (addrs (plug (LF p 0 (N s b 1 u) # k) (N l a 1 r))) (rb_insert_fixup (ad (plug (LF p 0 (N s b 1 u) # k) (N l a 1 r))) a h')"
        by (rule insert_fixup_done) (use h'(2) kb bt nt kn c 2 LF in simp_all)
      with LF show ?thesis by simp
    next
      case (RF s p d)
      have "rb_result h' (addrs (plug (LF a 0 (N r b 1 u) # k) (N s p 1 l))) (rb_insert_fixup (ad (plug (LF a 0 (N r b 1 u) # k) (N s p 1 l))) p h')"
        by (rule insert_fixup_done) (use h'(2) kb bt nt kn c 2 RF in simp_all)
      with RF show ?thesis by simp
    qed
    then have "rb_result h (addrs (plug k ?t)) (rb_insert_fixup (ad (plug k ?t)) (case f of LF p c s \<Rightarrow> a | RF s p c \<Rightarrow> p) h')"
      by (rule rb_result_trans [OF h'(3)])
    moreover have "addrs (plug k ?t) = addrs ?T" by (cases f) (simp_all add: addrs_plug)
    ultimately show ?thesis using step h'(1) by simp
  qed
qed

lemma insert_fixup_RF:
  assumes pre: "ins_pre h (f # RF u b 0 # k) (N l a 1 r)" and c: "kcol [f] = 1"
    and IH: "\<And>h l a r. ins_pre h k (N l a 1 r) \<Longrightarrow>
      rb_result h (addrs (plug k (N l a 1 r))) (rb_insert_fixup (ad (plug k (N l a 1 r))) a h)"
  shows "rb_result h (addrs (plug (f # RF u b 0 # k) (N l a 1 r)))
    (rb_insert_fixup (ad (plug (f # RF u b 0 # k) (N l a 1 r))) a h)"
proof -
  let ?T = "plug (f # RF u b 0 # k) (N l a 1 r)"
  from pre have t: "tree h ?T" and kb: "kbal (f # RF u b 0 # k) (bh (N l a 1 r))" and bt: "bal (N l a 1 r)"
    and nt: "nrr (N l a 1 r)" and kn: "knrr (f # RF u b 0 # k)" unfolding ins_pre_def by auto
  have step: "rb_insert_fixup (ad ?T) a h = (do { (root, node, h) \<leftarrow> insert_fixup_right (ad ?T) a (kpar [f]) b h;
      rb_insert_fixup root node h })"
    using insert_loop_step [OF t] c by (cases f) simp_all
  have "rcol u < 2" using t unfolding tree_plug by (cases f) (auto intro: reps_rcol)
  then consider ul v ur where "u = N ul v 1 ur" | "rcol u = 0" by (cases u) (auto simp: less_2_cases_iff)
  then show ?thesis
  proof cases
    case 1
    let ?s = "case f of LF p c s \<Rightarrow> N (N l a 1 r) p 0 s | RF s p c \<Rightarrow> N s p 0 (N l a 1 r)"
    let ?t = "N (N ul v 0 ur) b 1 ?s"
    from fixup_right_red [OF t [unfolded 1] c] obtain h' where
      h': "insert_fixup_right (ad ?T) a (kpar [f]) b h = Some (ad ?T, b, h')" "same_payload h h'" "tree h' (plug k ?t)"
      unfolding 1 by blast
    have "ins_pre h' k ?t" using h'(3) kb bt nt kn c unfolding ins_pre_def 1 by (cases f) auto
    from IH [OF this] have "rb_result h (addrs (plug k ?t)) (rb_insert_fixup (ad (plug k ?t)) b h')"
      by (rule rb_result_trans [OF h'(2)])
    moreover have "addrs (plug k ?t) = addrs ?T" unfolding 1 by (cases f) (simp_all add: addrs_plug)
    moreover have "ad (plug k ?t) = ad ?T" unfolding 1 by (cases f) (auto intro: ad_plug_same)
    ultimately show ?thesis using step h'(1) by simp
  next
    case 2
    let ?t = "case f of RF s p c \<Rightarrow> N (N u b 1 s) p 0 (N l a 1 r) | LF p c s \<Rightarrow> N (N u b 1 l) a 0 (N r p 1 s)"
    from fixup_right_black [OF t 2 c] obtain h' where h': "insert_fixup_right (ad ?T) a (kpar [f]) b h =
        Some (ad (plug k ?t), (case f of RF s p c \<Rightarrow> a | LF p c s \<Rightarrow> p), h')"
      "tree h' (plug k ?t)" "same_payload h h'" by blast
    have "rb_result h' (addrs (plug k ?t)) (rb_insert_fixup (ad (plug k ?t)) (case f of RF s p c \<Rightarrow> a | LF p c s \<Rightarrow> p) h')"
    proof (cases f)
      case (RF s p d)
      have "rb_result h' (addrs (plug (RF (N u b 1 s) p 0 # k) (N l a 1 r))) (rb_insert_fixup (ad (plug (RF (N u b 1 s) p 0 # k) (N l a 1 r))) a h')"
        by (rule insert_fixup_done) (use h'(2) kb bt nt kn c 2 RF in simp_all)
      with RF show ?thesis by simp
    next
      case (LF p d s)
      have "rb_result h' (addrs (plug (RF (N u b 1 l) a 0 # k) (N r p 1 s))) (rb_insert_fixup (ad (plug (RF (N u b 1 l) a 0 # k) (N r p 1 s))) p h')"
        by (rule insert_fixup_done) (use h'(2) kb bt nt kn c 2 LF in simp_all)
      with LF show ?thesis by simp
    qed
    then have "rb_result h (addrs (plug k ?t)) (rb_insert_fixup (ad (plug k ?t)) (case f of RF s p c \<Rightarrow> a | LF p c s \<Rightarrow> p) h')"
      by (rule rb_result_trans [OF h'(3)])
    moreover have "addrs (plug k ?t) = addrs ?T" by (cases f) (simp_all add: addrs_plug)
    ultimately show ?thesis using step h'(1) by simp
  qed
qed

lemma insert_fixup_ok:
  assumes "ins_pre h k (N l a 1 r)"
  shows "rb_result h (addrs (plug k (N l a 1 r))) (rb_insert_fixup (ad (plug k (N l a 1 r))) a h)"
  using assms
proof (induction "length k" arbitrary: h k l a r rule: less_induct)
  case less
  from less.prems have pre: "tree h (plug k (N l a 1 r))" "kbal k (bh (N l a 1 r))" "bal (N l a 1 r)" "nrr (N l a 1 r)" "knrr k"
    unfolding ins_pre_def by auto
  show ?case
  proof (cases "kcol k = RB_BLACK")
    case True
    then show ?thesis by (rule insert_fixup_done [OF pre])
  next
    case False
    then obtain f k1 where k: "k = f # k1" by (cases k) auto
    have c: "kcol [f] = 1" using tree_position(4) [OF pre(1)] False k by (cases f) auto
    have "k1 \<noteq> []" "kcol k1 = 0" using pre(5) False k by (cases f; auto)+
    then obtain g k2 where k1: "k1 = g # k2" by (cases k1) auto
    have IH: "\<And>h l a r. ins_pre h k2 (N l a 1 r) \<Longrightarrow>
      rb_result h (addrs (plug k2 (N l a 1 r))) (rb_insert_fixup (ad (plug k2 (N l a 1 r))) a h)"
      using less.hyps [of k2] by (simp add: k k1)
    show ?thesis
    proof (cases g)
      case (LF b d u)
      with insert_fixup_LF [OF _ c IH] less.prems \<open>kcol k1 = 0\<close> k k1 show ?thesis by simp
    next
      case (RF u b d)
      with insert_fixup_RF [OF _ c IH] less.prems \<open>kcol k1 = 0\<close> k k1 show ?thesis by simp
    qed
  qed
qed

text \<open>The way down from the root to the place of a new key.\<close>

fun key_path :: "nodes \<Rightarrow> nat \<Rightarrow> frm list \<Rightarrow> bool" where
  "key_path h v [] \<longleftrightarrow> True"
| "key_path h v (LF a c r # k) \<longleftrightarrow> v < vr h a \<and> key_path h v k"
| "key_path h v (RF l a c # k) \<longleftrightarrow> vr h a \<le> v \<and> key_path h v k"

fun kbefore :: "frm list \<Rightarrow> usize list" where
  "kbefore [] = []"
| "kbefore (LF a c r # k) = kbefore k"
| "kbefore (RF l a c # k) = kbefore k @ addrs l @ [a]"

fun kafter :: "frm list \<Rightarrow> usize list" where
  "kafter [] = []"
| "kafter (LF a c r # k) = a # addrs r @ kafter k"
| "kafter (RF l a c # k) = kafter k"

lemma addrs_split: "addrs (plug k t) = kbefore k @ addrs t @ kafter k"
  by (induction k arbitrary: t rule: plug_induct) auto

lemma plug_L: "plug k t = L \<longleftrightarrow> k = [] \<and> t = L"
  by (induction k arbitrary: t rule: plug_induct) auto

lemma insert_parent_ok:
  assumes "reps h (kpar k) t" "key_path h v k"
  shows "\<exists>k'. plug k' L = plug k t \<and> insert_parent h v (kpar k) (ad t) = Some (kpar k') \<and> key_path h v k' \<and> (t \<noteq> L \<longrightarrow> k' \<noteq> [])"
  using assms
proof (induction t arbitrary: k)
  case L
  then show ?case by (subst insert_parent.simps) auto
next
  case (N l a c r)
  then have a: "a \<in> dom h" "a \<noteq> 0" "lf h a = ad l" "rt h a = ad r" by auto
  show ?case
  proof (cases "v < vr h a")
    case True
    with N.IH(1) [of "LF a c r # k"] N.prems obtain k' where
      k': "plug k' L = plug (LF a c r # k) l" "insert_parent h v a (ad l) = Some (kpar k')" "key_path h v k'" "l \<noteq> L \<longrightarrow> k' \<noteq> []" by auto
    have "k' \<noteq> []" using k'(1) plug_L [of "LF a c r # k" l] by auto
    with k' a True show ?thesis by (subst insert_parent.simps) auto
  next
    case False
    with N.IH(2) [of "RF l a c # k"] N.prems obtain k' where
      k': "plug k' L = plug (RF l a c # k) r" "insert_parent h v a (ad r) = Some (kpar k')" "key_path h v k'" by auto
    have "k' \<noteq> []" using k'(1) plug_L [of "RF l a c # k" r] by auto
    with k' a False show ?thesis by (subst insert_parent.simps) auto
  qed
qed

lemma key_path_order:
  assumes "key_path h v k" "sorted (map (vr h) (addrs (plug k t)))"
  shows "(\<forall>x \<in> set (kbefore k). vr h x \<le> v) \<and> (\<forall>x \<in> set (kafter k). v < vr h x)"
  using assms
proof (induction k arbitrary: t rule: plug_induct)
  case (LF a c r k)
  then have "sorted (map (vr h) (a # addrs r))" by (simp add: addrs_split sorted_append)
  with LF show ?case by (force simp: less_le_trans)
next
  case (RF l a c k)
  then have "\<forall>x \<in> set (addrs l). vr h x \<le> vr h a" by (simp add: addrs_split sorted_append)
  with RF show ?case by (force intro: order_trans)
qed simp

lemma key_path_vr: "vr h = vr h' \<Longrightarrow> key_path h v k = key_path h' v k"
  by (induction k rule: plug_induct) auto

lemma rbtree_insert_ok:
  assumes t: "tree h T" "rbt T" and a: "a \<in> dom h" "a \<noteq> 0" "4 dvd a" "a \<notin> set (addrs T)"
    and srt: "sorted (map (vr h) (addrs T))"
  shows "\<exists>xs ys. addrs T = xs @ ys \<and> (\<forall>x \<in> set xs. vr h x \<le> vr h a) \<and> (\<forall>y \<in> set ys. vr h a < vr h y) \<and>
    rb_result h (xs @ a # ys) (rbtree_insert (ad T) a h)"
proof (cases "T = L")
  case True
  let ?h = "upd_col a 0 (upd_par a 0 (upd_rt a 0 (upd_lf a 0 h)))"
  have "rbtree_insert (ad T) a h = Some (a, ?h)" using True a by (simp add: rbtree_insert_def)
  moreover have "tree ?h (N L a 0 L)" using a by (simp add: tree_def)
  ultimately have "rb_result h [a] (rbtree_insert (ad T) a h)"
    unfolding rb_result_def by (intro exI [of _ "N L a 0 L"]) (simp add: rbt_def)
  with True show ?thesis by (intro exI [of _ "[]"]) simp
next
  case False
  let ?h0 = "upd_rt a 0 (upd_lf a 0 h)"
  have t0: "tree ?h0 T" using t(1) a by (simp add: tree_def)
  have v: "vr ?h0 = vr h" by (rule ext, rule same_payload_vr) simp
  from insert_parent_ok [of ?h0 "[]" T "vr h a"] t0 False obtain k where
    k: "plug k L = T" "insert_parent ?h0 (vr h a) 0 (ad T) = Some (kpar k)" "key_path h (vr h a) k" "k \<noteq> []"
    unfolding tree_def by (auto simp: key_path_vr [OF v])
  let ?h1 = "upd_col a 1 (upd_par a (kpar k) ?h0)"
  let ?h2 = "case hd k of LF p c s \<Rightarrow> upd_lf p a ?h1 | RF s p c \<Rightarrow> upd_rt p a ?h1"
  have T: "tree ?h0 (plug k L)" using t0 k(1) by simp
  note p = tree_position [OF T k(4)]
  have v1: "vr ?h1 = vr h" by (rule ext, rule same_payload_vr) simp
  have "ad T \<noteq> 0" using p(7) k(1) by simp
  have link: "(if vr ?h1 a < vr ?h1 (kpar k) then set_left (kpar k) a ?h1 else set_right (kpar k) a ?h1) = Some ?h2"
    using k(3,4) p(1) unfolding v1 by (cases k rule: kpar.cases) auto
  have "rbtree_insert (ad T) a h = do { h \<leftarrow> if vr ?h1 a < vr ?h1 (kpar k) then set_left (kpar k) a ?h1 else set_right (kpar k) a ?h1;
      rb_insert_fixup (ad T) a h }"
    using a(1) k(2) p(1) \<open>ad T \<noteq> 0\<close> by (simp add: rbtree_insert_def v)
  then have ins: "rbtree_insert (ad T) a h = rb_insert_fixup (ad T) a ?h2" unfolding link by (simp only: bind.bind_lunit)
  have "tree ?h2 (plug k (N L a 1 L))"
    using T a k(1,4) unfolding tree_plug by (cases k rule: kpar.cases) (auto simp: set_plug)
  moreover have "rbt (plug k L)" using t(2) k(1) by simp
  ultimately have "ins_pre ?h2 k (N L a 1 L)" unfolding ins_pre_def rbt_plug by simp
  then have "rb_result ?h2 (addrs (plug k (N L a 1 L))) (rb_insert_fixup (ad (plug k (N L a 1 L))) a ?h2)"
    by (rule insert_fixup_ok)
  moreover have "ad (plug k (N L a 1 L)) = ad T" using k(1) ad_plug [OF k(4)] by metis
  moreover have "same_payload h ?h2" by (cases "hd k") simp_all
  ultimately have "rb_result h (kbefore k @ a # kafter k) (rbtree_insert (ad T) a h)"
    unfolding ins using rb_result_trans by (simp add: addrs_split)
  moreover have "addrs T = kbefore k @ kafter k" using addrs_split [of k L] k(1) by simp
  ultimately show ?thesis using key_path_order [OF k(3), of L] srt k(1) by blast
qed

end
