(* ===== verification/Rbtree_Remove.thy ===== *)
theory Rbtree_Remove
  imports Rbtree_Insert
begin

text \<open>
  The loop of \<open>rb_remove_fixup\<close> (\<^verbatim>\<open>src/rbtree.c\<close>) repairs a tree in which one subtree is a black node short.
\<close>

section \<open>Repair after a removal\<close>

text \<open>The subtree \<open>t\<close> is one black node short.\<close>

definition del_pre :: "nodes \<Rightarrow> frm list \<Rightarrow> ptree \<Rightarrow> bool" where
  "del_pre h k t \<longleftrightarrow> tree h (plug k t) \<and> bal t \<and> nrr t \<and> knrr k \<and> kbal k (bh t + 1)"

lemma color_safe: "tree h (plug k t) \<Longrightarrow> rb_color_safe h (ad t) = Some (rcol t)"
  unfolding tree_plug by (cases t) (auto simp: rb_color_safe_def)

text \<open>The four cases, for a left child.\<close>

lemma rm_left_red:
  assumes "tree h (plug (LF p 0 (N wl w 1 wr) # k) t)"
  shows "\<exists>h'. remove_fixup_left (ad (plug (LF p 0 (N wl w 1 wr) # k) t)) x p h =
      Some (ad (plug k (N (N t p 1 wl) w 0 wr)), x, p, h') \<and>
    tree h' (plug k (N (N t p 1 wl) w 0 wr)) \<and> same_payload h h'"
proof -
  have t: "tree h (plug k (N t p 0 (N wl w 1 wr)))" using assms by simp
  have p: "p \<in> dom h" "rt h p = w" using tree_fields [OF t] by auto
  have cs: "rb_color_safe h w = Some 1" using color_safe [of h "RF t p 0 # k" "N wl w 1 wr"] t by simp
  from recolor_ok [OF t, of 1] have t1: "rb_set_color p 1 h = Some (upd_col p 1 h)"
    "tree (upd_col p 1 h) (plug (RF t p 1 # k) (N wl w 1 wr))" by auto
  from recolor_ok [OF t1(2), of 0] have t2: "rb_set_color w 0 (upd_col p 1 h) = Some (upd_col w 0 (upd_col p 1 h))"
    "tree (upd_col w 0 (upd_col p 1 h)) (plug k (N t p 1 (N wl w 0 wr)))" by auto
  have r: "ad (plug k (N t p 0 (N wl w 1 wr))) = ad (plug k (N t p 1 (N wl w 0 wr)))" by (rule ad_plug_same) simp
  from rotate_left_ok [OF t2(2)] p cs t1(1) t2(1) r show ?thesis
    unfolding remove_fixup_left_def by (auto simp: Let_def simp del: store_eq)
qed

lemma rm_left_up:
  assumes "tree h (plug (LF p c (N wl w 0 wr) # k) t)" "rcol wl = 0" "rcol wr = 0"
  shows "\<exists>h'. remove_fixup_left root x p h = Some (root, p, kpar k, h') \<and>
    tree h' (plug k (N t p c (N wl w 1 wr))) \<and> same_payload h h'"
proof -
  have t: "tree h (plug k (N t p c (N wl w 0 wr)))" using assms(1) by simp
  then have t1: "tree h (plug (RF t p c # k) (N wl w 0 wr))" by simp
  then have t2: "tree h (plug (LF w 0 wr # RF t p c # k) wl)" "tree h (plug (RF wl w 0 # RF t p c # k) wr)" by simp_all
  note f = tree_fields [OF t] tree_fields [OF t1]
  from recolor_ok [OF t1, of 1] have t3: "rb_set_color w 1 h = Some (upd_col w 1 h)"
    "tree (upd_col w 1 h) (plug k (N t p c (N wl w 1 wr)))" "same_payload h (upd_col w 1 h)" by auto
  note g = tree_fields [OF t3(2)]
  from f g t3 color_safe [OF t1] color_safe [OF t2(1)] color_safe [OF t2(2)] assms(2,3) show ?thesis
    unfolding remove_fixup_left_def by (auto simp: Let_def simp del: store_eq)
qed

lemma rm_left_inner:
  assumes "tree h (plug (LF p c (N (N a b 1 d) w 0 wr) # k) t)" "rcol wr = 0"
  shows "\<exists>h'. remove_fixup_left (ad (plug (LF p c (N (N a b 1 d) w 0 wr) # k) t)) x p h =
      Some (ad (plug k (N t p c (N a b 0 (N d w 1 wr)))), x, p, h') \<and>
    tree h' (plug k (N t p c (N a b 0 (N d w 1 wr)))) \<and> same_payload h h'"
proof -
  let ?k = "RF t p c # k"
  have t: "tree h (plug k (N t p c (N (N a b 1 d) w 0 wr)))" using assms(1) by simp
  then have t1: "tree h (plug ?k (N (N a b 1 d) w 0 wr))" by simp
  then have t2: "tree h (plug (LF w 0 wr # ?k) (N a b 1 d))" "tree h (plug (RF (N a b 1 d) w 0 # ?k) wr)" by simp_all
  note f = tree_fields [OF t] tree_fields [OF t1]
  from recolor_ok [OF t2(1), of 0] have t3: "rb_set_color b 0 h = Some (upd_col b 0 h)"
    "tree (upd_col b 0 h) (plug ?k (N (N a b 0 d) w 0 wr))" by auto
  from recolor_ok [OF t3(2), of 1] have t4: "rb_set_color w 1 (upd_col b 0 h) = Some (upd_col w 1 (upd_col b 0 h))"
    "tree (upd_col w 1 (upd_col b 0 h)) (plug ?k (N (N a b 0 d) w 1 wr))" by auto
  have r: "ad (plug k (N t p c (N (N a b 1 d) w 0 wr))) = ad (plug k (N t p c (N (N a b 0 d) w 1 wr)))" by (rule ad_plug_same) simp
  from rotate_right_ok [OF t4(2)] f t3(1) t4(1) r color_safe [OF t1] color_safe [OF t2(1)] color_safe [OF t2(2)] assms(2)
  show ?thesis unfolding remove_fixup_left_def by (auto simp: Let_def simp del: store_eq)
qed

lemma rm_left_outer:
  assumes "tree h (plug (LF p c (N wl w 0 (N a b 1 d)) # k) t)"
  shows "\<exists>h'. remove_fixup_left (ad (plug (LF p c (N wl w 0 (N a b 1 d)) # k) t)) x p h =
      Some (ad (plug k (N (N t p 0 wl) w c (N a b 0 d))), ad (plug k (N (N t p 0 wl) w c (N a b 0 d))), p, h') \<and>
    tree h' (plug k (N (N t p 0 wl) w c (N a b 0 d))) \<and> same_payload h h'"
proof -
  let ?k = "RF t p c # k"
  have t: "tree h (plug k (N t p c (N wl w 0 (N a b 1 d))))" using assms(1) by simp
  then have t1: "tree h (plug ?k (N wl w 0 (N a b 1 d)))" by simp
  then have t2: "tree h (plug (LF w 0 (N a b 1 d) # ?k) wl)" "tree h (plug (RF wl w 0 # ?k) (N a b 1 d))" by simp_all
  note f = tree_fields [OF t] tree_fields [OF t1]
  from recolor_ok [OF t1 f(7)] have t3: "rb_set_color w c h = Some (upd_col w c h)"
    "tree (upd_col w c h) (plug k (N t p c (N wl w c (N a b 1 d))))" by auto
  from recolor_ok [OF t3(2), of 0] have t4: "rb_set_color p 0 (upd_col w c h) = Some (upd_col p 0 (upd_col w c h))"
    "tree (upd_col p 0 (upd_col w c h)) (plug (RF wl w c # RF t p 0 # k) (N a b 1 d))" by auto
  from recolor_ok [OF t4(2), of 0] have t5: "rb_set_color b 0 (upd_col p 0 (upd_col w c h)) = Some (upd_col b 0 (upd_col p 0 (upd_col w c h)))"
    "tree (upd_col b 0 (upd_col p 0 (upd_col w c h))) (plug k (N t p 0 (N wl w c (N a b 0 d))))" by auto
  have "tree (upd_col p 0 (upd_col w c h)) (plug (RF t p 0 # k) (N wl w c (N a b 1 d)))" using t4(2) by simp
  note g = tree_fields [OF this]
  have r: "ad (plug k (N t p c (N wl w 0 (N a b 1 d)))) = ad (plug k (N t p 0 (N wl w c (N a b 0 d))))" by (rule ad_plug_same) simp
  from rotate_left_ok [OF t5(2)] f g t3(1) t4(1) t5(1) r color_safe [OF t1] color_safe [OF t2(1)] color_safe [OF t2(2)]
  show ?thesis unfolding remove_fixup_left_def by (auto simp: Let_def simp del: store_eq)
qed

text \<open>The same for a right child.\<close>

lemma rm_right_red:
  assumes "tree h (plug (RF (N wl w 1 wr) p 0 # k) t)"
  shows "\<exists>h'. remove_fixup_right (ad (plug (RF (N wl w 1 wr) p 0 # k) t)) x p h =
      Some (ad (plug k (N wl w 0 (N wr p 1 t))), x, p, h') \<and>
    tree h' (plug k (N wl w 0 (N wr p 1 t))) \<and> same_payload h h'"
proof -
  have t: "tree h (plug k (N (N wl w 1 wr) p 0 t))" using assms by simp
  have p: "p \<in> dom h" "lf h p = w" using tree_fields [OF t] by auto
  have cs: "rb_color_safe h w = Some 1" using color_safe [of h "LF p 0 t # k" "N wl w 1 wr"] t by simp
  from recolor_ok [OF t, of 1] have t1: "rb_set_color p 1 h = Some (upd_col p 1 h)"
    "tree (upd_col p 1 h) (plug (LF p 1 t # k) (N wl w 1 wr))" by auto
  from recolor_ok [OF t1(2), of 0] have t2: "rb_set_color w 0 (upd_col p 1 h) = Some (upd_col w 0 (upd_col p 1 h))"
    "tree (upd_col w 0 (upd_col p 1 h)) (plug k (N (N wl w 0 wr) p 1 t))" by auto
  have r: "ad (plug k (N (N wl w 1 wr) p 0 t)) = ad (plug k (N (N wl w 0 wr) p 1 t))" by (rule ad_plug_same) simp
  from rotate_right_ok [OF t2(2)] p cs t1(1) t2(1) r show ?thesis
    unfolding remove_fixup_right_def by (auto simp: Let_def simp del: store_eq)
qed

lemma rm_right_up:
  assumes "tree h (plug (RF (N wl w 0 wr) p c # k) t)" "rcol wl = 0" "rcol wr = 0"
  shows "\<exists>h'. remove_fixup_right root x p h = Some (root, p, kpar k, h') \<and>
    tree h' (plug k (N (N wl w 1 wr) p c t)) \<and> same_payload h h'"
proof -
  have t: "tree h (plug k (N (N wl w 0 wr) p c t))" using assms(1) by simp
  then have t1: "tree h (plug (LF p c t # k) (N wl w 0 wr))" by simp
  then have t2: "tree h (plug (LF w 0 wr # LF p c t # k) wl)" "tree h (plug (RF wl w 0 # LF p c t # k) wr)" by simp_all
  note f = tree_fields [OF t] tree_fields [OF t1]
  from recolor_ok [OF t1, of 1] have t3: "rb_set_color w 1 h = Some (upd_col w 1 h)"
    "tree (upd_col w 1 h) (plug k (N (N wl w 1 wr) p c t))" "same_payload h (upd_col w 1 h)" by auto
  note g = tree_fields [OF t3(2)]
  from f g t3 color_safe [OF t1] color_safe [OF t2(1)] color_safe [OF t2(2)] assms(2,3) show ?thesis
    unfolding remove_fixup_right_def by (auto simp: Let_def simp del: store_eq)
qed

lemma rm_right_inner:
  assumes "tree h (plug (RF (N wl w 0 (N a b 1 d)) p c # k) t)" "rcol wl = 0"
  shows "\<exists>h'. remove_fixup_right (ad (plug (RF (N wl w 0 (N a b 1 d)) p c # k) t)) x p h =
      Some (ad (plug k (N (N (N wl w 1 a) b 0 d) p c t)), x, p, h') \<and>
    tree h' (plug k (N (N (N wl w 1 a) b 0 d) p c t)) \<and> same_payload h h'"
proof -
  let ?k = "LF p c t # k"
  have t: "tree h (plug k (N (N wl w 0 (N a b 1 d)) p c t))" using assms(1) by simp
  then have t1: "tree h (plug ?k (N wl w 0 (N a b 1 d)))" by simp
  then have t2: "tree h (plug (RF wl w 0 # ?k) (N a b 1 d))" "tree h (plug (LF w 0 (N a b 1 d) # ?k) wl)" by simp_all
  note f = tree_fields [OF t] tree_fields [OF t1]
  from recolor_ok [OF t2(1), of 0] have t3: "rb_set_color b 0 h = Some (upd_col b 0 h)"
    "tree (upd_col b 0 h) (plug ?k (N wl w 0 (N a b 0 d)))" by auto
  from recolor_ok [OF t3(2), of 1] have t4: "rb_set_color w 1 (upd_col b 0 h) = Some (upd_col w 1 (upd_col b 0 h))"
    "tree (upd_col w 1 (upd_col b 0 h)) (plug ?k (N wl w 1 (N a b 0 d)))" by auto
  have r: "ad (plug k (N (N wl w 0 (N a b 1 d)) p c t)) = ad (plug k (N (N wl w 1 (N a b 0 d)) p c t))" by (rule ad_plug_same) simp
  from rotate_left_ok [OF t4(2)] f t3(1) t4(1) r color_safe [OF t1] color_safe [OF t2(1)] color_safe [OF t2(2)] assms(2)
  show ?thesis unfolding remove_fixup_right_def by (auto simp: Let_def simp del: store_eq)
qed

lemma rm_right_outer:
  assumes "tree h (plug (RF (N (N a b 1 d) w 0 wr) p c # k) t)"
  shows "\<exists>h'. remove_fixup_right (ad (plug (RF (N (N a b 1 d) w 0 wr) p c # k) t)) x p h =
      Some (ad (plug k (N (N a b 0 d) w c (N wr p 0 t))), ad (plug k (N (N a b 0 d) w c (N wr p 0 t))), p, h') \<and>
    tree h' (plug k (N (N a b 0 d) w c (N wr p 0 t))) \<and> same_payload h h'"
proof -
  let ?k = "LF p c t # k"
  have t: "tree h (plug k (N (N (N a b 1 d) w 0 wr) p c t))" using assms(1) by simp
  then have t1: "tree h (plug ?k (N (N a b 1 d) w 0 wr))" by simp
  then have t2: "tree h (plug (RF (N a b 1 d) w 0 # ?k) wr)" "tree h (plug (LF w 0 wr # ?k) (N a b 1 d))" by simp_all
  note f = tree_fields [OF t] tree_fields [OF t1]
  from recolor_ok [OF t1 f(7)] have t3: "rb_set_color w c h = Some (upd_col w c h)"
    "tree (upd_col w c h) (plug k (N (N (N a b 1 d) w c wr) p c t))" by auto
  from recolor_ok [OF t3(2), of 0] have t4: "rb_set_color p 0 (upd_col w c h) = Some (upd_col p 0 (upd_col w c h))"
    "tree (upd_col p 0 (upd_col w c h)) (plug (LF w c wr # LF p 0 t # k) (N a b 1 d))" by auto
  from recolor_ok [OF t4(2), of 0] have t5: "rb_set_color b 0 (upd_col p 0 (upd_col w c h)) = Some (upd_col b 0 (upd_col p 0 (upd_col w c h)))"
    "tree (upd_col b 0 (upd_col p 0 (upd_col w c h))) (plug k (N (N (N a b 0 d) w c wr) p 0 t))" by auto
  have "tree (upd_col p 0 (upd_col w c h)) (plug (LF p 0 t # k) (N (N a b 1 d) w c wr))" using t4(2) by simp
  note g = tree_fields [OF this]
  have r: "ad (plug k (N (N (N a b 1 d) w 0 wr) p c t)) = ad (plug k (N (N (N a b 0 d) w c wr) p 0 t))" by (rule ad_plug_same) simp
  from rotate_right_ok [OF t5(2)] f g t3(1) t4(1) t5(1) r color_safe [OF t1] color_safe [OF t2(1)] color_safe [OF t2(2)]
  show ?thesis unfolding remove_fixup_right_def by (auto simp: Let_def simp del: store_eq)
qed

text \<open>The end of the loop: at the root, or at a red node.\<close>

lemma remove_fixup_root:
  assumes "tree h T" "rbt T"
  shows "rb_result h (addrs T) (rb_remove_fixup (ad T) (ad T) q h)"
proof (cases "T = L")
  case True
  with assms have "rb_remove_fixup (ad T) (ad T) q h = Some (ad L, h)" by (subst rb_remove_fixup.simps) simp
  with assms True show ?thesis unfolding rb_result_def by (metis same_payload_refl)
next
  case False
  from recolor_root [OF assms False] obtain h' where
    h': "rb_set_color (ad T) 0 h = Some h'" "tree h' T" "same_payload h h'" by blast
  have "ad T \<noteq> 0" using False assms(1) by (cases T) (auto simp: tree_def)
  then have "rb_remove_fixup (ad T) (ad T) q h = Some (ad T, h')"
    using h'(1) by (subst rb_remove_fixup.simps) (simp del: store_eq)
  with h' assms(2) show ?thesis unfolding rb_result_def by blast
qed

lemma remove_fixup_stop:
  assumes f: "tree h (plug k (N l a c r))" and c: "k = [] \<or> c = 1" and rb: "rbt (plug k (N l a 0 r))"
  shows "rb_result h (addrs (plug k (N l a c r))) (rb_remove_fixup (ad (plug k (N l a c r))) a q h)"
proof -
  note g = tree_fields [OF f]
  from recolor_ok [OF f, of 0] have u: "rb_set_color a 0 h = Some (upd_col a 0 h)"
    "tree (upd_col a 0 h) (plug k (N l a 0 r))" "same_payload h (upd_col a 0 h)" by auto
  have "rb_remove_fixup (ad (plug k (N l a c r))) a q h = Some (ad (plug k (N l a c r)), upd_col a 0 h)"
  proof (cases "k = []")
    case True
    with g(2) u(1) show ?thesis by (subst rb_remove_fixup.simps) (simp del: store_eq)
  next
    case False
    have "ad (plug k (N l a c r)) \<noteq> a" using tree_position(5) [OF f False] by simp
    moreover have "rb_color_safe h a = Some 1" using color_safe [OF f] c False by simp
    ultimately show ?thesis using g(2) u(1) by (subst rb_remove_fixup.simps) (simp del: store_eq)
  qed
  moreover have "ad (plug k (N l a c r)) = ad (plug k (N l a 0 r))" by (rule ad_plug_same) simp
  moreover have "addrs (plug k (N l a c r)) = addrs (plug k (N l a 0 r))" by (simp add: addrs_plug)
  ultimately show ?thesis using u(2,3) rb unfolding rb_result_def by metis
qed

lemma remove_fixup_done:
  assumes pre: "del_pre h k t" and c: "k = [] \<or> rcol t = 1"
  shows "rb_result h (addrs (plug k t)) (rb_remove_fixup (ad (plug k t)) (ad t) q h)"
proof (cases t)
  case L
  with assms remove_fixup_root [of h L q] show ?thesis by (simp add: rbt_def del_pre_def)
next
  case (N l a d r)
  with assms have "rbt (plug k (N l a 0 r))" unfolding rbt_plug del_pre_def by (cases "k = []") auto
  with remove_fixup_stop [of h k l a d r q] N assms show ?thesis unfolding del_pre_def by simp
qed

lemma remove_loop_step:
  assumes "tree h (plug (f # k) t)" "rcol t = 0" "case f of LF p c w \<Rightarrow> w \<noteq> L | RF w p c \<Rightarrow> w \<noteq> L"
  shows "rb_remove_fixup (ad (plug (f # k) t)) (ad t) (kpar (f # k)) h =
    (do { (root, x, x_parent, h) \<leftarrow>
       (case f of
          LF p _ _ \<Rightarrow> remove_fixup_left (ad (plug (f # k) t)) (ad t) p h
        | RF _ p _ \<Rightarrow> remove_fixup_right (ad (plug (f # k) t)) (ad t) p h);
      rb_remove_fixup root x x_parent h })"
proof -
  have n: "ad (plug (f # k) t) \<noteq> ad t" using tree_position(5) [OF assms(1)] by simp
  note cs = color_safe [OF assms(1)]
  show ?thesis
  proof (cases f)
    case (LF p c w)
    with assms(1) have "p \<in> dom h" "lf h p = ad t" unfolding tree_plug by auto
    with n cs assms(2) LF show ?thesis by (subst rb_remove_fixup.simps) auto
  next
    case (RF w p c)
    with assms(1) have p: "p \<in> dom h" "lf h p = ad w" unfolding tree_plug by auto
    have "ad t \<noteq> ad w" using assms(1,3) RF unfolding tree_plug by (cases w; cases t) auto
    with p n cs assms(2) RF show ?thesis by (subst rb_remove_fixup.simps) auto
  qed
qed


lemma rcol_cases:
  assumes "tree h (plug (LF p c (N wl w d wr) # k) t) \<or> tree h (plug (RF (N wl w d wr) p c # k) t)"
  shows "(rcol wl = 0 \<or> (\<exists>a b e. wl = N a b 1 e)) \<and> (rcol wr = 0 \<or> (\<exists>a b e. wr = N a b 1 e))"
  using assms unfolding tree_plug by (cases wl; cases wr) (auto simp: less_2_cases_iff)

text \<open>A black sibling: with a black node below it missing nothing, the sibling is recoloured and the
  deficit moves up; with a red child it is rotated away.\<close>

lemma remove_outer_left:
  assumes pre: "del_pre h (LF p c (N wl w 0 (N a b 1 d)) # k) t" and t0: "rcol t = 0"
  shows "rb_result h (addrs (plug (LF p c (N wl w 0 (N a b 1 d)) # k) t))
    (rb_remove_fixup (ad (plug (LF p c (N wl w 0 (N a b 1 d)) # k) t)) (ad t) p h)"
proof -
  let ?T = "plug (LF p c (N wl w 0 (N a b 1 d)) # k) t" and ?T' = "plug k (N (N t p 0 wl) w c (N a b 0 d))"
  from pre have t: "tree h ?T" unfolding del_pre_def by simp
  have rb: "rbt ?T'" using pre t0 unfolding rbt_plug del_pre_def by auto
  have ads: "addrs ?T = addrs ?T'" by (simp add: addrs_plug)
  from rm_left_outer [OF t, of "ad t"] obtain h' where
    h': "remove_fixup_left (ad ?T) (ad t) p h = Some (ad ?T', ad ?T', p, h')" "tree h' ?T'" "same_payload h h'" by blast
  have "rb_remove_fixup (ad ?T) (ad t) p h = rb_remove_fixup (ad ?T') (ad ?T') p h'"
    using remove_loop_step [OF t t0] h'(1) by simp
  then show ?thesis using rb_result_trans [OF h'(3) remove_fixup_root [OF h'(2) rb, of p]] ads by simp
qed

lemma remove_black_left:
  assumes pre: "del_pre h (LF p c (N wl w 0 wr) # k) t" and t0: "rcol t = 0"
    and up: "\<And>h t. c = 0 \<Longrightarrow> del_pre h k t \<Longrightarrow> rb_result h (addrs (plug k t)) (rb_remove_fixup (ad (plug k t)) (ad t) (kpar k) h)"
  shows "rb_result h (addrs (plug (LF p c (N wl w 0 wr) # k) t))
    (rb_remove_fixup (ad (plug (LF p c (N wl w 0 wr) # k) t)) (ad t) p h)"
proof -
  let ?T = "plug (LF p c (N wl w 0 wr) # k) t"
  from pre have t: "tree h ?T" unfolding del_pre_def by simp
  have cc: "c < 2" using tree_position [OF t] by simp
  note step = remove_loop_step [OF t t0]
  consider (o) a b d where "wr = N a b 1 d" | (i) a b d where "wl = N a b 1 d" "rcol wr = 0" | (b) "rcol wl = 0" "rcol wr = 0"
    using rcol_cases t by metis
  then show ?thesis
  proof cases
    case o
    with remove_outer_left pre t0 show ?thesis by simp
  next
    case i
    let ?T' = "plug (LF p c (N a b 0 (N d w 1 wr)) # k) t"
    from rm_left_inner [of h p c a b d w wr k t "ad t"] t i obtain h' where
      h': "remove_fixup_left (ad ?T) (ad t) p h = Some (ad ?T', ad t, p, h')" "tree h' ?T'" "same_payload h h'" by auto
    have "del_pre h' (LF p c (N a b 0 (N d w 1 wr)) # k) t" using h'(2) pre i unfolding del_pre_def by auto
    moreover have "addrs ?T = addrs ?T'" using i by (simp add: addrs_plug)
    ultimately show ?thesis using rb_result_trans [OF h'(3) remove_outer_left [OF _ t0]] step h'(1) by simp
  next
    case b
    let ?t = "N t p c (N wl w 1 wr)"
    from rm_left_up [OF t b, of "ad ?T" "ad t"] obtain h' where
      h': "remove_fixup_left (ad ?T) (ad t) p h = Some (ad ?T, p, kpar k, h')" "tree h' (plug k ?t)" "same_payload h h'" by blast
    have r: "ad ?T = ad (plug k ?t)" "addrs ?T = addrs (plug k ?t)" by (auto simp: addrs_plug intro: ad_plug_same)
    have "rb_result h' (addrs (plug k ?t)) (rb_remove_fixup (ad (plug k ?t)) p (kpar k) h')"
    proof (cases "c = 0")
      case True
      with up [of h' ?t] h'(2) pre t0 b show ?thesis unfolding del_pre_def by auto
    next
      case False
      then have c1: "c = 1" using cc by simp
      have "rbt (plug k (N t p 0 (N wl w 1 wr)))" using pre t0 b c1 unfolding rbt_plug del_pre_def by auto
      with remove_fixup_stop [OF h'(2)] c1 show ?thesis by simp
    qed
    with rb_result_trans [OF h'(3)] step h'(1) r show ?thesis by simp
  qed
qed

lemma remove_outer_right:
  assumes pre: "del_pre h (RF (N (N a b 1 d) w 0 wr) p c # k) t" and t0: "rcol t = 0"
  shows "rb_result h (addrs (plug (RF (N (N a b 1 d) w 0 wr) p c # k) t))
    (rb_remove_fixup (ad (plug (RF (N (N a b 1 d) w 0 wr) p c # k) t)) (ad t) p h)"
proof -
  let ?T = "plug (RF (N (N a b 1 d) w 0 wr) p c # k) t" and ?T' = "plug k (N (N a b 0 d) w c (N wr p 0 t))"
  from pre have t: "tree h ?T" unfolding del_pre_def by simp
  have rb: "rbt ?T'" using pre t0 unfolding rbt_plug del_pre_def by auto
  have ads: "addrs ?T = addrs ?T'" by (simp add: addrs_plug)
  from rm_right_outer [OF t, of "ad t"] obtain h' where
    h': "remove_fixup_right (ad ?T) (ad t) p h = Some (ad ?T', ad ?T', p, h')" "tree h' ?T'" "same_payload h h'" by blast
  have "rb_remove_fixup (ad ?T) (ad t) p h = rb_remove_fixup (ad ?T') (ad ?T') p h'"
    using remove_loop_step [OF t t0] h'(1) by simp
  then show ?thesis using rb_result_trans [OF h'(3) remove_fixup_root [OF h'(2) rb, of p]] ads by simp
qed

lemma remove_black_right:
  assumes pre: "del_pre h (RF (N wl w 0 wr) p c # k) t" and t0: "rcol t = 0"
    and up: "\<And>h t. c = 0 \<Longrightarrow> del_pre h k t \<Longrightarrow> rb_result h (addrs (plug k t)) (rb_remove_fixup (ad (plug k t)) (ad t) (kpar k) h)"
  shows "rb_result h (addrs (plug (RF (N wl w 0 wr) p c # k) t))
    (rb_remove_fixup (ad (plug (RF (N wl w 0 wr) p c # k) t)) (ad t) p h)"
proof -
  let ?T = "plug (RF (N wl w 0 wr) p c # k) t"
  from pre have t: "tree h ?T" unfolding del_pre_def by simp
  have cc: "c < 2" using tree_position [OF t] by simp
  note step = remove_loop_step [OF t t0]
  consider (o) a b d where "wl = N a b 1 d" | (i) a b d where "wr = N a b 1 d" "rcol wl = 0" | (b) "rcol wl = 0" "rcol wr = 0"
    using rcol_cases t by metis
  then show ?thesis
  proof cases
    case o
    with remove_outer_right pre t0 show ?thesis by simp
  next
    case i
    let ?T' = "plug (RF (N (N wl w 1 a) b 0 d) p c # k) t"
    from rm_right_inner [of h wl w a b d p c k t "ad t"] t i obtain h' where
      h': "remove_fixup_right (ad ?T) (ad t) p h = Some (ad ?T', ad t, p, h')" "tree h' ?T'" "same_payload h h'" by auto
    have "del_pre h' (RF (N (N wl w 1 a) b 0 d) p c # k) t" using h'(2) pre i unfolding del_pre_def by auto
    moreover have "addrs ?T = addrs ?T'" using i by (simp add: addrs_plug)
    ultimately show ?thesis using rb_result_trans [OF h'(3) remove_outer_right [OF _ t0]] step h'(1) by simp
  next
    case b
    let ?t = "N (N wl w 1 wr) p c t"
    from rm_right_up [OF t b, of "ad ?T" "ad t"] obtain h' where
      h': "remove_fixup_right (ad ?T) (ad t) p h = Some (ad ?T, p, kpar k, h')" "tree h' (plug k ?t)" "same_payload h h'" by blast
    have r: "ad ?T = ad (plug k ?t)" "addrs ?T = addrs (plug k ?t)" by (auto simp: addrs_plug intro: ad_plug_same)
    have "rb_result h' (addrs (plug k ?t)) (rb_remove_fixup (ad (plug k ?t)) p (kpar k) h')"
    proof (cases "c = 0")
      case True
      with up [of h' ?t] h'(2) pre t0 b show ?thesis unfolding del_pre_def by auto
    next
      case False
      then have c1: "c = 1" using cc by simp
      have "rbt (plug k (N (N wl w 1 wr) p 0 t))" using pre t0 b c1 unfolding rbt_plug del_pre_def by auto
      with remove_fixup_stop [OF h'(2)] c1 show ?thesis by simp
    qed
    with rb_result_trans [OF h'(3)] step h'(1) r show ?thesis by simp
  qed
qed

text \<open>A red sibling is rotated up first; the new sibling is black.\<close>

lemma remove_red_left:
  assumes pre: "del_pre h (LF p 0 (N wl w 1 wr) # k) t" and t0: "rcol t = 0"
  shows "rb_result h (addrs (plug (LF p 0 (N wl w 1 wr) # k) t))
    (rb_remove_fixup (ad (plug (LF p 0 (N wl w 1 wr) # k) t)) (ad t) p h)"
proof -
  let ?T = "plug (LF p 0 (N wl w 1 wr) # k) t" and ?k = "LF p 1 wl # LF w 0 wr # k"
  from pre have t: "tree h ?T" unfolding del_pre_def by simp
  from pre have "bh wl = bh t + 1" "rcol wl = 0" unfolding del_pre_def by auto
  then obtain a b d where wl: "wl = N a b 0 d" by (cases wl) auto
  from rm_left_red [OF t, of "ad t"] obtain h' where
    h': "remove_fixup_left (ad ?T) (ad t) p h = Some (ad (plug ?k t), ad t, p, h')" "tree h' (plug ?k t)" "same_payload h h'" by auto
  have "del_pre h' ?k t" using h'(2) pre unfolding del_pre_def by auto
  with remove_black_left [of h' p 1 a b d "LF w 0 wr # k" t] t0 wl
  have "rb_result h' (addrs (plug ?k t)) (rb_remove_fixup (ad (plug ?k t)) (ad t) p h')" by simp
  moreover have "addrs ?T = addrs (plug ?k t)" by (simp add: addrs_plug)
  ultimately show ?thesis using rb_result_trans [OF h'(3)] remove_loop_step [OF t t0] h'(1) by simp
qed

lemma remove_red_right:
  assumes pre: "del_pre h (RF (N wl w 1 wr) p 0 # k) t" and t0: "rcol t = 0"
  shows "rb_result h (addrs (plug (RF (N wl w 1 wr) p 0 # k) t))
    (rb_remove_fixup (ad (plug (RF (N wl w 1 wr) p 0 # k) t)) (ad t) p h)"
proof -
  let ?T = "plug (RF (N wl w 1 wr) p 0 # k) t" and ?k = "RF wr p 1 # RF wl w 0 # k"
  from pre have t: "tree h ?T" unfolding del_pre_def by simp
  from pre have "bh wr = bh t + 1" "rcol wr = 0" unfolding del_pre_def by auto
  then obtain a b d where wr: "wr = N a b 0 d" by (cases wr) auto
  from rm_right_red [OF t, of "ad t"] obtain h' where
    h': "remove_fixup_right (ad ?T) (ad t) p h = Some (ad (plug ?k t), ad t, p, h')" "tree h' (plug ?k t)" "same_payload h h'" by auto
  have "del_pre h' ?k t" using h'(2) pre unfolding del_pre_def by auto
  with remove_black_right [of h' a b d p 1 "RF wl w 0 # k" t] t0 wr
  have "rb_result h' (addrs (plug ?k t)) (rb_remove_fixup (ad (plug ?k t)) (ad t) p h')" by simp
  moreover have "addrs ?T = addrs (plug ?k t)" by (simp add: addrs_plug)
  ultimately show ?thesis using rb_result_trans [OF h'(3)] remove_loop_step [OF t t0] h'(1) by simp
qed

text \<open>The loop of \<open>rb_remove_fixup\<close> ends and repairs the tree.\<close>

lemma remove_fixup_ok:
  "del_pre h k t \<Longrightarrow> rb_result h (addrs (plug k t)) (rb_remove_fixup (ad (plug k t)) (ad t) (kpar k) h)"
proof (induction k arbitrary: h t)
  case Nil
  then show ?case by (rule remove_fixup_done) simp
next
  case (Cons f k)
  show ?case
  proof (cases "rcol t = 0")
    case False
    have "rcol t < 2" using Cons.prems unfolding del_pre_def tree_plug by (cases t) auto
    with False have "rcol t = 1" by simp
    then show ?thesis by (intro remove_fixup_done Cons.prems) simp
  next
    case True
    show ?thesis
    proof (cases f)
      case (LF p c w)
      from Cons.prems LF have "bh w = bh t + 1" "rcol w < 2" unfolding del_pre_def tree_plug by (auto, cases w, auto)
      then obtain a b e d where w: "w = N a b e d" "e = 0 \<or> e = 1" by (cases w) (auto simp: less_2_cases_iff)
      then consider "e = 0" | "e = 1" "c = 0" using Cons.prems LF unfolding del_pre_def by auto
      then show ?thesis
        using remove_red_left [of h p a b d k t] remove_black_left [of h p c a b d k t] Cons True LF w by cases simp_all
    next
      case (RF w p c)
      from Cons.prems RF have "bh w = bh t + 1" "rcol w < 2" unfolding del_pre_def tree_plug by (auto, cases w, auto)
      then obtain a b e d where w: "w = N a b e d" "e = 0 \<or> e = 1" by (cases w) (auto simp: less_2_cases_iff)
      then consider "e = 0" | "e = 1" "c = 0" using Cons.prems RF unfolding del_pre_def by auto
      then show ?thesis
        using remove_red_right [of h a b d p k t] remove_black_right [of h a b d p c k t] Cons True RF w by cases simp_all
    qed
  qed
qed

end
