(* ===== verification/Rbtree_Delete.thy ===== *)
theory Rbtree_Delete
  imports Rbtree_Remove
begin

text \<open>
  Removal and picking in the red-black tree of \<^verbatim>\<open>src/rbtree.c\<close>: \<open>rb_transplant\<close>, the successor taking the place of
  a node with two children, and the search of \<open>rbtree_pick_eevdf\<close>.
\<close>

section \<open>Replacing a subtree\<close>

text \<open>The stores of \<open>rb_transplant\<close>: the link from above, and the parent of the new subtree.\<close>

fun relink :: "frm list \<Rightarrow> usize \<Rightarrow> nodes \<Rightarrow> nodes" where
  "relink [] v h = h"
| "relink (LF p c s # k) v h = upd_lf p v h"
| "relink (RF s p c # k) v h = upd_rt p v h"

definition graft :: "frm list \<Rightarrow> usize \<Rightarrow> nodes \<Rightarrow> nodes" where
  "graft k v h = (if v = 0 then relink k v h else upd_par v (kpar k) (relink k v h))"

lemma transplant_eq:
  assumes "kreps h u k" "u \<notin> kaddrs k" "u \<in> dom h" "u \<noteq> 0" "par h u = kpar k" "v = 0 \<or> v \<in> dom h"
  shows "rb_transplant root u v h = Some (if k = [] then v else root, graft k v h)"
proof (cases k rule: kpar.cases)
  case 1
  with assms show ?thesis unfolding rb_transplant_def graft_def by (cases "v = 0") simp_all
next
  case (2 p c s k')
  with assms show ?thesis unfolding rb_transplant_def graft_def by (cases "v = 0") simp_all
next
  case (3 s p c k')
  have "u \<noteq> ad s" using assms 3 ad_ne [of u s] by auto
  with assms 3 show ?thesis unfolding rb_transplant_def graft_def by (cases "v = 0") simp_all
qed

lemma kpar_dvd: "kreps h u k \<Longrightarrow> 4 dvd kpar k"
  by (cases k rule: kpar.cases) auto

lemma kpar_dom: "kreps h u k \<Longrightarrow> k \<noteq> [] \<Longrightarrow> kpar k \<in> dom h"
  by (cases k rule: kpar.cases) auto

lemma kpar_in: "k \<noteq> [] \<Longrightarrow> kpar k \<in> kaddrs k"
  by (cases k rule: kpar.cases) auto

lemma graft_fields:
  assumes "kreps h u k" "v = 0 \<or> v \<in> dom h" "q \<notin> kaddrs k"
  shows "lf (graft k v h) q = lf h q" "rt (graft k v h) q = rt h q" "col (graft k v h) q = col h q"
    "par (graft k v h) q = (if q = v \<and> v \<noteq> 0 then kpar k else par h q)"
  using assms kpar_dvd [OF assms(1)] by (cases k rule: kpar.cases; auto simp: graft_def)+

lemma graft_dom [simp]: "dom (graft k v h) = dom h"
  by (cases k rule: kpar.cases) (simp_all add: graft_def)

lemma graft_payload [simp]: "same_payload h (graft k v h') = same_payload h h'"
  by (cases k rule: kpar.cases) (simp_all add: graft_def)

lemma graft_kreps:
  assumes "kreps h u k" "kdist k" "v \<notin> kaddrs k" "v = 0 \<or> v \<in> dom h"
  shows "kreps (graft k v h) v k"
  using assms by (cases "v = 0"; cases k rule: kpar.cases) (simp_all add: graft_def)

lemma graft_reps:
  assumes "reps h q t" "set (addrs t) \<inter> kaddrs k = {}" "v \<notin> set (addrs t)"
  shows "reps (graft k v h) q t"
  using assms by (cases k rule: kpar.cases) (auto simp: graft_def)

lemma graft_reps_new:
  assumes "kreps h u k" "reps h q t" "set (addrs t) \<inter> kaddrs k = {}" "distinct (addrs t)"
  shows "reps (graft k (ad t) h) (kpar k) t"
proof (cases t)
  case (N l a c r)
  with assms have "reps (relink k a h) q (N l a c r)" by (cases k rule: kpar.cases) auto
  with assms N kpar_dvd [OF assms(1)] show ?thesis by (auto simp: graft_def)
qed simp

lemma reps_nonzero: "reps h q t \<Longrightarrow> p \<in> set (addrs t) \<Longrightarrow> p \<noteq> 0 \<and> p \<in> dom h \<and> 4 dvd p"
  by (induction t arbitrary: q) auto

lemma kreps_nonzero: "kreps h u k \<Longrightarrow> p \<in> kaddrs k \<Longrightarrow> p \<noteq> 0"
  by (induction k arbitrary: u rule: plug_induct) (auto dest: reps_nonzero)

text \<open>A node with one child is replaced by the child.\<close>

lemma transplant_tree:
  assumes t: "tree h (plug k t)" and u: "t \<noteq> L" "u = ad t" and s: "reps h q s" "set (addrs s) \<inter> kaddrs k = {}" "distinct (addrs s)"
  shows "rb_transplant (ad (plug k t)) u (ad s) h = Some (ad (plug k s), graft k (ad s) h) \<and> tree (graft k (ad s) h) (plug k s)"
proof -
  note t' = t [unfolded tree_plug]
  from u t' have u': "u \<in> dom h" "u \<noteq> 0" "par h u = kpar k" "u \<notin> kaddrs k" by (cases t; auto)+
  have k0: "0 \<notin> kaddrs k" using t' kreps_nonzero by blast
  have v: "ad s = 0 \<or> ad s \<in> dom h" "ad s \<notin> kaddrs k" using s k0 by (cases s; auto)+
  have "(if k = [] then ad s else ad (plug k t)) = ad (plug k s)" by (auto intro: ad_plug)
  moreover have "tree (graft k (ad s) h) (plug k s)"
    unfolding tree_plug using graft_reps_new [of h u k q s] graft_kreps [of h u k "ad s"] t' s v u by auto
  ultimately show ?thesis using transplant_eq [of h u k "ad s"] u u' v t' by simp
qed


section \<open>Taking the place of a node\<close>

text \<open>The node \<open>y\<close>, with the right subtree \<open>R\<close>, takes the place of \<open>z\<close> and its left subtree \<open>l\<close>.\<close>

definition adopt :: "frm list \<Rightarrow> ptree \<Rightarrow> nat \<Rightarrow> usize \<Rightarrow> nodes \<Rightarrow> nodes" where
  "adopt k l c y h =
     (let h = upd_lf y (ad l) (graft k y h) in upd_col y c (if l = L then h else upd_par (ad l) y h))"

definition detached :: "nodes \<Rightarrow> frm list \<Rightarrow> usize \<Rightarrow> ptree \<Rightarrow> nat \<Rightarrow> usize \<Rightarrow> ptree \<Rightarrow> bool" where
  "detached h k z l c y R \<longleftrightarrow>
     kreps h z k \<and> kdist k \<and> z \<notin> kaddrs k \<and>
     z \<in> dom h \<and> z \<noteq> 0 \<and> par h z = kpar k \<and> lf h z = ad l \<and> col h z = c \<and> c < 2 \<and> reps h z l \<and>
     y \<in> dom h \<and> y \<noteq> 0 \<and> 4 dvd y \<and> y \<noteq> z \<and> rt h y = ad R \<and> reps h y R \<and>
     distinct (addrs (N l y c R)) \<and> set (addrs (N l y c R)) \<inter> kaddrs k = {} \<and> z \<notin> set (addrs l) \<and> z \<notin> set (addrs R)"

lemma adopt_steps:
  assumes "detached h k z l c y R"
  shows "rb_transplant root z y h = Some (if k = [] then y else root, graft k y h)"
    "lf (graft k y h) z = ad l" "col (graft k y h) z = c" "z \<in> dom h" "y \<in> dom h" "y \<noteq> z" "l = L \<or> ad l \<in> dom h" "c < 2"
  using assms transplant_eq [of h z k y] graft_fields [of h z k y z] unfolding detached_def
  by (simp_all, cases l, auto)

lemma adopt_tree:
  assumes "detached h k z l c y R"
  shows "tree (adopt k l c y h) (plug k (N l y c R))"
proof -
  note s = assms [unfolded detached_def]
  have k: "kreps h z k" "kdist k" and z: "c < 2" and l: "reps h z l" and y: "y \<in> dom h" "y \<noteq> 0" "4 dvd y" "rt h y = ad R" "reps h y R"
    and d: "distinct (addrs (N l y c R))" "set (addrs (N l y c R)) \<inter> kaddrs k = {}" using s by blast+
  note g = graft_fields [of h z k y, OF k(1)]
  have y': "y \<notin> kaddrs k" using d by auto
  have r: "reps (graft k y h) z l" "reps (graft k y h) y R" using l y d by (auto intro!: graft_reps)
  have f: "par (graft k y h) y = kpar k" "rt (graft k y h) y = ad R" using g [of y] y y' by auto
  have kr: "kreps (graft k y h) y k" using graft_kreps [of h z k y] k y y' by auto
  show ?thesis
  proof (cases l)
    case L
    with r f kr y y' z d k(2) show ?thesis unfolding tree_plug adopt_def by (simp add: Let_def)
  next
    case (N ll a e lr)
    with r f kr y y' z d k(2) show ?thesis unfolding tree_plug adopt_def by (auto simp: Let_def)
  qed
qed


lemma adopt_block:
  assumes "detached h k z l c y R"
  shows "do { (root, h) \<leftarrow> rb_transplant root z y h;
       zn \<leftarrow> load z h;
       h \<leftarrow> set_left y (sn_left zn) h;
       yn \<leftarrow> load y h;
       h \<leftarrow> if sn_left yn \<noteq> 0 then rb_set_parent (sn_left yn) y h else Some h;
       zn \<leftarrow> load z h;
       h \<leftarrow> rb_set_color y (rb_color zn) h;
       Some (yc, x, xp, root, h) } = Some (yc, x, xp, if k = [] then y else root, adopt k l c y h)"
proof -
  note a = adopt_steps [OF assms] and d = assms [unfolded detached_def]
  have l0: "ad l = 0 \<longleftrightarrow> l = L" using d by (cases l) auto
  show ?thesis
  proof (cases "l = L")
    case True
    with a show ?thesis by (simp add: adopt_def Let_def)
  next
    case False
    with a l0 show ?thesis by (simp add: adopt_def Let_def)
  qed
qed

section \<open>Removal\<close>

lemma plug_append: "plug (ks @ k) t = plug k (plug ks t)"
  by (induction ks arbitrary: t rule: plug_induct) auto

lemma kbefore_append: "kbefore (ks @ k) = kbefore k @ kbefore ks"
  by (induction ks rule: plug_induct) auto

lemma kafter_append: "kafter (ks @ k) = kafter ks @ kafter k"
  by (induction ks rule: plug_induct) auto

lemma leftmost_ok:
  assumes "reps h q t" "t \<noteq> L"
  shows "\<exists>ks y c r. t = plug ks (N L y c r) \<and> kbefore ks = [] \<and> rbtree_leftmost h (ad t) = Some y"
proof -
  have "\<exists>ks y c r. t = plug ks (N L y c r) \<and> kbefore ks = [] \<and> leftmost_from h (ad t) = Some y"
    using assms
  proof (induction t arbitrary: q)
    case (N l a c r)
    show ?case
    proof (cases "l = L")
      case True
      with N.prems have "leftmost_from h a = Some a" by (subst leftmost_from.simps) simp
      with True show ?thesis by (intro exI [of _ "[]"]) simp
    next
      case False
      with N obtain ks y d s where ks: "l = plug ks (N L y d s)" "kbefore ks = []" "leftmost_from h (ad l) = Some y" by fastforce
      have "ad l \<noteq> 0" using N.prems False by (cases l) auto
      with N.prems ks(3) have "leftmost_from h a = Some y" by (subst leftmost_from.simps) simp
      moreover have "N l a c r = plug (ks @ [LF a c r]) (N L y d s)" "kbefore (ks @ [LF a c r]) = []"
        using ks by (simp_all add: plug_append kbefore_append)
      ultimately show ?thesis by (metis ad.simps(2))
    qed
  qed simp
  moreover have "ad t \<noteq> 0" using assms by (cases t) auto
  ultimately show ?thesis unfolding rbtree_leftmost_def by simp
qed

lemma remove_finish:
  assumes "tree h' (plug k x)" "same_payload h h'" "rbt (plug k t)"
    and "t = N L y c x \<or> t = N x y c L"
  shows "rb_result h (addrs (plug k x)) (if c = RB_BLACK then rb_remove_fixup (ad (plug k x)) (ad x) (kpar k) h' else Some (ad (plug k x), h'))"
proof (cases "c = RB_BLACK")
  case True
  have "del_pre h' k x" using assms True unfolding del_pre_def rbt_plug by auto
  from rb_result_trans [OF assms(2) remove_fixup_ok [OF this]] True show ?thesis by simp
next
  case False
  then have "rbt (plug k x)" using assms(3,4) unfolding rbt_plug by auto
  with assms False show ?thesis unfolding rb_result_def by auto
qed


text \<open>A node with at most one child.\<close>

lemma remove_single:
  assumes t: "tree h (plug k (N l z c r))" "rbt (plug k (N l z c r))" and x: "l = L \<and> x = r \<or> r = L \<and> l \<noteq> L \<and> x = l"
  shows "rb_result h (addrs (plug k x)) (rbtree_remove (ad (plug k (N l z c r))) z h)"
proof -
  let ?T = "plug k (N l z c r)" and ?h = "graft k (ad x) h"
  note f = tree_fields [OF t(1)]
  have s: "reps h z x" "set (addrs x) \<inter> kaddrs k = {}" "distinct (addrs x)" using t(1) x unfolding tree_plug by auto
  have g: "rb_transplant (ad ?T) z (ad x) h = Some (ad (plug k x), ?h)" "tree ?h (plug k x)"
    using transplant_tree [OF t(1) _ _ s, of z] by auto
  have l0: "l \<noteq> L \<Longrightarrow> ad l \<noteq> 0" using t(1) unfolding tree_plug by (cases l) auto
  have "rbtree_remove (ad ?T) z h =
      (if c = RB_BLACK then rb_remove_fixup (ad (plug k x)) (ad x) (kpar k) ?h else Some (ad (plug k x), ?h))"
    using f g(1) x l0 unfolding rbtree_remove_def by (auto simp: Let_def)
  moreover have "same_payload h ?h" by simp
  ultimately show ?thesis using remove_finish [OF g(2) _ t(2), of h z c] x by auto
qed

text \<open>A node with two children: its successor takes its place, from right below or from further down.\<close>

lemma k_relabel:
  "knrr (ks @ RF l z c # k) = knrr (ks @ RF l y c # k)" "kbal (ks @ RF l z c # k) = kbal (ks @ RF l y c # k)"
  "kcol (ks @ RF l z c # k) = kcol (ks @ RF l y c # k)"
proof -
  show "kcol (ks @ RF l z c # k) = kcol (ks @ RF l y c # k)" for ks
    by (induction ks rule: plug_induct) auto
  then show "knrr (ks @ RF l z c # k) = knrr (ks @ RF l y c # k)"
    by (induction ks rule: plug_induct) auto
  show "kbal (ks @ RF l z c # k) = kbal (ks @ RF l y c # k)"
    by (rule ext) (induction ks rule: plug_induct; auto)
qed

lemma rbt_relabel: "rbt (plug (ks @ RF l z c # k) t) = rbt (plug (ks @ RF l y c # k) t)"
  unfolding rbt_plug k_relabel [of ks l z c k y] by simp

lemma remove_next:
  assumes t: "tree h (plug k (N l z c (N L y d x)))"
  shows "detached h k z l c y x"
  using t unfolding tree_plug detached_def by auto

lemma reps_reparent:
  "reps h q t \<Longrightarrow> distinct (addrs t) \<Longrightarrow> 4 dvd q' \<Longrightarrow> reps (upd_par (ad t) q' h) q' t"
  by (cases t) auto

lemma detach_ok:
  assumes t: "tree h (plug k (N l z c R))" "R \<noteq> L" and y: "y \<in> dom h" "y \<noteq> 0" "4 dvd y" "y \<notin> set (addrs (plug k (N l z c R)))"
  shows "detached (upd_par (ad R) y (upd_rt y (ad R) h)) k z l c y R"
proof -
  note t' = t(1) [unfolded tree_plug]
  have r: "ad R \<in> dom h" "ad R \<in> set (addrs R)" using t' ad_in [OF t(2)] reps_nonzero [of h z R] by auto
  have n: "ad R \<noteq> z" "ad R \<noteq> y" "ad R \<notin> set (addrs l)" "ad R \<notin> kaddrs k" using t' y(4) r(2) by (auto simp: set_plug)
  have "reps (upd_par (ad R) y (upd_rt y (ad R) h)) y R"
    using t' y by (intro reps_reparent [of _ z]) (simp_all add: set_plug)
  moreover have "distinct (addrs (N l y c R))" "set (addrs (N l y c R)) \<inter> kaddrs k = {}" using t' y(4) by (auto simp: set_plug)
  ultimately show ?thesis using t' y r n unfolding detached_def by (simp add: set_plug)
qed

lemma remove_deeper:
  assumes t: "tree h (plug (ks @ RF l z c # k) (N L y d x))" and ks: "ks \<noteq> []"
  shows "let R = plug ks x; h1 = graft (ks @ RF l z c # k) (ad x) h in
    rb_transplant (ad (plug (ks @ RF l z c # k) (N L y d x))) y (ad x) h = Some (ad (plug (ks @ RF l z c # k) (N L y d x)), h1) \<and>
    rt h1 z = ad R \<and> ad R \<noteq> 0 \<and> ad R \<in> dom h \<and> detached (upd_par (ad R) y (upd_rt y (ad R) h1)) k z l c y R"
proof -
  let ?k = "ks @ RF l z c # k" let ?R = "plug ks x" and ?h1 = "graft ?k (ad x) h"
  have s: "reps h y x" "set (addrs x) \<inter> kaddrs ?k = {}" "distinct (addrs x)" using t unfolding tree_plug by auto
  have y: "y \<in> dom h" "y \<noteq> 0" "4 dvd y" "y \<notin> set (addrs x)" "y \<notin> kaddrs ?k" using t unfolding tree_plug by auto
  have g: "rb_transplant (ad (plug ?k (N L y d x))) y (ad x) h = Some (ad (plug ?k x), ?h1)" "tree ?h1 (plug ?k x)"
    using transplant_tree [OF t _ _ s, of y] by auto
  have r: "ad (plug ?k x) = ad (plug ?k (N L y d x))" by (rule ad_plug) simp
  have R: "tree ?h1 (plug k (N l z c ?R))" using g(2) by (simp add: plug_append)
  have yR: "y \<notin> set (addrs (plug k (N l z c ?R)))" using y(4,5) set_plug [of ?k x] by (simp add: plug_append)
  have "?R \<noteq> L" using ks plug_L by blast
  then have R0: "ad ?R \<noteq> 0" "ad ?R \<in> dom h" "ad ?R \<in> set (addrs ?R)" using R ad_in unfolding tree_plug by (cases ?R; auto)+
  have "detached (upd_par (ad ?R) y (upd_rt y (ad ?R) ?h1)) k z l c y ?R"
    using y yR \<open>?R \<noteq> L\<close> by (intro detach_ok [OF R]) simp_all
  then show ?thesis using g(1) r R0 tree_fields [OF R] by (simp add: Let_def)
qed


text \<open>Removal gives a red-black tree with the same nodes in the same order, without the one removed.\<close>

lemma remove_double:
  assumes t: "tree h T" "rbt T" "T = plug (ks @ RF l z c # k) (N L y d x)" and l: "l \<noteq> L"
    and y: "rbtree_leftmost h (ad (plug ks (N L y d x))) = Some y"
  shows "rb_result h (addrs (plug (ks @ RF l y c # k) x)) (rbtree_remove (ad T) z h)"
proof -
  let ?k = "ks @ RF l y c # k" and ?r = "plug ks (N L y d x)"
  have T: "tree h (plug k (N l z c ?r))" "ad T = ad (plug k (N l z c ?r))" using t by (simp_all add: plug_append)
  note f = tree_fields [OF T(1)] and g = tree_fields [OF t(1) [unfolded t(3)]]
  have l0: "ad l \<noteq> 0" "ad ?r \<noteq> 0"
    using T(1) l plug_L [of ks "N L y d x"] unfolding tree_plug by (cases l; cases ?r; auto)+
  define R where "R = plug ks x"
  have R: "plug ?k x = plug k (N l y c R)" by (simp add: plug_append R_def)
  have root: "(if k = [] then y else ad T) = ad (plug k (N l y c R))" unfolding T(2) by (auto intro: ad_plug)
  define h' where "h' = (if ks = [] then h else let h1 = graft (ks @ RF l z c # k) (ad x) h in upd_par (ad R) y (upd_rt y (ad R) h1))"
  have det: "detached h' k z l c y R"
    using remove_next [of h k l z c y d x] T(1) remove_deeper [of h ks l z c k y d x] t unfolding h'_def R_def by (auto simp: Let_def)
  have pay: "same_payload h (adopt k l c y h')" unfolding adopt_def h'_def by (auto simp: Let_def)
  have xp: "kpar ?k = (if ks = [] then y else kpar (ks @ RF l z c # k))" by (cases ks rule: kpar.cases) auto
  have "rbtree_remove (ad T) z h =
    (if d = RB_BLACK then rb_remove_fixup (ad (plug ?k x)) (ad x) (kpar ?k) (adopt k l c y h') else Some (ad (plug ?k x), adopt k l c y h'))"
  proof (cases "ks = []")
    case True
    with f g l0 y adopt_block [OF det, of "ad T" d "ad x" y] root show ?thesis
      unfolding rbtree_remove_def R xp h'_def by (simp add: Let_def)
  next
    case False
    have "kpar (ks @ RF l z c # k) = kpar ks" using False by (cases ks rule: kpar.cases) auto
    moreover have "z \<notin> kaddrs ks" using T(1) unfolding tree_plug by (auto simp: set_plug)
    ultimately have "kpar (ks @ RF l z c # k) \<noteq> z" using kpar_in [OF False] by auto
    with f g l0 y adopt_block [OF det, of "ad T" d "ad x" "kpar ?k"] root t False
      remove_deeper [of h ks l z c k y d x, folded R_def] show ?thesis
      unfolding rbtree_remove_def R xp h'_def by (simp add: Let_def)
  qed
  moreover have "tree (adopt k l c y h') (plug ?k x)" using adopt_tree [OF det] unfolding R .
  moreover have "rbt (plug ?k (N L y d x))" using t(2) unfolding t(3) rbt_relabel [of ks l z c k _ y] .
  ultimately show ?thesis using remove_finish [OF _ pay, of ?k x "N L y d x" y d] by simp
qed


lemma position_of: "z \<in> set (addrs T) \<Longrightarrow> \<exists>k l c r. T = plug k (N l z c r)"
proof (induction T)
  case (N l a c r)
  then consider "z = a" | "z \<in> set (addrs l)" | "z \<in> set (addrs r)" by auto
  then show ?case
  proof cases
    case 1
    then show ?thesis by (intro exI [of _ "[]"]) simp
  next
    case 2
    with N.IH(1) obtain k l' d r' where "l = plug k (N l' z d r')" by blast
    then have "N l a c r = plug (k @ [LF a c r]) (N l' z d r')" by (simp add: plug_append)
    then show ?thesis by blast
  next
    case 3
    with N.IH(2) obtain k l' d r' where "r = plug k (N l' z d r')" by blast
    then have "N l a c r = plug (k @ [RF l a c]) (N l' z d r')" by (simp add: plug_append)
    then show ?thesis by blast
  qed
qed simp

lemma rbtree_remove_ok:
  assumes t: "tree h T" "rbt T" and z: "z \<in> set (addrs T)"
  shows "\<exists>xs ys. addrs T = xs @ z # ys \<and> rb_result h (xs @ ys) (rbtree_remove (ad T) z h)"
proof -
  from position_of [OF z] obtain k l c r where T: "T = plug k (N l z c r)" by blast
  have "rb_result h ((kbefore k @ addrs l) @ addrs r @ kafter k) (rbtree_remove (ad T) z h)"
  proof (cases "l = L \<or> r = L")
    case True
    then show ?thesis using remove_single [of h k l z c r] t T by (cases "l = L") (auto simp: addrs_split)
  next
    case False
    have "reps h z r" using t(1) unfolding T tree_plug by simp
    from leftmost_ok [OF this] False obtain ks y d x where
      r: "r = plug ks (N L y d x)" "kbefore ks = []" "rbtree_leftmost h (ad r) = Some y" by blast
    have "rb_result h (addrs (plug (ks @ RF l y c # k) x)) (rbtree_remove (ad T) z h)"
      using remove_double [OF t, of ks l z c k y d x] False r T by (simp add: plug_append)
    then show ?thesis using r by (simp add: addrs_split kbefore_append kafter_append)
  qed
  moreover have "addrs T = (kbefore k @ addrs l) @ z # addrs r @ kafter k" by (simp add: T addrs_split)
  ultimately show ?thesis by blast
qed

section \<open>Picking the next thread\<close>

text \<open>The search reads the deadlines and returns a node of the tree whose vruntime is at most the
  system's, or the best so far.\<close>

lemma better_child_ok:
  "reps h q t \<Longrightarrow> best = 0 \<or> best \<in> dom h \<Longrightarrow> \<exists>b. better_child h (ad t) best = Some b \<and> (t = L \<longrightarrow> \<not> b)"
  by (cases t) (auto simp: better_child_def deadline_of_def load_def)

lemma pick_from_ok:
  assumes "reps h q t" "best = 0 \<or> best \<in> dom h" "sorted (map (vr h) (addrs t))"
  shows "\<exists>r. pick_from h V best (ad t) = Some r \<and> (r = best \<or> r \<in> set (addrs t) \<and> vr h r \<le> V) \<and>
    (r = 0 \<longrightarrow> best = 0 \<and> (\<forall>p \<in> set (addrs t). V < vr h p))"
  using assms
proof (induction t arbitrary: q best)
  case L
  then show ?case by (subst pick_from.simps) auto
next
  case (N l a c r)
  then have a: "a \<in> dom h" "a \<noteq> 0" "lf h a = ad l" "rt h a = ad r" "reps h a l" "reps h a r" by auto
  have s: "sorted (map (vr h) (addrs l))" "sorted (map (vr h) (addrs r))" "\<forall>p \<in> set (addrs r). vr h a \<le> vr h p"
    using N.prems(3) by (auto simp: sorted_append)
  show ?case
  proof (cases "vr h a \<le> V")
    case False
    have "pick_from h V best a = pick_from h V best (ad l)" using False a by (subst pick_from.simps) simp
    with N.IH(1) [OF a(5) N.prems(2) s(1)] False s(3) show ?thesis by fastforce
  next
    case True
    obtain b where b: "(if best = 0 then Some True else do { bn \<leftarrow> load best h; Some (sn_deadline (nd h a) < sn_deadline bn) }) = Some b"
      "best = 0 \<longrightarrow> b" using N.prems(2) by (cases "best = 0") auto
    define best' where "best' = (if b then a else best)"
    have best': "best' \<in> dom h" "best' \<noteq> 0" "best' = best \<or> best' = a" using N.prems(2) a b(2) by (auto simp: best'_def)
    obtain gl gr where g: "better_child h (ad l) best' = Some gl" "better_child h (ad r) best' = Some gr"
      using better_child_ok [OF a(5), of best'] better_child_ok [OF a(6), of best'] best' by blast
    have "pick_from h V best a = (if gl then pick_from h V best' (ad l) else if gr then pick_from h V best' (ad r) else Some best')"
      using a True b(1) g by (subst pick_from.simps) (simp add: best'_def Let_def)
    moreover obtain rl where rl: "pick_from h V best' (ad l) = Some rl" "rl = best' \<or> rl \<in> set (addrs l) \<and> vr h rl \<le> V" "rl \<noteq> 0"
      using N.IH(1) [OF a(5) _ s(1), of best'] best' by blast
    moreover obtain rr where rr: "pick_from h V best' (ad r) = Some rr" "rr = best' \<or> rr \<in> set (addrs r) \<and> vr h rr \<le> V" "rr \<noteq> 0"
      using N.IH(2) [OF a(6) _ s(2), of best'] best' by blast
    ultimately have p: "pick_from h V best (ad (N l a c r)) = Some (if gl then rl else if gr then rr else best')" by simp
    show ?thesis unfolding p using rl(2,3) rr(2,3) best' True by (intro exI [of _ "if gl then rl else if gr then rr else best'"]) auto
  qed
qed

lemma rbtree_pick_ok:
  assumes t: "tree h T" and s: "sorted (map (vr h) (addrs T))" and T: "T \<noteq> L"
  shows "\<exists>r \<in> set (addrs T). rbtree_pick_eevdf h (ad T) V = Some r \<and>
    (if \<exists>p \<in> set (addrs T). vr h p \<le> V then vr h r \<le> V else r = hd (addrs T))"
proof -
  have r: "reps h 0 T" using t by (simp add: tree_def)
  from pick_from_ok [OF r _ s, of 0 V] obtain p where
    p: "pick_from h V 0 (ad T) = Some p" "p = 0 \<or> p \<in> set (addrs T) \<and> vr h p \<le> V" "p = 0 \<longrightarrow> (\<forall>p \<in> set (addrs T). V < vr h p)" by auto
  from leftmost_ok [OF r T] obtain ks y c x where
    y: "T = plug ks (N L y c x)" "kbefore ks = []" "rbtree_leftmost h (ad T) = Some y" by blast
  then have "addrs T = y # addrs x @ kafter ks" by (simp add: addrs_split)
  then have hy: "y \<in> set (addrs T)" "hd (addrs T) = y" by simp_all
  have "rbtree_pick_eevdf h (ad T) V = Some (if p \<noteq> 0 then p else y)"
    using p(1) y(3) by (simp add: rbtree_pick_eevdf_def)
  moreover have "(\<exists>q \<in> set (addrs T). vr h q \<le> V) \<longleftrightarrow> p \<noteq> 0" using p(2,3) by force
  ultimately show ?thesis using p(2) hy by (cases "p = 0") auto
qed

end
