(* ===== verification/Rbtree_Props.thy ===== *)
theory Rbtree_Props
  imports Rbtree_Delete
begin

text \<open>
  What the red-black tree of \<^verbatim>\<open>src/rbtree.c\<close> promises to the scheduler: its operations end without an access
  through an invalid pointer, keep the balance and the order by vruntime, and add, remove and pick
  nodes as a queue ordered by vruntime would.
\<close>

section \<open>The contract of a run queue\<close>

text \<open>\<open>rq root h X\<close>: the store \<open>h\<close> holds a queue of the nodes \<open>X\<close> under \<open>root\<close>.  The client may change any node
  that is not in the queue, and never looks at the links, only at the \<open>data\<close> of the nodes.\<close>

locale run_queue =
  fixes rq :: "'n::zero \<Rightarrow> ('n \<Rightarrow> 'v option) \<Rightarrow> 'n set \<Rightarrow> bool"
    and insert_node :: "'n \<Rightarrow> 'n \<Rightarrow> ('n \<Rightarrow> 'v option) \<Rightarrow> ('n \<times> ('n \<Rightarrow> 'v option)) option"
    and remove_node :: "'n \<Rightarrow> 'n \<Rightarrow> ('n \<Rightarrow> 'v option) \<Rightarrow> ('n \<times> ('n \<Rightarrow> 'v option)) option"
    and pick_node :: "('n \<Rightarrow> 'v option) \<Rightarrow> 'n \<Rightarrow> nat \<Rightarrow> 'n option"
    and data :: "'v \<Rightarrow> 'd"
    and key :: "'d \<Rightarrow> nat"
    and placed :: "'n \<Rightarrow> bool"
  assumes empty: "rq 0 h {}"
    and members: "rq root h X \<Longrightarrow> n \<in> X \<Longrightarrow> n \<in> dom h \<and> n \<noteq> 0"
    and outside: "rq root h X \<Longrightarrow> n \<notin> X \<Longrightarrow> rq root (h(n := v)) X"
    and inserting: "rq root h X \<Longrightarrow> n \<notin> X \<Longrightarrow> n \<in> dom h \<Longrightarrow> placed n \<Longrightarrow>
      \<exists>root' h'. insert_node root n h = Some (root', h') \<and> rq root' h' (insert n X) \<and>
        (\<forall>p. map_option data (h' p) = map_option data (h p))"
    and removing: "rq root h X \<Longrightarrow> n \<in> X \<Longrightarrow>
      \<exists>root' h'. remove_node root n h = Some (root', h') \<and> rq root' h' (X - {n}) \<and>
        (\<forall>p. map_option data (h' p) = map_option data (h p))"
    and picking: "rq root h X \<Longrightarrow> X \<noteq> {} \<Longrightarrow>
      \<exists>n \<in> X. pick_node h root V = Some n \<and>
        (if \<exists>p \<in> X. key (data (the (h p))) \<le> V then key (data (the (h n))) \<le> V
         else \<forall>p \<in> X. key (data (the (h n))) \<le> key (data (the (h p))))"
    and nothing: "rq root h {} \<Longrightarrow> pick_node h root V = Some 0"
begin

text \<open>Taking the next node off the queue, and putting a node back after a change of its data.\<close>

lemma take_next:
  assumes "rq root h X" "X \<noteq> {}"
  shows "\<exists>n \<in> X. n \<noteq> 0 \<and> n \<in> dom h \<and> pick_node h root V = Some n \<and>
    (\<exists>root' h'. remove_node root n h = Some (root', h') \<and> rq root' h' (X - {n}) \<and>
      (\<forall>p. map_option data (h' p) = map_option data (h p))) \<and>
    (if \<exists>p \<in> X. key (data (the (h p))) \<le> V then key (data (the (h n))) \<le> V
     else \<forall>p \<in> X. key (data (the (h n))) \<le> key (data (the (h p))))"
proof -
  from picking [OF assms, of V] obtain n where n: "n \<in> X" "pick_node h root V = Some n"
    "if \<exists>p \<in> X. key (data (the (h p))) \<le> V then key (data (the (h n))) \<le> V
     else \<forall>p \<in> X. key (data (the (h n))) \<le> key (data (the (h p)))" by blast
  with members [OF assms(1) n(1)] removing [OF assms(1) n(1)] show ?thesis by blast
qed

lemma put_back:
  assumes "rq root h X" "n \<notin> X" "placed n"
  shows "\<exists>root' h'. insert_node root n (h(n \<mapsto> v)) = Some (root', h') \<and> rq root' h' (insert n X) \<and>
    (\<forall>p. map_option data (h' p) = map_option data ((h(n \<mapsto> v)) p))"
  using inserting [OF outside [OF assms(1,2), of "Some v"] assms(2)] assms(3) by simp

end

section \<open>The tree is a run queue\<close>

text \<open>\<open>rb_queue root h xs\<close>: under \<open>root\<close> is a red-black tree whose nodes, from left to right, are \<open>xs\<close>,
  with ascending vruntimes.\<close>

definition rb_queue :: "usize \<Rightarrow> nodes \<Rightarrow> usize list \<Rightarrow> bool" where
  "rb_queue root h xs \<longleftrightarrow> (\<exists>T. root = ad T \<and> tree h T \<and> rbt T \<and> addrs T = xs \<and> sorted (map (vr h) xs))"

definition rb_set :: "usize \<Rightarrow> nodes \<Rightarrow> usize set \<Rightarrow> bool" where
  "rb_set root h X \<longleftrightarrow> (\<exists>xs. rb_queue root h xs \<and> set xs = X)"

definition aligned_node :: "usize \<Rightarrow> bool" where
  "aligned_node p \<longleftrightarrow> p \<noteq> 0 \<and> p mod 4 = 0"

lemma rb_result_queue:
  assumes "rb_result h xs r" "sorted (map (vr h) xs)"
  shows "\<exists>root' h'. r = Some (root', h') \<and> rb_queue root' h' xs \<and> same_payload h h'"
proof -
  from assms(1) obtain T h' where T: "r = Some (ad T, h')" "tree h' T" "rbt T" "addrs T = xs" "same_payload h h'"
    unfolding rb_result_def by blast
  have "vr h' = vr h" by (rule ext) (rule same_payload_vr [OF T(5)])
  with T assms(2) show ?thesis unfolding rb_queue_def by auto
qed

lemma insert_queue:
  assumes "rb_queue root h xs" "a \<in> dom h" "aligned_node a" "a \<notin> set xs"
  shows "\<exists>root' h' ys zs. rbtree_insert root a h = Some (root', h') \<and> xs = ys @ zs \<and> rb_queue root' h' (ys @ a # zs) \<and>
    (\<forall>y \<in> set ys. vr h y \<le> vr h a) \<and> (\<forall>z \<in> set zs. vr h a < vr h z) \<and> same_payload h h'"
proof -
  from assms(1) obtain T where T: "root = ad T" "tree h T" "rbt T" "addrs T = xs" "sorted (map (vr h) xs)"
    unfolding rb_queue_def by blast
  from rbtree_insert_ok [of h T a] T assms(2-4) obtain ys zs where
    s: "xs = ys @ zs" "\<forall>y \<in> set ys. vr h y \<le> vr h a" "\<forall>z \<in> set zs. vr h a < vr h z"
      "rb_result h (ys @ a # zs) (rbtree_insert root a h)"
    unfolding aligned_node_def by (auto simp: mod_eq_0_iff_dvd)
  have "sorted (map (vr h) (ys @ a # zs))" using T(5) s(1-3) by (auto simp: sorted_append less_imp_le)
  from rb_result_queue [OF s(4) this] s show ?thesis by blast
qed

lemma remove_queue:
  assumes "rb_queue root h xs" "z \<in> set xs"
  shows "\<exists>root' h' ys zs. rbtree_remove root z h = Some (root', h') \<and> xs = ys @ z # zs \<and> rb_queue root' h' (ys @ zs) \<and> same_payload h h'"
proof -
  from assms(1) obtain T where T: "root = ad T" "tree h T" "rbt T" "addrs T = xs" "sorted (map (vr h) xs)"
    unfolding rb_queue_def by blast
  from rbtree_remove_ok [of h T z] T assms(2) obtain ys zs where
    s: "xs = ys @ z # zs" "rb_result h (ys @ zs) (rbtree_remove root z h)" by auto
  have "sorted (map (vr h) (ys @ zs))" using T(5) s(1) by (simp add: sorted_append)
  from rb_result_queue [OF s(2) this] s show ?thesis by blast
qed

lemma pick_queue:
  assumes "rb_queue root h xs" "xs \<noteq> []"
  shows "\<exists>r \<in> set xs. rbtree_pick_eevdf h root V = Some r \<and>
    (if \<exists>p \<in> set xs. vr h p \<le> V then vr h r \<le> V else r = hd xs)"
proof -
  from assms(1) obtain T where T: "root = ad T" "tree h T" "addrs T = xs" "sorted (map (vr h) xs)"
    unfolding rb_queue_def by blast
  then have "T \<noteq> L" using assms(2) by auto
  then show ?thesis using rbtree_pick_ok [OF T(2), of V] T(4) unfolding T(1) T(3) [symmetric] by blast
qed

lemma rb_queue_distinct: "rb_queue root h xs \<Longrightarrow> distinct xs \<and> (\<forall>x \<in> set xs. x \<in> dom h \<and> x \<noteq> 0) \<and> (root = 0 \<longleftrightarrow> xs = [])"
proof -
  assume "rb_queue root h xs"
  then obtain T where T: "root = ad T" "reps h 0 T" "distinct (addrs T)" "addrs T = xs" unfolding rb_queue_def tree_def by blast
  then have "root = 0 \<longleftrightarrow> xs = []" by (cases T) auto
  with T reps_nonzero [OF T(2)] show ?thesis by auto
qed

lemma reps_other: "n \<notin> set (addrs t) \<Longrightarrow> reps (h(n := v)) q t = reps h q t"
  by (induction t arbitrary: q) (auto simp: par_def col_def lf_def rt_def)

lemma rb_queue_other: "rb_queue root h xs \<Longrightarrow> n \<notin> set xs \<Longrightarrow> rb_queue root (h(n := v)) xs"
proof -
  assume a: "rb_queue root h xs" "n \<notin> set xs"
  then obtain T where T: "root = ad T" "tree h T" "rbt T" "addrs T = xs" "sorted (map (vr h) xs)" unfolding rb_queue_def by blast
  have "map (vr (h(n := v))) xs = map (vr h) xs" using a(2) by (auto simp: vr_def)
  moreover have "tree (h(n := v)) T" using T(2,4) a(2) by (simp add: tree_def reps_other)
  ultimately show ?thesis using T unfolding rb_queue_def by metis
qed

interpretation tq: run_queue rb_set rbtree_insert rbtree_remove rbtree_pick_eevdf payload fst aligned_node
proof (unfold_locales, goal_cases)
  case (1 h)
  show ?case unfolding rb_set_def rb_queue_def by (intro exI [of _ "[]"]) (auto simp: tree_def rbt_def intro!: exI [of _ L])
next
  case (2 root h X n)
  then show ?case unfolding rb_set_def using rb_queue_distinct by blast
next
  case (3 root h X n v)
  then show ?case unfolding rb_set_def using rb_queue_other by blast
next
  case (4 root h X n)
  then obtain xs where "rb_queue root h xs" "set xs = X" unfolding rb_set_def by blast
  with insert_queue [of root h xs n] 4 show ?case unfolding rb_set_def same_payload_def by fastforce
next
  case (5 root h X n)
  then obtain xs where xs: "rb_queue root h xs" "set xs = X" unfolding rb_set_def by blast
  with remove_queue [of root h xs n] 5 obtain root' h' ys zs where
    r: "rbtree_remove root n h = Some (root', h')" "xs = ys @ n # zs" "rb_queue root' h' (ys @ zs)" "same_payload h h'" by blast
  have "set (ys @ zs) = X - {n}" using rb_queue_distinct [OF xs(1)] r(2) xs(2) by auto
  with r show ?case unfolding rb_set_def same_payload_def by fastforce
next
  case (6 root h X V)
  then obtain xs where xs: "rb_queue root h xs" "set xs = X" unfolding rb_set_def by blast
  with 6 have ne: "xs \<noteq> []" by auto
  have v: "fst (payload (the (h p))) = vr h p" for p by (simp add: payload_def vr_def)
  have "sorted (map (vr h) xs)" using xs(1) unfolding rb_queue_def by blast
  then have "\<forall>p \<in> X. vr h (hd xs) \<le> vr h p" using xs(2) ne by (cases xs) auto
  moreover from pick_queue [OF xs(1) ne, of V] obtain r where r: "r \<in> set xs" "rbtree_pick_eevdf h root V = Some r"
    "if \<exists>p \<in> set xs. vr h p \<le> V then vr h r \<le> V else r = hd xs" by blast
  ultimately show ?case unfolding v using xs(2) by (intro bexI [of _ r]) (auto split: if_splits)
next
  case (7 root h V)
  then have "root = 0" unfolding rb_set_def using rb_queue_distinct by auto
  then show ?case by (simp add: rbtree_pick_eevdf_def rbtree_leftmost_def pick_from.simps)
qed


section \<open>Properties\<close>

text \<open>C30. In a red-black tree ordered by vruntime, inserting a node that is not in it ends, faults at
  no access and gives a red-black tree ordered by vruntime again: the new node stands behind every
  node with a vruntime up to its own, the others keep their order, and vruntime, task and deadlines of every node are
  unchanged.\<close>

theorem rbtree_insert_correct:
  assumes "rb_queue root h xs" "a \<in> dom h" "aligned_node a" "a \<notin> set xs"
  shows "\<exists>root' h' ys zs. rbtree_insert root a h = Some (root', h') \<and> xs = ys @ zs \<and> rb_queue root' h' (ys @ a # zs) \<and>
    (\<forall>y \<in> set ys. vr h y \<le> vr h a) \<and> (\<forall>z \<in> set zs. vr h a < vr h z) \<and> same_payload h h'"
  using assms by (rule insert_queue)

text \<open>A tree of one node and a second node outside it.\<close>

definition sample_node :: "nat \<Rightarrow> nat \<Rightarrow> sched_node" where
  "sample_node v d = \<lparr>sn_vruntime = v, sn_task_id = 0, sn_deadline = d, sn_min_deadline = d,
     sn_left = 0, sn_right = 0, parent_and_color = 0\<rparr>"

definition sample_nodes :: nodes where
  "sample_nodes = [64 \<mapsto> sample_node 5 7, 128 \<mapsto> sample_node 3 9]"

lemma sample_fields:
  "64 \<in> dom sample_nodes" "128 \<in> dom sample_nodes" "vr sample_nodes 64 = 5" "vr sample_nodes 128 = 3"
  by (simp_all add: sample_nodes_def vr_def sample_node_def)

lemma sample_queue: "rb_queue 64 sample_nodes [64]"
  unfolding rb_queue_def by (intro exI [of _ "N L 64 0 L"])
    (simp add: tree_def rbt_def sample_nodes_def sample_node_def par_def col_def lf_def rt_def rb_parent_def rb_color_def and_not_def)

theorem rbtree_insert_correct_witness:
  "\<exists>root' h'. rbtree_insert 64 128 sample_nodes = Some (root', h') \<and> rb_queue root' h' [128, 64]"
proof -
  have "\<exists>root' h' ys zs. rbtree_insert 64 128 sample_nodes = Some (root', h') \<and> [64] = ys @ zs \<and> rb_queue root' h' (ys @ 128 # zs) \<and>
    (\<forall>y \<in> set ys. vr sample_nodes y \<le> vr sample_nodes 128) \<and> (\<forall>z \<in> set zs. vr sample_nodes 128 < vr sample_nodes z) \<and>
    same_payload sample_nodes h'"
    by (rule rbtree_insert_correct [OF sample_queue]) (simp_all add: sample_fields aligned_node_def)
  then obtain root' h' ys zs where r: "rbtree_insert 64 128 sample_nodes = Some (root', h')" "[64] = ys @ zs"
    "rb_queue root' h' (ys @ 128 # zs)" "\<forall>y \<in> set ys. vr sample_nodes y \<le> vr sample_nodes 128" by blast
  then have "ys = []" by (cases ys) (auto simp: sample_fields)
  with r show ?thesis by auto
qed

text \<open>C31. Removing a node of such a tree ends, faults at no access and gives a red-black tree ordered by
  vruntime with exactly the other nodes, in the same order and with the same data.\<close>

theorem rbtree_remove_correct:
  assumes "rb_queue root h xs" "z \<in> set xs"
  shows "\<exists>root' h' ys zs. rbtree_remove root z h = Some (root', h') \<and> xs = ys @ z # zs \<and> rb_queue root' h' (ys @ zs) \<and> same_payload h h'"
  using assms by (rule remove_queue)

theorem rbtree_remove_correct_witness:
  "\<exists>root' h'. rbtree_remove 64 64 sample_nodes = Some (root', h') \<and> rb_queue root' h' []"
  using rbtree_remove_correct [OF sample_queue, of 64] by (auto simp: Cons_eq_append_conv)



text \<open>The picked node need not have the earliest deadline among the eligible ones: after a step to the left the
  search does not come back to the right subtree.\<close>

definition three_nodes :: nodes where
  "three_nodes =
     [64 \<mapsto> (sample_node 2 10)\<lparr>sn_left := 128, sn_right := 192\<rparr>,
      128 \<mapsto> (sample_node 1 5)\<lparr>parent_and_color := 65\<rparr>,
      192 \<mapsto> (sample_node 3 1)\<lparr>parent_and_color := 65\<rparr>]"

lemma and_not_65: "and_not 65 3 = (64::nat)" "(65::nat) AND 1 = 1"
  by (simp_all add: and_not_def)

lemma pick_misses_earliest_deadline:
  "rb_queue 64 three_nodes [128, 64, 192] \<and> vr three_nodes 192 \<le> 3 \<and>
   rbtree_pick_eevdf three_nodes 64 3 = Some 128 \<and>
   sn_deadline (the (three_nodes 192)) < sn_deadline (the (three_nodes 128))"
proof -
  have "rb_queue 64 three_nodes [128, 64, 192]"
    unfolding rb_queue_def by (intro exI [of _ "N (N L 128 1 L) 64 0 (N L 192 1 L)"])
      (simp add: tree_def rbt_def three_nodes_def sample_node_def par_def col_def lf_def rt_def vr_def rb_parent_def rb_color_def
        and_not_def)
  moreover have "rbtree_pick_eevdf three_nodes 64 3 = Some 128"
    by (simp add: rbtree_pick_eevdf_def pick_from.simps three_nodes_def sample_node_def load_def better_child_def deadline_of_def)
  ultimately show ?thesis by (simp add: three_nodes_def sample_node_def vr_def)
qed

end
