(* ===== verification/Thread_Context.thy ===== *)
theory Thread_Context
  imports Prelude
begin

text \<open>
  Saving and restoring the registers: the structure \<open>ThreadContext\<close> and the assembly stubs of
  \<^verbatim>\<open>src/process/process.rs\<close> (timer interrupt), \<^verbatim>\<open>src/process/syscall.rs\<close> (system calls) and
  \<^verbatim>\<open>src/arch/x86_64/gdt.rs\<close> (the jump to user mode), as programs of a small machine.
\<close>

section \<open>The machine\<close>

datatype reg = RAX | RCX | RDX | RBX | RBP | RSI | RDI | R8 | R9 | R10 | R11 | R12 | R13 | R14 | R15 | RSP

record cpu =
  regs :: "reg \<Rightarrow> usize"
  rip :: usize
  cs :: usize
  rflags :: usize
  ss :: usize
  gs_base :: usize
  kernel_gs_base :: usize
  memory :: mem

text \<open>
  The instructions of the stubs.  \<open>SwapgsIfUser\<close> is the sequence \<^verbatim>\<open>test qword ptr [rsp + 8], 3; jz; swapgs\<close>,
  where \<^verbatim>\<open>[rsp + 8]\<close> is the code segment of an interrupt frame.  \<open>Call\<close> calls the Rust handler: it gets the
  memory and the argument in \<open>RDI\<close>, and returns a memory and new values for the scratch registers of
  the calling convention, among them the result in \<open>RAX\<close>.
\<close>

datatype instr =
    Push reg | PushImm usize | PushGs usize | Pop reg | Mov reg reg | MovToGs usize reg | MovFromGs reg usize
  | AddRsp usize | SwapgsIfUser | Swapgs | Call | Iretq | Sysretq

type_synonym handler = "usize \<Rightarrow> mem \<Rightarrow> ((reg \<Rightarrow> usize) \<times> mem) option"

definition scratch_regs :: "reg list" where
  "scratch_regs = [RAX, RCX, RDX, RSI, RDI, R8, R9, R10, R11]"

definition dec8 :: "usize \<Rightarrow> usize" where
  "dec8 a = (if a < 8 then a + 2 ^ 64 - 8 else a - 8)"

definition inc :: "usize \<Rightarrow> usize \<Rightarrow> usize" where
  "inc a n = (a + n) mod 2 ^ 64"

definition push_val :: "usize \<Rightarrow> cpu \<Rightarrow> cpu" where
  "push_val v c = (let sp = dec8 (regs c RSP) in c\<lparr>regs := (regs c)(RSP := sp), memory := wr64 (memory c) sp v\<rparr>)"

definition swap_gs :: "cpu \<Rightarrow> cpu" where
  "swap_gs c = c\<lparr>gs_base := kernel_gs_base c, kernel_gs_base := gs_base c\<rparr>"

fun step_instr :: "handler \<Rightarrow> instr \<Rightarrow> cpu \<Rightarrow> cpu option" where
  "step_instr H (Push r) c = Some (push_val (regs c r) c)"
| "step_instr H (PushImm v) c = Some (push_val v c)"
| "step_instr H (PushGs off) c = Some (push_val (rd64 (memory c) (inc (gs_base c) off)) c)"
| "step_instr H (Pop r) c =
     (let sp = regs c RSP in Some (c\<lparr>regs := (regs c)(RSP := inc sp 8, r := rd64 (memory c) sp)\<rparr>))"
| "step_instr H (Mov d s) c = Some (c\<lparr>regs := (regs c)(d := regs c s)\<rparr>)"
| "step_instr H (MovToGs off r) c = Some (c\<lparr>memory := wr64 (memory c) (inc (gs_base c) off) (regs c r)\<rparr>)"
| "step_instr H (MovFromGs r off) c = Some (c\<lparr>regs := (regs c)(r := rd64 (memory c) (inc (gs_base c) off))\<rparr>)"
| "step_instr H (AddRsp n) c = Some (c\<lparr>regs := (regs c)(RSP := inc (regs c RSP) n)\<rparr>)"
| "step_instr H SwapgsIfUser c =
     Some (if rd64 (memory c) (inc (regs c RSP) 8) AND 3 = 0 then c else swap_gs c)"
| "step_instr H Swapgs c = Some (swap_gs c)"
| "step_instr H Call c = do {
     (k, m) \<leftarrow> H (regs c RDI) (memory c);
     Some (c\<lparr>regs := (\<lambda>r. if r \<in> set scratch_regs then k r else regs c r), memory := m\<rparr>) }"
| "step_instr H Iretq c =
     (let sp = regs c RSP; m = memory c in
      Some (c\<lparr>rip := rd64 m sp, cs := rd64 m (inc sp 8), rflags := rd64 m (inc sp 16),
        regs := (regs c)(RSP := rd64 m (inc sp 24)), ss := rd64 m (inc sp 32)\<rparr>))"
| "step_instr H Sysretq c = Some (c\<lparr>rip := regs c RCX, rflags := regs c R11, cs := 0x2B, ss := 0x23\<rparr>)"

fun run :: "handler \<Rightarrow> instr list \<Rightarrow> cpu \<Rightarrow> cpu option" where
  "run H [] c = Some c"
| "run H (i # is) c = do { c \<leftarrow> step_instr H i c; run H is c }"

lemma run_append: "run H (is @ js) c = do { c \<leftarrow> run H is c; run H js c }"
proof (induction "is" arbitrary: c)
  case (Cons i "is")
  then show ?case by (cases "step_instr H i c") simp_all
qed simp

lemma run_twice: "run H is c = Some c' \<Longrightarrow> run H js c' = Some c'' \<Longrightarrow> run H (is @ js @ ks) c = run H ks c''"
  by (simp add: run_append)

section \<open>The saved registers\<close>

record thread_context =
  tc_r15 :: usize
  tc_r14 :: usize
  tc_r13 :: usize
  tc_r12 :: usize
  tc_r11 :: usize
  tc_r10 :: usize
  tc_r9 :: usize
  tc_r8 :: usize
  tc_rdi :: usize
  tc_rsi :: usize
  tc_rbp :: usize
  tc_rbx :: usize
  tc_rdx :: usize
  tc_rcx :: usize
  tc_rax :: usize
  tc_error_code :: usize
  tc_rip :: usize
  tc_cs :: usize
  tc_rflags :: usize
  tc_rsp :: usize
  tc_ss :: usize

definition CONTEXT_SIZE :: usize where "CONTEXT_SIZE = 168"

text \<open>\<^verbatim>\<open>repr(C)\<close>: 21 words in the order of the fields.\<close>

definition ctx_read :: "mem \<Rightarrow> usize \<Rightarrow> thread_context" where
  "ctx_read m p = \<lparr>tc_r15 = rd64 m p, tc_r14 = rd64 m (p + 8), tc_r13 = rd64 m (p + 16), tc_r12 = rd64 m (p + 24),
     tc_r11 = rd64 m (p + 32), tc_r10 = rd64 m (p + 40), tc_r9 = rd64 m (p + 48), tc_r8 = rd64 m (p + 56),
     tc_rdi = rd64 m (p + 64), tc_rsi = rd64 m (p + 72), tc_rbp = rd64 m (p + 80), tc_rbx = rd64 m (p + 88),
     tc_rdx = rd64 m (p + 96), tc_rcx = rd64 m (p + 104), tc_rax = rd64 m (p + 112), tc_error_code = rd64 m (p + 120),
     tc_rip = rd64 m (p + 128), tc_cs = rd64 m (p + 136), tc_rflags = rd64 m (p + 144), tc_rsp = rd64 m (p + 152),
     tc_ss = rd64 m (p + 160)\<rparr>"

fun wr_words :: "mem \<Rightarrow> usize \<Rightarrow> nat list \<Rightarrow> mem" where
  "wr_words m p [] = m"
| "wr_words m p (v # vs) = wr64 (wr_words m (p + 8) vs) p v"

definition ctx_words :: "thread_context \<Rightarrow> nat list" where
  "ctx_words t = [tc_r15 t, tc_r14 t, tc_r13 t, tc_r12 t, tc_r11 t, tc_r10 t, tc_r9 t, tc_r8 t, tc_rdi t, tc_rsi t,
     tc_rbp t, tc_rbx t, tc_rdx t, tc_rcx t, tc_rax t, tc_error_code t, tc_rip t, tc_cs t, tc_rflags t, tc_rsp t, tc_ss t]"

definition ctx_write :: "mem \<Rightarrow> usize \<Rightarrow> thread_context \<Rightarrow> mem" where
  "ctx_write m p t = wr_words m p (ctx_words t)"

section \<open>The stubs\<close>

definition push_regs :: "instr list" where
  "push_regs = [Push RAX, Push RCX, Push RDX, Push RBX, Push RBP, Push RSI, Push RDI, Push R8, Push R9, Push R10,
     Push R11, Push R12, Push R13, Push R14, Push R15]"

definition pop_regs :: "instr list" where
  "pop_regs = [Pop R15, Pop R14, Pop R13, Pop R12, Pop R11, Pop R10, Pop R9, Pop R8, Pop RDI, Pop RSI, Pop RBP,
     Pop RBX, Pop RDX, Pop RCX, Pop RAX]"

definition timer_isr :: "instr list" where
  "timer_isr = [SwapgsIfUser, PushImm 0] @ push_regs @ [Mov RDI RSP, Call, Mov RSP RAX] @ pop_regs @
     [AddRsp 8, SwapgsIfUser, Iretq]"

definition syscall_entry_stub :: "instr list" where
  "syscall_entry_stub = [Swapgs, MovToGs 16 RSP, MovFromGs RSP 8, PushImm 0x23, PushGs 16, Push R11, PushImm 0x2B,
     Push RCX, PushImm 0] @ push_regs @ [Mov RDI RSP, Call] @ pop_regs @
     [AddRsp 8, Pop RCX, AddRsp 8, Pop R11, Pop RSP, Swapgs, Sysretq]"

text \<open>The registers that hold the operands of \<open>jump_to_user_space\<close> are chosen by the compiler; the
  operands are immediate here.\<close>

definition jump_to_user_space :: "usize \<Rightarrow> usize \<Rightarrow> usize \<Rightarrow> usize \<Rightarrow> instr list" where
  "jump_to_user_space user_data user_code code_addr stack_addr =
     [PushImm user_data, PushImm stack_addr, PushImm 0x202, PushImm user_code, PushImm code_addr, Swapgs, Iretq]"

section \<open>What the stubs do\<close>

lemma dec8_add [simp]: "dec8 (p + 8) = p"
  by (simp add: dec8_def)

lemma wr_words_snoc: "wr_words m p (vs @ [v]) = wr_words (wr64 m (p + 8 * length vs) v) p vs"
proof (induction vs arbitrary: p)
  case (Cons w vs)
  have "p + 8 + 8 * length vs = p + 8 * length (w # vs)" by simp
  with Cons [of "p + 8"] show ?case by (simp only: append_Cons wr_words.simps)
qed simp

lemma wr_words_other: "x < p \<or> p + 8 * length vs \<le> x \<Longrightarrow> wr_words m p vs x = m x"
  by (induction vs arbitrary: p) (auto simp: mem_frame)

lemma rd64_wr_words_other: "b + 8 \<le> p \<or> p + 8 * length vs \<le> b \<Longrightarrow> rd64 (wr_words m p vs) b = rd64 m b"
  by (rule rd64_cong) (auto simp: wr_words_other)

lemma rd64_wr_words:
  "i < length vs \<Longrightarrow> \<forall>v \<in> set vs. v < 2 ^ 64 \<Longrightarrow> rd64 (wr_words m p vs) (p + 8 * i) = vs ! i"
proof (induction vs arbitrary: p i)
  case (Cons v vs)
  show ?case
  proof (cases i)
    case 0
    with Cons.prems(2) show ?thesis by (simp add: rd64_wr64_same)
  next
    case (Suc j)
    have e: "p + 8 * i = p + 8 + 8 * j" using Suc by simp
    from Cons.IH [of j "p + 8"] Cons.prems Suc show ?thesis unfolding e by (simp add: mem_frame)
  qed
qed simp

text \<open>Pushing a list of values leaves them in memory in reverse order.\<close>

lemma push_vals:
  assumes "regs c RSP = p + 8 * length vs"
  shows "fold push_val vs c = c\<lparr>regs := (regs c)(RSP := p), memory := wr_words (memory c) p (rev vs)\<rparr>"
  using assms
proof (induction vs arbitrary: c)
  case (Cons v vs)
  let ?q = "p + 8 * length vs"
  have c1: "push_val v c = c\<lparr>regs := (regs c)(RSP := ?q), memory := wr64 (memory c) ?q v\<rparr>"
    using Cons.prems by (simp add: push_val_def dec8_def Let_def)
  have "fold push_val (v # vs) c = fold push_val vs (push_val v c)" by simp
  also have "\<dots> = (push_val v c)\<lparr>regs := (regs (push_val v c))(RSP := p), memory := wr_words (memory (push_val v c)) p (rev vs)\<rparr>"
    by (rule Cons.IH) (simp add: c1)
  also have "\<dots> = c\<lparr>regs := (regs c)(RSP := p), memory := wr_words (memory c) p (rev (v # vs))\<rparr>"
    unfolding c1 by (simp add: wr_words_snoc)
  finally show ?case .
next
  case Nil
  then have "(regs c)(RSP := p) = regs c" by auto
  then show ?case by simp
qed

lemma run_pushes:
  assumes "RSP \<notin> set rs"
  shows "run H (map Push rs) c = Some (fold push_val (map (regs c) rs) c)"
  using assms
proof (induction rs arbitrary: c)
  case (Cons r rs)
  have m: "map (regs (push_val (regs c r) c)) rs = map (regs c) rs"
    using Cons.prems by (auto simp: push_val_def Let_def)
  have "run H (map Push (r # rs)) c = run H (map Push rs) (push_val (regs c r) c)" by simp
  also have "\<dots> = Some (fold push_val (map (regs c) rs) (push_val (regs c r) c))"
    unfolding m [symmetric] using Cons by simp
  finally show ?case by simp
qed simp

lemma push_regs_map: "push_regs = map Push [RAX, RCX, RDX, RBX, RBP, RSI, RDI, R8, R9, R10, R11, R12, R13, R14, R15]"
  by (simp add: push_regs_def)

lemma inc_ok: "a + n < 2 ^ 64 \<Longrightarrow> inc a n = a + n"
  by (simp add: inc_def)

text \<open>The registers as a context, and the context of interrupted code: \<open>p + 128\<close> is the address of the
  interrupt frame.\<close>

definition ctx_regs :: "thread_context \<Rightarrow> reg \<Rightarrow> usize" where
  "ctx_regs t r = (case r of RAX \<Rightarrow> tc_rax t | RCX \<Rightarrow> tc_rcx t | RDX \<Rightarrow> tc_rdx t | RBX \<Rightarrow> tc_rbx t | RBP \<Rightarrow> tc_rbp t
     | RSI \<Rightarrow> tc_rsi t | RDI \<Rightarrow> tc_rdi t | R8 \<Rightarrow> tc_r8 t | R9 \<Rightarrow> tc_r9 t | R10 \<Rightarrow> tc_r10 t | R11 \<Rightarrow> tc_r11 t | R12 \<Rightarrow> tc_r12 t
     | R13 \<Rightarrow> tc_r13 t | R14 \<Rightarrow> tc_r14 t | R15 \<Rightarrow> tc_r15 t | RSP \<Rightarrow> tc_rsp t)"

definition interrupted :: "cpu \<Rightarrow> usize \<Rightarrow> thread_context" where
  "interrupted c p = (ctx_read (memory c) p)\<lparr>tc_r15 := regs c R15, tc_r14 := regs c R14, tc_r13 := regs c R13,
     tc_r12 := regs c R12, tc_r11 := regs c R11, tc_r10 := regs c R10, tc_r9 := regs c R9, tc_r8 := regs c R8,
     tc_rdi := regs c RDI, tc_rsi := regs c RSI, tc_rbp := regs c RBP, tc_rbx := regs c RBX, tc_rdx := regs c RDX,
     tc_rcx := regs c RCX, tc_rax := regs c RAX, tc_error_code := 0\<rparr>"

definition saved_words :: "cpu \<Rightarrow> nat list" where
  "saved_words c = map (regs c) [R15, R14, R13, R12, R11, R10, R9, R8, RDI, RSI, RBP, RBX, RDX, RCX, RAX] @ [0]"

lemma save_regs:
  assumes "regs c RSP = p + 128"
  shows "run H ([PushImm 0] @ push_regs) c = Some (c\<lparr>regs := (regs c)(RSP := p), memory := wr_words (memory c) p (saved_words c)\<rparr>)"
proof -
  let ?rs = "[RAX, RCX, RDX, RBX, RBP, RSI, RDI, R8, R9, R10, R11, R12, R13, R14, R15]"
  have "run H ([PushImm 0] @ push_regs) c = run H (map Push ?rs) (push_val 0 c)" by (simp add: push_regs_map)
  also have "\<dots> = Some (fold push_val (map (regs (push_val 0 c)) ?rs) (push_val 0 c))" by (rule run_pushes) simp
  also have "map (regs (push_val 0 c)) ?rs = map (regs c) ?rs" by (simp add: push_val_def Let_def)
  also have "fold push_val (map (regs c) ?rs) (push_val 0 c) = fold push_val (0 # map (regs c) ?rs) c" by simp
  also have "\<dots> = c\<lparr>regs := (regs c)(RSP := p), memory := wr_words (memory c) p (rev (0 # map (regs c) ?rs))\<rparr>"
    by (rule push_vals) (simp add: assms)
  also have "rev (0 # map (regs c) ?rs) = saved_words c" by (simp add: saved_words_def)
  finally show ?thesis .
qed

lemma saved_context:
  assumes "\<forall>r. regs c r < 2 ^ 64"
  shows "ctx_read (wr_words (memory c) p (saved_words c)) p = interrupted c p"
proof -
  define M where "M = wr_words (memory c) p (saved_words c)"
  have s: "\<forall>v \<in> set (saved_words c). v < 2 ^ 64" "length (saved_words c) = 16" using assms by (auto simp: saved_words_def)
  have w: "rd64 M (p + 8 * i) = saved_words c ! i" if "i < 16" for i
    unfolding M_def using rd64_wr_words [of i "saved_words c"] s that by simp
  have o: "rd64 M (p + j) = rd64 (memory c) (p + j)" if "128 \<le> j" for j
    unfolding M_def using rd64_wr_words_other [of "p + j" p "saved_words c"] s(2) that by simp
  have "ctx_read M p = interrupted c p"
    using w [of 0] w [of 1] w [of 2] w [of 3] w [of 4] w [of 5] w [of 6] w [of 7] w [of 8] w [of 9] w [of 10] w [of 11]
      w [of 12] w [of 13] w [of 14] w [of 15]
    unfolding ctx_read_def interrupted_def by (simp add: o saved_words_def)
  then show ?thesis by (simp add: M_def)
qed

text \<open>Restoring a context.\<close>

fun pops :: "mem \<Rightarrow> usize \<Rightarrow> reg list \<Rightarrow> (reg \<Rightarrow> usize) \<Rightarrow> reg \<Rightarrow> usize" where
  "pops m q [] f = f(RSP := q)"
| "pops m q (r # rs) f = pops m (q + 8) rs (f(r := rd64 m q))"

lemma pops_RSP: "pops m q rs (f(RSP := v)) = pops m q rs f" if "RSP \<notin> set rs"
  using that
proof (induction rs arbitrary: f q)
  case (Cons r rs)
  then have e: "f(RSP := v, r := rd64 m q) = (f(r := rd64 m q))(RSP := v)" by (auto simp: fun_upd_twist)
  have "RSP \<notin> set rs" using Cons.prems by simp
  then show ?case unfolding pops.simps e by (rule Cons.IH)
next
  case Nil
  show ?case unfolding pops.simps by (rule fun_upd_upd)
qed

lemma run_pops:
  assumes "RSP \<notin> set rs" "regs c RSP = q" "q + 8 * length rs < 2 ^ 64"
  shows "run H (map Pop rs) c = Some (c\<lparr>regs := pops (memory c) q rs (regs c)\<rparr>)"
  using assms
proof (induction rs arbitrary: c q)
  case Nil
  then have "(regs c)(RSP := q) = regs c" by auto
  then show ?case by simp
next
  case (Cons r rs)
  let ?f = "(regs c)(RSP := q + 8, r := rd64 (memory c) q)"
  have i: "inc q 8 = q + 8" using Cons.prems(3) by (intro inc_ok) simp
  have r: "run H (map Pop (r # rs)) c = run H (map Pop rs) (c\<lparr>regs := ?f\<rparr>)" using Cons.prems(2) i by (simp add: Let_def)
  have sp: "regs (c\<lparr>regs := ?f\<rparr>) RSP = q + 8" using Cons.prems(1) by simp
  have ih: "run H (map Pop rs) (c\<lparr>regs := ?f\<rparr>) =
      Some ((c\<lparr>regs := ?f\<rparr>)\<lparr>regs := pops (memory (c\<lparr>regs := ?f\<rparr>)) (q + 8) rs (regs (c\<lparr>regs := ?f\<rparr>))\<rparr>)"
    by (rule Cons.IH [OF _ sp]) (use Cons.prems in auto)
  have g: "(c\<lparr>regs := f\<rparr>)\<lparr>regs := g\<rparr> = c\<lparr>regs := g\<rparr>" "memory (c\<lparr>regs := f\<rparr>) = memory c" "regs (c\<lparr>regs := f\<rparr>) = f" for f g
    by simp_all
  have f: "?f = (regs c)(r := rd64 (memory c) q, RSP := q + 8)" using Cons.prems(1) by (auto simp: fun_upd_twist)
  have nr: "RSP \<notin> set rs" using Cons.prems(1) by simp
  show ?case unfolding r ih g unfolding f pops_RSP [OF nr] pops.simps ..
qed

lemma restore_regs:
  assumes q: "q + 120 < 2 ^ 64" "regs c RSP = q"
  shows "run H pop_regs c = Some (c\<lparr>regs := (ctx_regs (ctx_read (memory c) q))(RSP := q + 120)\<rparr>)"
proof -
  let ?rs = "[R15, R14, R13, R12, R11, R10, R9, R8, RDI, RSI, RBP, RBX, RDX, RCX, RAX]"
  have "run H pop_regs c = run H (map Pop ?rs) c" by (simp add: pop_regs_def)
  also have "\<dots> = Some (c\<lparr>regs := pops (memory c) q ?rs (regs c)\<rparr>)" using q by (intro run_pops) simp_all
  also have "pops (memory c) q ?rs (regs c) = (ctx_regs (ctx_read (memory c) q))(RSP := q + 120)"
  proof
    fix r
    show "pops (memory c) q ?rs (regs c) r = ((ctx_regs (ctx_read (memory c) q))(RSP := q + 120)) r"
      by (cases r) (simp_all add: ctx_regs_def ctx_read_def add.commute [of q])
  qed
  finally show ?thesis .
qed

text \<open>The processor in the state of a context.\<close>

definition resumed :: "thread_context \<Rightarrow> cpu \<Rightarrow> cpu" where
  "resumed t c = c\<lparr>regs := ctx_regs t, rip := tc_rip t, cs := tc_cs t, rflags := tc_rflags t, ss := tc_ss t\<rparr>"

definition from_user :: "thread_context \<Rightarrow> bool" where
  "from_user t \<longleftrightarrow> tc_cs t AND 3 \<noteq> 0"

lemma resume_context:
  assumes q: "q + 168 < 2 ^ 64" "regs c RSP = q" and t: "t = ctx_read (memory c) q"
  shows "run H (pop_regs @ [AddRsp 8, SwapgsIfUser, Iretq]) c = Some (resumed t (if from_user t then swap_gs c else c))"
proof -
  have "run H (pop_regs @ [AddRsp 8, SwapgsIfUser, Iretq]) c =
      run H [AddRsp 8, SwapgsIfUser, Iretq] (c\<lparr>regs := (ctx_regs t)(RSP := q + 120)\<rparr>)"
    using restore_regs [of q c H] q t by (simp add: run_append)
  also have "\<dots> = Some (resumed t (if from_user t then swap_gs c else c))"
  proof -
    have i: "inc (q + 120) 8 = q + 128" "inc (q + 128) 8 = q + 136" "inc (q + 128) 16 = q + 144" "inc (q + 128) 24 = q + 152"
      "inc (q + 128) 32 = q + 160" using q(1) by (simp_all add: inc_ok)
    have m: "rd64 (memory c) (q + 128) = tc_rip t" "rd64 (memory c) (q + 136) = tc_cs t" "rd64 (memory c) (q + 144) = tc_rflags t"
      "rd64 (memory c) (q + 152) = tc_rsp t" "rd64 (memory c) (q + 160) = tc_ss t" by (simp_all add: t ctx_read_def)
    have r: "(ctx_regs t)(RSP := tc_rsp t) = ctx_regs t" by (auto simp: ctx_regs_def)
    show ?thesis by (cases "from_user t") (simp_all add: i m r resumed_def from_user_def swap_gs_def Let_def)
  qed
  finally show ?thesis .
qed


text \<open>The whole stub: it saves the interrupted context at \<open>p\<close>, calls the handler with \<open>p\<close>, and resumes the
  context the handler returns.\<close>

lemma timer_isr_run:
  assumes c: "regs c RSP = p + 128" "p + 168 < 2 ^ 64" "\<forall>r. regs c r < 2 ^ 64"
    and q: "\<And>k m. H p (wr_words (memory c) p (saved_words c)) = Some (k, m) \<Longrightarrow> k RAX + 168 < 2 ^ 64"
  shows "run H timer_isr c =
    (case H p (wr_words (memory c) p (saved_words c)) of
       None \<Rightarrow> None
     | Some (k, m) \<Rightarrow>
         let t = ctx_read m (k RAX);
             c = (if from_user (interrupted c p) then swap_gs c else c)
         in Some (resumed t ((if from_user t then swap_gs c else c)\<lparr>memory := m\<rparr>)))"
proof -
  let ?M = "wr_words (memory c) p (saved_words c)"
  define c1 where "c1 = (if from_user (interrupted c p) then swap_gs c else c)"
  let ?c2 = "c1\<lparr>regs := (regs c)(RSP := p), memory := ?M\<rparr>"
  have c1: "regs c1 = regs c" "memory c1 = memory c" by (simp_all add: c1_def swap_gs_def)
  have sw: "saved_words c1 = saved_words c" by (simp add: saved_words_def c1)
  have "inc (p + 128) 8 = p + 136" using c(2) by (simp add: inc_ok)
  then have "run H [SwapgsIfUser] c = Some c1"
    using c(1) by (simp add: c1_def from_user_def interrupted_def ctx_read_def)
  moreover have "run H ([PushImm 0] @ push_regs) c1 = Some ?c2" using save_regs [of c1 p H] c(1) c1 sw by simp
  moreover have "timer_isr = [SwapgsIfUser] @ ([PushImm 0] @ push_regs) @ [Mov RDI RSP, Call, Mov RSP RAX] @
      (pop_regs @ [AddRsp 8, SwapgsIfUser, Iretq])" by (simp add: timer_isr_def)
  ultimately have s: "run H timer_isr c = run H ([Mov RDI RSP, Call, Mov RSP RAX] @ (pop_regs @ [AddRsp 8, SwapgsIfUser, Iretq])) ?c2"
    using run_twice by metis
  show ?thesis
  proof (cases "H p ?M")
    case None
    then show ?thesis unfolding s by (simp add: Let_def)
  next
    case (Some km)
    obtain k m where km: "km = (k, m)" by (cases km)
    define c3 where "c3 = ?c2\<lparr>regs := (\<lambda>r. if r \<in> set scratch_regs then k r else ((regs c)(RSP := p, RDI := p)) r)(RSP := k RAX), memory := m\<rparr>"
    have "run H [Mov RDI RSP, Call, Mov RSP RAX] ?c2 = Some c3"
      using Some km by (simp add: c3_def scratch_regs_def cong: if_cong)
    then have "run H timer_isr c = run H (pop_regs @ [AddRsp 8, SwapgsIfUser, Iretq]) c3"
      unfolding s run_append [of H "[Mov RDI RSP, Call, Mov RSP RAX]"] by simp
    also have "\<dots> = Some (resumed (ctx_read m (k RAX)) (if from_user (ctx_read m (k RAX)) then swap_gs c3 else c3))"
      using q [of k m] Some km by (intro resume_context) (simp_all add: c3_def)
    also have "resumed (ctx_read m (k RAX)) (if from_user (ctx_read m (k RAX)) then swap_gs c3 else c3) =
        resumed (ctx_read m (k RAX)) ((if from_user (ctx_read m (k RAX)) then swap_gs c1 else c1)\<lparr>memory := m\<rparr>)"
      by (simp add: resumed_def swap_gs_def c3_def)
    finally show ?thesis using Some km by (simp add: Let_def c1_def)
  qed
qed


section \<open>A context switch and back\<close>

definition saved_memory :: "cpu \<Rightarrow> usize \<Rightarrow> mem" where
  "saved_memory c p = wr_words (memory c) p (saved_words c)"

lemma ctx_read_cong: "(\<And>x. p \<le> x \<Longrightarrow> x < p + 168 \<Longrightarrow> m x = m' x) \<Longrightarrow> ctx_read m p = ctx_read m' p"
  unfolding ctx_read_def by (simp add: rd64_cong [where m = m and m' = m'])

lemma timer_isr_resumes:
  assumes "regs c RSP = p + 128" "p + 168 < 2 ^ 64" "\<forall>r. regs c r < 2 ^ 64"
    and "H p (saved_memory c p) = Some (k, m)" "k RAX + 168 < 2 ^ 64"
  shows "\<exists>c'. run H timer_isr c = Some c' \<and> memory c' = m \<and> regs c' = ctx_regs (ctx_read m (k RAX)) \<and>
    rip c' = tc_rip (ctx_read m (k RAX)) \<and> cs c' = tc_cs (ctx_read m (k RAX)) \<and>
    rflags c' = tc_rflags (ctx_read m (k RAX)) \<and> ss c' = tc_ss (ctx_read m (k RAX)) \<and>
    (gs_base c' = gs_base c \<longleftrightarrow> from_user (interrupted c p) = from_user (ctx_read m (k RAX)) \<or> gs_base c = kernel_gs_base c)"
  using timer_isr_run [OF assms(1-3), of H] assms(4,5) unfolding saved_memory_def
  by (auto simp: resumed_def swap_gs_def Let_def)

text \<open>C33. The timer interrupt stub saves and restores every register.  When thread A is interrupted with its
  frame at \<open>p + 128\<close>, the handler is called with the address \<open>p\<close> of the saved context, and the
  stub leaves for the context the handler returns.  When a later interrupt, of whatever thread, ends with the handler
  returning \<open>p\<close> and the 168 bytes there are as they were saved, A continues with exactly the registers, the stack and the
  instruction pointer it was interrupted with.\<close>

theorem context_switch_roundtrip:
  assumes a: "regs a RSP = p + 128" "p + 168 < 2 ^ 64" "\<forall>r. regs a r < 2 ^ 64"
    and h1: "H1 p (saved_memory a p) = Some (k1, m1)" "k1 RAX + 168 < 2 ^ 64"
    and b: "regs b RSP = s + 128" "s + 168 < 2 ^ 64" "\<forall>r. regs b r < 2 ^ 64"
    and h2: "H2 s (saved_memory b s) = Some (k2, m2)" "k2 RAX = p"
    and kept: "\<forall>x. p \<le> x \<longrightarrow> x < p + 168 \<longrightarrow> m2 x = saved_memory a p x"
  shows "\<exists>a' b'. run H1 timer_isr a = Some a' \<and> memory a' = m1 \<and> rip a' = rd64 m1 (k1 RAX + 128) \<and>
    regs a' RSP = rd64 m1 (k1 RAX + 152) \<and>
    run H2 timer_isr b = Some b' \<and> memory b' = m2 \<and> (\<forall>r. r \<noteq> RSP \<longrightarrow> regs b' r = regs a r) \<and>
    rip b' = rd64 (memory a) (p + 128) \<and> cs b' = rd64 (memory a) (p + 136) \<and> rflags b' = rd64 (memory a) (p + 144) \<and>
    regs b' RSP = rd64 (memory a) (p + 152) \<and> ss b' = rd64 (memory a) (p + 160)"
proof -
  have t: "ctx_read m2 p = interrupted a p"
    using saved_context [OF a(3), of p] ctx_read_cong [of p m2 "saved_memory a p"] kept by (simp add: saved_memory_def)
  have r: "r \<noteq> RSP \<Longrightarrow> ctx_regs (interrupted a p) r = regs a r" for r by (cases r) (simp_all add: ctx_regs_def interrupted_def)
  from timer_isr_resumes [where c = a and H = H1 and k = k1, OF a h1] obtain a' where a': "run H1 timer_isr a = Some a'" "memory a' = m1"
    "rip a' = rd64 m1 (k1 RAX + 128)" "regs a' RSP = rd64 m1 (k1 RAX + 152)"
    by (auto simp: ctx_read_def ctx_regs_def)
  from timer_isr_resumes [where c = b and H = H2 and k = k2, OF b h2(1)] h2(2) a(2) t obtain b' where b': "run H2 timer_isr b = Some b'" "memory b' = m2"
    "regs b' = ctx_regs (interrupted a p)" "rip b' = tc_rip (interrupted a p)" "cs b' = tc_cs (interrupted a p)"
    "rflags b' = tc_rflags (interrupted a p)" "ss b' = tc_ss (interrupted a p)" by auto
  with a' r show ?thesis by (intro exI [of _ a'] exI [of _ b']) (simp add: interrupted_def ctx_read_def ctx_regs_def)
qed

definition sample_cpu :: cpu where
  "sample_cpu = \<lparr>regs = (\<lambda>r. if r = RSP then 4224 else 7), rip = 0, cs = 8, rflags = 0x202, ss = 0, gs_base = 0, kernel_gs_base = 0,
     memory = (\<lambda>x. if x < 4224 then 0 else 1)\<rparr>"

definition sample_handler :: handler where
  "sample_handler p m = Some (\<lambda>r. p, m)"

theorem context_switch_roundtrip_witness:
  "\<exists>b'. run sample_handler timer_isr sample_cpu = Some b' \<and> regs b' RBX = 7 \<and> rip b' = rd64 (memory sample_cpu) 4224"
proof -
  have "\<exists>a' b'. run sample_handler timer_isr sample_cpu = Some a' \<and> memory a' = saved_memory sample_cpu 4096 \<and>
    rip a' = rd64 (saved_memory sample_cpu 4096) (4096 + 128) \<and>
    regs a' RSP = rd64 (saved_memory sample_cpu 4096) (4096 + 152) \<and>
    run sample_handler timer_isr sample_cpu = Some b' \<and> memory b' = saved_memory sample_cpu 4096 \<and>
    (\<forall>r. r \<noteq> RSP \<longrightarrow> regs b' r = regs sample_cpu r) \<and>
    rip b' = rd64 (memory sample_cpu) (4096 + 128) \<and> cs b' = rd64 (memory sample_cpu) (4096 + 136) \<and>
    rflags b' = rd64 (memory sample_cpu) (4096 + 144) \<and>
    regs b' RSP = rd64 (memory sample_cpu) (4096 + 152) \<and> ss b' = rd64 (memory sample_cpu) (4096 + 160)"
    using context_switch_roundtrip [where ?H1.0 = sample_handler and ?k1.0 = "\<lambda>r. 4096" and ?H2.0 = sample_handler and ?k2.0 = "\<lambda>r. 4096" and s = 4096 and p = 4096
      and a = sample_cpu and b = sample_cpu and ?m1.0 = "saved_memory sample_cpu 4096" and ?m2.0 = "saved_memory sample_cpu 4096"]
    by (simp add: sample_cpu_def sample_handler_def)
  then show ?thesis by (auto simp: sample_cpu_def)
qed

end
