(* ===== verification/Scheduler.thy ===== *)
theory Scheduler
  imports Thread_Context Rbtree_Props Arena Paging
begin

text \<open>
  Threads, processes and the scheduler of \<^verbatim>\<open>src/process/process.rs\<close>.

  The run queue is the tree of \<^verbatim>\<open>src/rbtree.c\<close>; its nodes are boxes on the kernel heap, here the store
  \<open>node_heap\<close>.  Where the heap puts a box or a stack is an argument of the operation that allocates it.  The
  registers that a switch writes (\<open>CR3\<close>, the stack pointers of \<open>PER_CPU_0\<close> and of the task state
  segment) and the atomics of \<open>CURRENT_BOUNDS\<close> are part of the state.  \<open>None\<close> is a panic.
\<close>

section \<open>Data\<close>

datatype thread_state = Running | Ready | Sleeping | Blocked | Zombie

definition MAX_FDS :: nat where "MAX_FDS = 1024"

text \<open>An open file is a reference counted object; a descriptor holds its address.\<close>

record process =
  pid :: usize
  ppid :: usize
  exit_code :: "int option"
  is_zombie :: bool
  wait_queue :: "usize list"
  page_table :: usize
  heap_start :: usize
  program_break :: usize
  stack_start :: usize
  stack_end :: usize
  fd_table :: "usize option list"

record thread =
  tid :: usize
  th_pid :: usize
  stack_pointer :: usize
  state :: thread_state
  th_page_table :: usize
  stack_ptr :: usize
  stack_len :: usize
  weight :: usize
  real_runtime :: usize
  vruntime :: usize
  lag :: int
  time_slice :: usize
  deadline :: usize
  burst_score :: usize
  rb_node :: usize
  next_waiter :: "usize option"
  join_queue :: "usize list"

record current_bounds =
  cb_heap_start :: usize
  cb_program_break :: usize
  cb_stack_start :: usize
  cb_stack_end :: usize

definition bounds_new :: current_bounds where
  "bounds_new = \<lparr>cb_heap_start = 0, cb_program_break = 0, cb_stack_start = 0, cb_stack_end = 0\<rparr>"

definition update_bounds :: "process \<Rightarrow> current_bounds" where
  "update_bounds p = \<lparr>cb_heap_start = heap_start p, cb_program_break = program_break p,
     cb_stack_start = stack_start p, cb_stack_end = stack_end p\<rparr>"

record scheduler =
  processes :: "process option list"
  tasks :: "thread thread_arena"
  total_weight :: usize
  system_runtime :: usize
  current_task :: "usize option"
  tree_root :: usize
  idle_task_id :: "usize option"
  graveyard :: "usize list"

record kernel =
  sched :: scheduler
  node_heap :: nodes
  bounds :: current_bounds
  cr3 :: usize
  kernel_rsp :: usize
  tss_rsp0 :: usize
  phys :: buddy_st

definition scheduler_new :: scheduler where
  "scheduler_new = \<lparr>processes = [], tasks = arena_new, total_weight = 0, system_runtime = 0, current_task = None,
     tree_root = 0, idle_task_id = None, graveyard = []\<rparr>"

abbreviation task_at :: "kernel \<Rightarrow> usize \<Rightarrow> thread option" where
  "task_at k i \<equiv> arena_get (tasks (sched k)) i"

abbreviation set_sched :: "(scheduler \<Rightarrow> scheduler) \<Rightarrow> kernel \<Rightarrow> kernel" where
  "set_sched f k \<equiv> k\<lparr>sched := f (sched k)\<rparr>"

definition upd_task :: "usize \<Rightarrow> (thread \<Rightarrow> thread) \<Rightarrow> kernel \<Rightarrow> kernel" where
  "upd_task i f k = set_sched (\<lambda>s. s\<lparr>tasks := arena_update i f (tasks s)\<rparr>) k"

text \<open>\<^verbatim>\<open>processes.get(pid)\<close> with a process in the slot.\<close>

definition process_at :: "kernel \<Rightarrow> usize \<Rightarrow> process option" where
  "process_at k p = (if p < length (processes (sched k)) then processes (sched k) ! p else None)"

definition upd_process :: "usize \<Rightarrow> (process \<Rightarrow> process) \<Rightarrow> kernel \<Rightarrow> kernel" where
  "upd_process p f k = set_sched (\<lambda>s. s\<lparr>processes := (processes s)[p := map_option f (processes s ! p)]\<rparr>) k"

section \<open>Arithmetic on signed values\<close>

text \<open>A cast from \<open>u64\<close> to \<open>i64\<close> reinterprets the bits; subtraction of \<open>i64\<close> panics on overflow.\<close>

definition as_i64 :: "usize \<Rightarrow> int" where
  "as_i64 n = (if n < 2 ^ 63 then int n else int n - 2 ^ 64)"

definition isub :: "int \<Rightarrow> int \<Rightarrow> int option" where
  "isub a b = (if - (2 ^ 63) \<le> a - b \<and> a - b < 2 ^ 63 then Some (a - b) else None)"

section \<open>Threads\<close>

definition KERNEL_STACK_SIZE :: usize where "KERNEL_STACK_SIZE = 0x400 * 128"
definition USER_STACK_SIZE :: usize where "USER_STACK_SIZE = 0x400000"
definition SCHEDULER_TARGET_LATENCY :: usize where "SCHEDULER_TARGET_LATENCY = 6 * 1000000"
definition SCHEDULER_MIN_GRANULARITY :: usize where "SCHEDULER_MIN_GRANULARITY = 4 * 1000000"
definition NICE_0_LOAD :: usize where "NICE_0_LOAD = 1024"

definition effective_weight :: "thread \<Rightarrow> usize option" where
  "effective_weight t = do {
     penalty_points \<leftarrow> udiv (burst_score t) SCHEDULER_MIN_GRANULARITY;
     w \<leftarrow> ushr (weight t) penalty_points;
     Some (max 1 w)
   }"

definition update_deadline :: "thread \<Rightarrow> thread option" where
  "update_deadline t = do {
     eff_weight \<leftarrow> effective_weight t;
     rr \<leftarrow> ushl (real_runtime t) 20;
     v \<leftarrow> udiv rr eff_weight;
     ts \<leftarrow> ushl (time_slice t) 20;
     virtual_slice \<leftarrow> udiv ts eff_weight;
     d \<leftarrow> uadd v virtual_slice;
     Some (t\<lparr>vruntime := v, deadline := d\<rparr>)
   }"

definition set_priority :: "usize \<Rightarrow> thread \<Rightarrow> thread" where
  "set_priority priority t = t\<lparr>weight := priority\<rparr>"

text \<open>\<open>Thread::new\<close>, on a stack that the heap puts at \<open>stk\<close>; \<open>exit_thread\<close> is the address of that function.\<close>

definition start_context :: "usize \<Rightarrow> usize \<Rightarrow> thread_context" where
  "start_context entry_point return_addr_ptr =
     \<lparr>tc_r15 = 0, tc_r14 = 0, tc_r13 = 0, tc_r12 = 0, tc_r11 = 0, tc_r10 = 0, tc_r9 = 0, tc_r8 = 0, tc_rdi = 0, tc_rsi = 0,
      tc_rbp = 0, tc_rbx = 0, tc_rdx = 0, tc_rcx = 0, tc_rax = 0, tc_error_code = 0,
      tc_rip = entry_point, tc_cs = 0x8, tc_rflags = 0x202, tc_rsp = return_addr_ptr, tc_ss = 0\<rparr>"

definition thread_new :: "usize \<Rightarrow> usize \<Rightarrow> scheduler \<Rightarrow> usize \<Rightarrow> usize \<Rightarrow> mem \<Rightarrow> (thread \<times> mem) option" where
  "thread_new exit_thread stk s entry_point wt m = do {
     let m = wr_bytes m stk 0 KERNEL_STACK_SIZE;
     stack_end \<leftarrow> uadd stk KERNEL_STACK_SIZE;
     return_addr_ptr \<leftarrow> usub stack_end 8;
     let m = wr64 m return_addr_ptr exit_thread;
     initial_rsp \<leftarrow> usub return_addr_ptr CONTEXT_SIZE;
     let m = ctx_write m initial_rsp (start_context entry_point return_addr_ptr);
     w \<leftarrow> umul wt SCHEDULER_TARGET_LATENCY;
     sl \<leftarrow> udiv w (if total_weight s > 0 then total_weight s else wt);
     let slice = max SCHEDULER_MIN_GRANULARITY sl;
     lg \<leftarrow> isub (as_i64 (system_runtime s)) (as_i64 0);
     d \<leftarrow> umul slice NICE_0_LOAD;
     d \<leftarrow> ushl d 20;
     d \<leftarrow> udiv d wt;
     d \<leftarrow> uadd 0 d;
     Some (\<lparr>tid = 0, th_pid = 0, stack_pointer = initial_rsp, state = Ready, th_page_table = 0, stack_ptr = stk,
       stack_len = KERNEL_STACK_SIZE, weight = wt, real_runtime = 0, vruntime = 0, lag = lg, time_slice = slice, deadline = d,
       burst_score = 0, rb_node = 0, next_waiter = None, join_queue = []\<rparr>, m)
   }"

section \<open>The scheduler\<close>

definition reap_one :: "pt_ops \<Rightarrow> kernel \<Rightarrow> kernel option" where
  "reap_one P k =
     (case graveyard (sched k) of
        [] \<Rightarrow> None
      | zombie_id # gs \<Rightarrow>
          let k = set_sched (\<lambda>s. s\<lparr>graveyard := gs\<rparr>) k in
          if Some zombie_id \<noteq> current_task (sched k) then
            (let (dead, ts) = arena_remove zombie_id (tasks (sched k));
                 k = set_sched (\<lambda>s. s\<lparr>tasks := ts\<rparr>) k in
             case dead of
               None \<Rightarrow> Some k
             | Some dead_thread \<Rightarrow>
                 (case process_at k (th_pid dead_thread) of
                    Some p \<Rightarrow>
                      if ppid p = 0 then do {
                        let k = set_sched (\<lambda>s. s\<lparr>processes := (processes s)[th_pid dead_thread := None]\<rparr>) k;
                        s \<leftarrow> destroy_user_address_space P (page_table p) (phys k);
                        Some (k\<lparr>phys := s\<rparr>) }
                      else Some k
                  | None \<Rightarrow> Some k))
          else Some (set_sched (\<lambda>s. s\<lparr>graveyard := graveyard s @ [zombie_id]\<rparr>) k))"

definition reap_zombies :: "pt_ops \<Rightarrow> kernel \<Rightarrow> kernel option" where
  "reap_zombies P k = for_in [0..<length (graveyard (sched k))] (\<lambda>_. reap_one P) k"

text \<open>The fields of the node of a thread before it is inserted, and \<open>rbtree_insert\<close> on the root of the scheduler.\<close>

definition rq_insert :: "usize \<Rightarrow> kernel \<Rightarrow> kernel option" where
  "rq_insert node k = do {
     (root, h) \<leftarrow> rbtree_insert (tree_root (sched k)) node (node_heap k);
     Some (k\<lparr>sched := (sched k)\<lparr>tree_root := root\<rparr>, node_heap := h\<rparr>)
   }"

definition requeue :: "thread \<Rightarrow> kernel \<Rightarrow> kernel option" where
  "requeue t k = do {
     h \<leftarrow> store (rb_node t) (\<lambda>n. n\<lparr>sn_vruntime := vruntime t, sn_deadline := deadline t\<rparr>) (node_heap k);
     rq_insert (rb_node t) (k\<lparr>node_heap := h\<rparr>)
   }"

text \<open>The box of the node of a new thread is allocated at \<open>node\<close>.\<close>

definition add_task :: "usize \<Rightarrow> thread \<Rightarrow> kernel \<Rightarrow> (usize \<times> kernel) option" where
  "add_task node task k = do {
     w \<leftarrow> uadd (total_weight (sched k)) (weight task);
     (task_id, ts) \<leftarrow> arena_insert task (tasks (sched k));
     let k = set_sched (\<lambda>s. s\<lparr>total_weight := w, tasks := ts\<rparr>) k;
     let k = upd_task task_id (\<lambda>t. t\<lparr>tid := task_id\<rparr>) k;
     let new_node = \<lparr>sn_vruntime = vruntime task, sn_task_id = task_id, sn_deadline = deadline task,
           sn_min_deadline = deadline task, sn_left = 0, sn_right = 0, parent_and_color = 0\<rparr>;
     let k = k\<lparr>node_heap := (node_heap k)(node \<mapsto> new_node)\<rparr>;
     let k = upd_task task_id (\<lambda>t. t\<lparr>rb_node := node\<rparr>) k;
     k \<leftarrow> rq_insert node k;
     Some (task_id, k)
   }"

definition set_idle_task :: "thread \<Rightarrow> kernel \<Rightarrow> kernel option" where
  "set_idle_task task k = do {
     (task_id, ts) \<leftarrow> arena_insert task (tasks (sched k));
     let k = set_sched (\<lambda>s. s\<lparr>tasks := ts\<rparr>) k;
     let k = upd_task task_id (\<lambda>t. t\<lparr>tid := task_id\<rparr>) k;
     Some (set_sched (\<lambda>s. s\<lparr>idle_task_id := Some task_id\<rparr>) k)
   }"

definition sleep_current_task :: "kernel \<Rightarrow> kernel option" where
  "sleep_current_task k =
     (case current_task (sched k) of
        None \<Rightarrow> Some k
      | Some i \<Rightarrow> do { t \<leftarrow> task_at k i; Some (upd_task i (\<lambda>t. t\<lparr>state := Sleeping\<rparr>) k) })"

definition wake_task :: "usize \<Rightarrow> kernel \<Rightarrow> kernel option" where
  "wake_task i k =
     (case task_at k i of
        None \<Rightarrow> Some k
      | Some t \<Rightarrow>
          if state t = Sleeping \<or> state t = Blocked then do {
            let min_vruntime = system_runtime (sched k) - time_slice t;
            let t = t\<lparr>state := Ready, vruntime := max (vruntime t) min_vruntime, burst_score := 0\<rparr>;
            t \<leftarrow> update_deadline t;
            let k = upd_task i (\<lambda>_. t) k;
            if current_task (sched k) \<noteq> Some i then requeue t k else Some k
          } else Some k)"

text \<open>The first part of \<open>schedule\<close>: what happens to the thread that was running.\<close>

definition time_consumed :: usize where "time_consumed = 1000000"

definition account :: "usize \<Rightarrow> scheduler \<Rightarrow> thread \<Rightarrow> (usize \<times> thread) option" where
  "account context s t = do {
     let t = t\<lparr>stack_pointer := context\<rparr>;
     rr \<leftarrow> uadd (real_runtime t) time_consumed;
     b \<leftarrow> uadd (burst_score t) time_consumed;
     b \<leftarrow> ushr b 1;
     let t = t\<lparr>real_runtime := rr, burst_score := b\<rparr>;
     V \<leftarrow> if total_weight s > 0 then do {
            x \<leftarrow> ushl time_consumed 20;
            x \<leftarrow> udiv x (total_weight s);
            uadd (system_runtime s) x }
          else Some (system_runtime s);
     t \<leftarrow> update_deadline t;
     lg \<leftarrow> isub (as_i64 V) (as_i64 (vruntime t));
     Some (V, t\<lparr>lag := lg\<rparr>)
   }"

definition leave_current :: "usize \<Rightarrow> kernel \<Rightarrow> kernel option" where
  "leave_current context k =
     (case current_task (sched k) of
        None \<Rightarrow> Some k
      | Some task_idx \<Rightarrow>
          (case task_at k task_idx of
             None \<Rightarrow> Some k
           | Some task \<Rightarrow>
               if state task = Zombie then
                 (let k = (if rb_node task \<noteq> 0 then k\<lparr>node_heap := (node_heap k)(rb_node task := None)\<rparr> else k);
                      k = set_sched (\<lambda>s. s\<lparr>graveyard := graveyard s @ [task_idx]\<rparr>) k
                  in Some (upd_task task_idx (\<lambda>t. t\<lparr>rb_node := 0\<rparr>) k))
               else do {
                 (V, task) \<leftarrow> account context (sched k) task;
                 let k = set_sched (\<lambda>s. s\<lparr>system_runtime := V\<rparr>) (upd_task task_idx (\<lambda>_. task) k);
                 if state task = Ready then do {
                   idle \<leftarrow> idle_task_id (sched k);
                   if tid task \<noteq> idle then requeue task k else Some k }
                 else Some k
               }))"

text \<open>The second part: the idle task, or the thread of the node that was picked.\<close>

definition stack_top :: "thread \<Rightarrow> usize option" where
  "stack_top t = uadd (stack_ptr t) (stack_len t)"

definition enter_bounds :: "usize \<Rightarrow> kernel \<Rightarrow> kernel" where
  "enter_bounds p k = (case process_at k p of Some pr \<Rightarrow> k\<lparr>bounds := update_bounds pr\<rparr> | None \<Rightarrow> k)"

definition enter_idle :: "kernel \<Rightarrow> (usize \<times> kernel) option" where
  "enter_idle k = do {
     idle \<leftarrow> idle_task_id (sched k);
     let k = set_sched (\<lambda>s. s\<lparr>current_task := Some idle\<rparr>) k;
     task \<leftarrow> task_at k idle;
     let k = enter_bounds (th_pid task) k;
     top \<leftarrow> stack_top task;
     Some (stack_pointer task, k\<lparr>kernel_rsp := top\<rparr>)
   }"

definition enter_task :: "pt_ops \<Rightarrow> usize \<Rightarrow> kernel \<Rightarrow> (usize \<times> kernel) option" where
  "enter_task P winner_idx k = do {
     prev_pid \<leftarrow> (case current_task (sched k) of
                   Some prev_idx \<Rightarrow> do { t \<leftarrow> task_at k prev_idx; Some (th_pid t) }
                 | None \<Rightarrow> Some (2 ^ 64 - 1));
     let k = set_sched (\<lambda>s. s\<lparr>current_task := Some winner_idx\<rparr>) k;
     task \<leftarrow> task_at k winner_idx;
     let next_pid = th_pid task;
     let k = enter_bounds next_pid k;
     k \<leftarrow> (if prev_pid \<noteq> next_pid then do {
              pr \<leftarrow> process_at k next_pid;
              a \<leftarrow> phys_addr_new P (page_table pr);
              Some (k\<lparr>cr3 := a\<rparr>) }
            else Some k);
     top \<leftarrow> stack_top task;
     a \<leftarrow> virt_addr_new P top;
     Some (stack_pointer task, k\<lparr>kernel_rsp := top, tss_rsp0 := a\<rparr>)
   }"

definition pick_next :: "pt_ops \<Rightarrow> kernel \<Rightarrow> (usize \<times> kernel) option" where
  "pick_next P k = do {
     leftmost_node \<leftarrow> rbtree_pick_eevdf (node_heap k) (tree_root (sched k)) (system_runtime (sched k));
     if leftmost_node = 0 then enter_idle k
     else do {
       (root, h) \<leftarrow> rbtree_remove (tree_root (sched k)) leftmost_node (node_heap k);
       n \<leftarrow> load leftmost_node h;
       enter_task P (sn_task_id n) (k\<lparr>sched := (sched k)\<lparr>tree_root := root\<rparr>, node_heap := h\<rparr>)
     }
   }"

definition schedule :: "pt_ops \<Rightarrow> usize \<Rightarrow> kernel \<Rightarrow> (usize \<times> kernel) option" where
  "schedule P context k =
     (if arena_is_empty (tasks (sched k)) then Some (context, k)
      else do {
        k \<leftarrow> reap_zombies P k;
        k \<leftarrow> leave_current context k;
        pick_next P k
      })"

section \<open>Waiting and exiting\<close>

text \<open>\<open>WaitQueue::wake_all\<close> on a queue of waiters.\<close>

definition wake_all :: "usize list \<Rightarrow> kernel \<Rightarrow> kernel option" where
  "wake_all waiters k = for_in waiters wake_task k"

text \<open>\<open>exit_thread\<close> up to the interrupt that leaves the thread for good.\<close>

definition exit_thread :: "kernel \<Rightarrow> kernel option" where
  "exit_thread k = do {
     tid \<leftarrow> current_task (sched k);
     t \<leftarrow> task_at k tid;
     let k = upd_task tid (\<lambda>t. t\<lparr>state := Zombie\<rparr>) k;
     k \<leftarrow> wake_all (join_queue t) k;
     Some (upd_task tid (\<lambda>t. t\<lparr>join_queue := []\<rparr>) k)
   }"

text \<open>\<open>join\<close> up to the interrupt; the flag says whether the caller yields.\<close>

definition join :: "usize \<Rightarrow> kernel \<Rightarrow> (bool \<times> kernel) option" where
  "join target_tid k = do {
     current_id \<leftarrow> current_task (sched k);
     if current_id = target_tid then Some (False, k)
     else (case task_at k target_tid of
         None \<Rightarrow> Some (False, k)
       | Some target \<Rightarrow>
           if state target = Zombie then Some (False, k)
           else do {
             cur \<leftarrow> task_at k current_id;
             let k = upd_task current_id (\<lambda>t. t\<lparr>state := Blocked\<rparr>) k;
             Some (True, upd_task target_tid (\<lambda>t. t\<lparr>join_queue := join_queue t @ [current_id]\<rparr>) k) })
   }"

text \<open>\<open>spawn\<close>: the stack is put at \<open>stk\<close> and the node at \<open>node\<close>.\<close>

definition spawn :: "usize \<Rightarrow> usize \<Rightarrow> usize \<Rightarrow> usize \<Rightarrow> usize \<Rightarrow> kernel \<Rightarrow> (usize \<times> kernel) option" where
  "spawn exit_addr stk node entry_point wt k = do {
     (t, m) \<leftarrow> thread_new exit_addr stk (sched k) entry_point wt (fst (phys k));
     add_task node t (k\<lparr>phys := (m, snd (phys k))\<rparr>)
   }"

end
