(* ===== verification/Scheduler_Inv.thy ===== *)
theory Scheduler_Inv
  imports Scheduler
begin

text \<open>
  The invariant of the scheduler: the tree holds exactly the threads that are ready to run, apart from
  the running one and the idle task.  Every operation keeps it.
\<close>

section \<open>The invariant\<close>

definition runnable :: "kernel \<Rightarrow> usize set" where
  "runnable k = {i. (\<exists>t. task_at k i = Some t \<and> state t = Ready) \<and> current_task (sched k) \<noteq> Some i \<and> idle_task_id (sched k) \<noteq> Some i}"

definition node_of :: "kernel \<Rightarrow> usize \<Rightarrow> usize" where
  "node_of k i = rb_node (the (task_at k i))"

text \<open>The node of a thread is a box of its own that names the thread.\<close>

definition node_ok :: "nodes \<Rightarrow> usize \<Rightarrow> thread \<Rightarrow> bool" where
  "node_ok h i t \<longleftrightarrow> aligned_node (rb_node t) \<and> (\<exists>n. h (rb_node t) = Some n \<and> sn_task_id n = i)"

definition threads_ok :: "kernel \<Rightarrow> bool" where
  "threads_ok k \<longleftrightarrow> arena_inv (tasks (sched k)) \<and>
     (\<forall>i t. task_at k i = Some t \<longrightarrow> tid t = i \<and> burst_score t \<le> 1000000 \<and>
        (i \<notin> set (graveyard (sched k)) \<longrightarrow> idle_task_id (sched k) \<noteq> Some i \<longrightarrow> node_ok (node_heap k) i t)) \<and>
     (\<forall>c. current_task (sched k) = Some c \<longrightarrow> task_at k c \<noteq> None) \<and>
     (\<forall>d. idle_task_id (sched k) = Some d \<longrightarrow> (\<exists>t. task_at k d = Some t \<and> state t = Ready) \<and> d \<notin> set (graveyard (sched k))) \<and>
     (\<forall>z \<in> set (graveyard (sched k)). \<exists>t. task_at k z = Some t \<and> state t = Zombie) \<and>
     distinct (graveyard (sched k))"

text \<open>\<open>queue_ok Q k\<close>: the tree holds the nodes of the threads \<open>Q\<close>, under their vruntimes.\<close>

definition queue_ok :: "usize set \<Rightarrow> kernel \<Rightarrow> bool" where
  "queue_ok Q k \<longleftrightarrow> rb_set (tree_root (sched k)) (node_heap k) (node_of k ` Q) \<and>
     (\<forall>i \<in> Q. task_at k i \<noteq> None \<and> i \<notin> set (graveyard (sched k)) \<and> idle_task_id (sched k) \<noteq> Some i \<and>
        vr (node_heap k) (node_of k i) = vruntime (the (task_at k i)))"

definition current_ok :: "kernel \<Rightarrow> bool" where
  "current_ok k \<longleftrightarrow> (\<forall>c. current_task (sched k) = Some c \<longrightarrow> c \<notin> set (graveyard (sched k)))"

definition sched_inv :: "kernel \<Rightarrow> bool" where
  "sched_inv k \<longleftrightarrow> threads_ok k \<and> current_ok k \<and> queue_ok (runnable k) k"

lemma runnable_listed:
  assumes "threads_ok k"
  shows "\<forall>i \<in> runnable k. task_at k i \<noteq> None \<and> i \<notin> set (graveyard (sched k)) \<and> idle_task_id (sched k) \<noteq> Some i"
proof
  fix i assume i: "i \<in> runnable k"
  then obtain t where "task_at k i = Some t" "state t = Ready" "idle_task_id (sched k) \<noteq> Some i" unfolding runnable_def by blast
  moreover from this assms have "i \<notin> set (graveyard (sched k))" unfolding threads_ok_def by fastforce
  ultimately show "task_at k i \<noteq> None \<and> i \<notin> set (graveyard (sched k)) \<and> idle_task_id (sched k) \<noteq> Some i" by simp
qed

lemma threads_node: "threads_ok k \<Longrightarrow> task_at k i = Some t \<Longrightarrow> i \<notin> set (graveyard (sched k)) \<Longrightarrow> idle_task_id (sched k) \<noteq> Some i \<Longrightarrow> node_ok (node_heap k) i t"
  unfolding threads_ok_def by blast

lemma node_ok_inj: "node_ok h i t \<Longrightarrow> node_ok h j u \<Longrightarrow> rb_node t = rb_node u \<Longrightarrow> i = j"
  unfolding node_ok_def by auto

lemma node_ok_data:
  assumes "\<And>p. map_option payload (h' p) = map_option payload (h p)"
  shows "node_ok h' i t = node_ok h i t"
proof -
  have "(\<exists>n. h' p = Some n \<and> sn_task_id n = i) \<longleftrightarrow> (\<exists>n. h p = Some n \<and> sn_task_id n = i)" for p
    using assms [of p] by (cases "h p"; cases "h' p") (auto simp: payload_def)
  then show ?thesis unfolding node_ok_def by simp
qed

lemma node_not_queued:
  assumes "threads_ok k" "queue_ok Q k" "i \<notin> Q" "task_at k i = Some t" "node_ok (node_heap k) i t"
  shows "rb_node t \<notin> node_of k ` Q"
proof
  assume "rb_node t \<in> node_of k ` Q"
  then obtain j where j: "j \<in> Q" "rb_node t = node_of k j" by blast
  from assms(2) j(1) obtain u where u: "task_at k j = Some u" "j \<notin> set (graveyard (sched k))" "idle_task_id (sched k) \<noteq> Some j"
    unfolding queue_ok_def by blast
  from node_ok_inj [OF assms(5) threads_node [OF assms(1) u]] j u assms(3) show False by (auto simp: node_of_def)
qed

section \<open>Arithmetic\<close>

text \<open>The values of the clocks are within the range of the computations.\<close>

definition clock_ok :: "kernel \<Rightarrow> bool" where
  "clock_ok k \<longleftrightarrow> system_runtime (sched k) < 2 ^ 62 \<and>
     (\<forall>i t. task_at k i = Some t \<longrightarrow> real_runtime t + 1000000 < 2 ^ 43 \<and> time_slice t < 2 ^ 42)"

definition with_deadline :: "thread \<Rightarrow> thread" where
  "with_deadline t = (let w = max 1 (weight t); v = real_runtime t * 2 ^ 20 div w in
     t\<lparr>vruntime := v, deadline := v + time_slice t * 2 ^ 20 div w\<rparr>)"

lemma effective_weight_eq: "burst_score t \<le> 1000000 \<Longrightarrow> effective_weight t = Some (max 1 (weight t))"
  by (simp add: effective_weight_def SCHEDULER_MIN_GRANULARITY_def checked_ok)

lemma update_deadline_ok:
  assumes "burst_score t \<le> 1000000" "real_runtime t < 2 ^ 43" "time_slice t < 2 ^ 42"
  shows "update_deadline t = Some (with_deadline t)" "vruntime (with_deadline t) < 2 ^ 63"
proof -
  define w where "w = max 1 (weight t)"
  have w: "w \<ge> 1" "w \<noteq> 0" by (simp_all add: w_def)
  define a where "a = real_runtime t * 2 ^ 20" define b where "b = time_slice t * 2 ^ 20"
  have ab: "a < 2 ^ 63" "b < 2 ^ 62" using assms(2,3) by (simp_all add: a_def b_def)
  have le: "a div w < 2 ^ 63" "b div w < 2 ^ 62" using ab div_le_dividend le_less_trans by blast+
  have "ushl (real_runtime t) 20 = Some a" "ushl (time_slice t) 20 = Some b" using ab unfolding a_def b_def by (intro ushl_ok; simp)+
  moreover have "uadd (a div w) (b div w) = Some (a div w + b div w)" by (rule uadd_ok) (use le in simp)
  moreover have "effective_weight t = Some w" using assms(1) by (simp add: effective_weight_eq w_def)
  moreover have wd: "with_deadline t = t\<lparr>vruntime := a div w, deadline := a div w + b div w\<rparr>"
    by (simp add: with_deadline_def Let_def a_def b_def w_def)
  ultimately show "update_deadline t = Some (with_deadline t)" using w(2) by (simp add: update_deadline_def udiv_ok)
  show "vruntime (with_deadline t) < 2 ^ 63" unfolding wd using le by simp
qed

lemma with_deadline_fields [simp]:
  "tid (with_deadline t) = tid t" "state (with_deadline t) = state t" "rb_node (with_deadline t) = rb_node t"
  "burst_score (with_deadline t) = burst_score t" "stack_pointer (with_deadline t) = stack_pointer t" "th_pid (with_deadline t) = th_pid t"
  "time_slice (with_deadline t) = time_slice t" "real_runtime (with_deadline t) = real_runtime t" "join_queue (with_deadline t) = join_queue t"
  "stack_ptr (with_deadline t) = stack_ptr t" "stack_len (with_deadline t) = stack_len t" "weight (with_deadline t) = weight t"
  by (simp_all add: with_deadline_def Let_def)


section \<open>Updating a thread\<close>

lemma upd_task_fields [simp]:
  "node_heap (upd_task i f k) = node_heap k" "bounds (upd_task i f k) = bounds k" "cr3 (upd_task i f k) = cr3 k"
  "kernel_rsp (upd_task i f k) = kernel_rsp k" "tss_rsp0 (upd_task i f k) = tss_rsp0 k" "phys (upd_task i f k) = phys k"
  "processes (sched (upd_task i f k)) = processes (sched k)" "total_weight (sched (upd_task i f k)) = total_weight (sched k)"
  "system_runtime (sched (upd_task i f k)) = system_runtime (sched k)" "current_task (sched (upd_task i f k)) = current_task (sched k)"
  "tree_root (sched (upd_task i f k)) = tree_root (sched k)" "idle_task_id (sched (upd_task i f k)) = idle_task_id (sched k)"
  "graveyard (sched (upd_task i f k)) = graveyard (sched k)" "process_at (upd_task i f k) p = process_at k p"
  by (simp_all add: upd_task_def process_at_def)

lemma task_upd:
  assumes "arena_inv (tasks (sched k))"
  shows "task_at (upd_task i f k) j = (if j = i then map_option f (task_at k i) else task_at k j)"
    "arena_inv (tasks (sched (upd_task i f k)))"
  using ar.upd_ok [OF assms, of i f] by (simp_all add: upd_task_def)

lemma threads_arena: "threads_ok k \<Longrightarrow> arena_inv (tasks (sched k))"
  unfolding threads_ok_def by blast

lemma node_ok_cong: "rb_node u = rb_node t \<Longrightarrow> node_ok h i u = node_ok h i t"
  by (simp add: node_ok_def)

lemma upd_task_ok:
  assumes t: "threads_ok k" "task_at k i = Some t" and u: "tid (f t) = tid t" "burst_score (f t) \<le> 1000000" "rb_node (f t) = rb_node t"
    and s: "idle_task_id (sched k) = Some i \<Longrightarrow> state (f t) = Ready" "i \<in> set (graveyard (sched k)) \<Longrightarrow> state (f t) = Zombie"
  shows "threads_ok (upd_task i f k)" "queue_ok Q k \<Longrightarrow> i \<notin> Q \<Longrightarrow> queue_ok Q (upd_task i f k)"
proof -
  note a = task_upd [OF threads_arena [OF t(1)]]
  have n: "node_of (upd_task i f k) j = node_of k j" for j using t(2) u(3) by (simp add: node_of_def a)
  show "threads_ok (upd_task i f k)"
    using t u s node_ok_cong [of "f t" t] unfolding threads_ok_def by (auto simp: a)
  assume "queue_ok Q k" "i \<notin> Q"
  then show "queue_ok Q (upd_task i f k)" unfolding queue_ok_def n by (auto simp: a)
qed

lemma runnable_upd:
  assumes "arena_inv (tasks (sched k))" "task_at k i = Some t"
  shows "runnable (upd_task i f k) = runnable k - {i} \<union>
    (if state (f t) = Ready \<and> current_task (sched k) \<noteq> Some i \<and> idle_task_id (sched k) \<noteq> Some i then {i} else {})"
  using assms(2) unfolding runnable_def by (auto simp: task_upd [OF assms(1)])

section \<open>Queueing a thread\<close>

abbreviation with_queue :: "usize \<Rightarrow> nodes \<Rightarrow> kernel \<Rightarrow> kernel" where
  "with_queue root h k \<equiv> k\<lparr>sched := (sched k)\<lparr>tree_root := root\<rparr>, node_heap := h\<rparr>"

lemma threads_queue:
  assumes "threads_ok k" "\<And>i t. node_ok (node_heap k) i t \<Longrightarrow> node_ok h i t"
  shows "threads_ok (with_queue root h k)"
  using assms unfolding threads_ok_def by auto

lemma rq_insert_ok:
  assumes k: "threads_ok k" "queue_ok Q k" and t: "task_at k i = Some t" "i \<notin> Q" "i \<notin> set (graveyard (sched k))" "idle_task_id (sched k) \<noteq> Some i"
    and v: "vr (node_heap k) (rb_node t) = vruntime t"
  shows "\<exists>root h. rq_insert (rb_node t) k = Some (with_queue root h k) \<and> threads_ok (with_queue root h k) \<and> queue_ok (insert i Q) (with_queue root h k)"
proof -
  note n = threads_node [OF k(1) t(1,3,4)]
  have nq: "rb_node t \<notin> node_of k ` Q" by (rule node_not_queued [OF k t(2,1) n])
  from tq.inserting [OF _ nq, of "tree_root (sched k)" "node_heap k"] k(2) n obtain root h where
    r: "rbtree_insert (tree_root (sched k)) (rb_node t) (node_heap k) = Some (root, h)" "rb_set root h (insert (rb_node t) (node_of k ` Q))"
      "\<And>p. map_option payload (h p) = map_option payload (node_heap k p)" unfolding queue_ok_def node_ok_def by blast
  have vr: "vr h = vr (node_heap k)" by (rule ext, rule same_payload_vr) (simp add: same_payload_def r(3))
  have "rq_insert (rb_node t) k = Some (with_queue root h k)" using r(1) by (simp add: rq_insert_def)
  moreover have "threads_ok (with_queue root h k)" by (rule threads_queue [OF k(1)]) (simp add: node_ok_data [OF r(3)])
  moreover have "queue_ok (insert i Q) (with_queue root h k)"
    using r(2) k(2) t v vr unfolding queue_ok_def by (auto simp: node_of_def)
  ultimately show ?thesis by blast
qed

lemma heap_upd_ok:
  assumes k: "threads_ok k" "queue_ok Q k" and p: "p \<notin> node_of k ` Q"
    and n: "\<And>i t. task_at k i = Some t \<Longrightarrow> i \<notin> set (graveyard (sched k)) \<Longrightarrow> idle_task_id (sched k) \<noteq> Some i \<Longrightarrow>
      rb_node t = p \<Longrightarrow> \<exists>n. v = Some n \<and> sn_task_id n = i"
  shows "threads_ok (k\<lparr>node_heap := (node_heap k)(p := v)\<rparr>)" "queue_ok Q (k\<lparr>node_heap := (node_heap k)(p := v)\<rparr>)"
proof -
  have "node_ok (node_heap k) i t \<Longrightarrow> task_at k i = Some t \<Longrightarrow> i \<notin> set (graveyard (sched k)) \<Longrightarrow> idle_task_id (sched k) \<noteq> Some i \<Longrightarrow>
      node_ok ((node_heap k)(p := v)) i t" for i t using n [of i t] unfolding node_ok_def by auto
  then show "threads_ok (k\<lparr>node_heap := (node_heap k)(p := v)\<rparr>)" using k(1) unfolding threads_ok_def by simp
  show "queue_ok Q (k\<lparr>node_heap := (node_heap k)(p := v)\<rparr>)"
    using k(2) p tq.outside [OF _ p, of "tree_root (sched k)" "node_heap k" v] unfolding queue_ok_def by (auto simp: node_of_def vr_def)
qed

lemma requeue_ok:
  assumes k: "threads_ok k" "queue_ok Q k" and t: "task_at k i = Some t" "i \<notin> Q" "i \<notin> set (graveyard (sched k))" "idle_task_id (sched k) \<noteq> Some i"
  shows "\<exists>root h. requeue t k = Some (with_queue root h k) \<and> threads_ok (with_queue root h k) \<and> queue_ok (insert i Q) (with_queue root h k)"
proof -
  let ?f = "\<lambda>n. n\<lparr>sn_vruntime := vruntime t, sn_deadline := deadline t\<rparr>"
  note nd = threads_node [OF k(1) t(1,3,4)]
  then obtain n where n: "node_heap k (rb_node t) = Some n" "sn_task_id n = i" unfolding node_ok_def by blast
  let ?h = "(node_heap k)(rb_node t := Some (?f n))"
  have st: "store (rb_node t) ?f (node_heap k) = Some ?h" using n(1) by (simp add: store_def upd_def)
  have own: "\<exists>m. Some (?f n) = Some m \<and> sn_task_id m = j"
    if "task_at k j = Some u" "j \<notin> set (graveyard (sched k))" "idle_task_id (sched k) \<noteq> Some j" "rb_node u = rb_node t" for j u
    using node_ok_inj [OF nd threads_node [OF k(1) that(1-3)]] that(4) n(2) by simp
  have h: "threads_ok (k\<lparr>node_heap := ?h\<rparr>)" "queue_ok Q (k\<lparr>node_heap := ?h\<rparr>)"
    by (rule heap_upd_ok [OF k node_not_queued [OF k t(2,1) nd]], rule own, assumption+)+
  have v: "vr (node_heap (k\<lparr>node_heap := ?h\<rparr>)) (rb_node t) = vruntime t" by (simp add: vr_def)
  from rq_insert_ok [OF h, where i = i and t = t] v t obtain root h where
    "rq_insert (rb_node t) (k\<lparr>node_heap := ?h\<rparr>) = Some (with_queue root h k)" "threads_ok (with_queue root h k)" "queue_ok (insert i Q) (with_queue root h k)"
    by auto
  then show ?thesis using st by (auto simp: requeue_def)
qed

section \<open>Waking a thread\<close>

text \<open>The operations on the queue change the threads, the tree and its nodes, and nothing else.\<close>

definition queue_change :: "kernel \<Rightarrow> kernel \<Rightarrow> bool" where
  "queue_change k k' \<longleftrightarrow> (\<exists>ts root h. k' = k\<lparr>sched := (sched k)\<lparr>tasks := ts, tree_root := root\<rparr>, node_heap := h\<rparr>)"

lemma queue_change_refl [simp]: "queue_change k k"
  unfolding queue_change_def by (intro exI [of _ "tasks (sched k)"] exI [of _ "tree_root (sched k)"] exI [of _ "node_heap k"]) simp

lemma queue_change_trans: "queue_change k1 k2 \<Longrightarrow> queue_change k2 k3 \<Longrightarrow> queue_change k1 k3"
  unfolding queue_change_def by (elim exE) (clarsimp, blast)

lemma queue_change_upd [simp]: "queue_change k (upd_task i f k)"
  unfolding queue_change_def upd_task_def by (intro exI [of _ "arena_update i f (tasks (sched k))"] exI [of _ "tree_root (sched k)"] exI [of _ "node_heap k"]) simp

lemma queue_change_with [simp]: "queue_change k (with_queue root h k)"
  unfolding queue_change_def by (intro exI [of _ "tasks (sched k)"] exI [of _ root] exI [of _ h]) simp

lemma queue_change_fields:
  assumes "queue_change k k'"
  shows "current_task (sched k') = current_task (sched k)" "idle_task_id (sched k') = idle_task_id (sched k)"
    "graveyard (sched k') = graveyard (sched k)" "processes (sched k') = processes (sched k)"
    "system_runtime (sched k') = system_runtime (sched k)" "total_weight (sched k') = total_weight (sched k)"
    "bounds k' = bounds k" "cr3 k' = cr3 k" "kernel_rsp k' = kernel_rsp k" "tss_rsp0 k' = tss_rsp0 k" "phys k' = phys k"
  using assms unfolding queue_change_def by auto

definition woken :: "usize \<Rightarrow> thread \<Rightarrow> thread" where
  "woken V t = (if state t = Sleeping \<or> state t = Blocked
     then with_deadline (t\<lparr>state := Ready, vruntime := max (vruntime t) (V - time_slice t), burst_score := 0\<rparr>) else t)"

lemma woken_fields [simp]:
  "tid (woken V t) = tid t" "rb_node (woken V t) = rb_node t" "stack_pointer (woken V t) = stack_pointer t" "th_pid (woken V t) = th_pid t"
  "time_slice (woken V t) = time_slice t" "real_runtime (woken V t) = real_runtime t" "join_queue (woken V t) = join_queue t"
  "stack_ptr (woken V t) = stack_ptr t" "stack_len (woken V t) = stack_len t" "weight (woken V t) = weight t"
  "state (woken V t) = (if state t = Sleeping \<or> state t = Blocked then Ready else state t)"
  "burst_score t \<le> b \<Longrightarrow> burst_score (woken V t) \<le> b"
  by (simp_all add: woken_def)

lemma wake_task_ok:
  assumes k: "sched_inv k" "clock_ok k"
  shows "\<exists>k'. wake_task i k = Some k' \<and> sched_inv k' \<and> clock_ok k' \<and> queue_change k k' \<and>
    (\<forall>j. task_at k' j = (if j = i then map_option (woken (system_runtime (sched k))) (task_at k i) else task_at k j))"
proof (cases "\<exists>t. task_at k i = Some t \<and> (state t = Sleeping \<or> state t = Blocked)")
  case False
  then have "wake_task i k = Some k" by (auto simp: wake_task_def split: option.split)
  moreover have "task_at k j = (if j = i then map_option (woken (system_runtime (sched k))) (task_at k i) else task_at k j)" for j
    using False by (cases "task_at k i") (auto simp: woken_def)
  ultimately show ?thesis using k by auto
next
  case True
  then obtain t where t: "task_at k i = Some t" "state t = Sleeping \<or> state t = Blocked" by blast
  let ?V = "system_runtime (sched k)"
  let ?u = "woken ?V t" and ?k = "upd_task i (\<lambda>_. woken ?V t) k"
  have th: "threads_ok k" "queue_ok (runnable k) k" using k(1) unfolding sched_inv_def by auto
  note a = threads_arena [OF th(1)]
  have idle: "idle_task_id (sched k) \<noteq> Some i" "i \<notin> set (graveyard (sched k))" using th(1) t unfolding threads_ok_def by fastforce+
  have b: "burst_score t \<le> 1000000" using th(1) t unfolding threads_ok_def by blast
  have c: "real_runtime t < 2 ^ 43" "time_slice t < 2 ^ 42" using k(2) t unfolding clock_ok_def by fastforce+
  have u: "update_deadline (t\<lparr>state := Ready, vruntime := max (vruntime t) (?V - time_slice t), burst_score := 0\<rparr>) = Some ?u"
    using update_deadline_ok(1) [of "t\<lparr>state := Ready, vruntime := max (vruntime t) (?V - time_slice t), burst_score := 0\<rparr>"] c t(2)
    by (simp add: woken_def)
  have w: "wake_task i k = (if current_task (sched k) \<noteq> Some i then requeue ?u ?k else Some ?k)"
    using t u by (auto simp: wake_task_def Let_def)
  have ni: "i \<notin> runnable k" using t by (auto simp: runnable_def)
  have th': "threads_ok ?k" "queue_ok (runnable k) ?k"
    using upd_task_ok [OF th(1) t(1), of "\<lambda>_. ?u"] th b idle ni by auto
  have tk: "task_at ?k j = (if j = i then map_option (woken ?V) (task_at k i) else task_at k j)" for j
    using t(1) by (simp add: task_upd [OF a])
  have cl: "clock_ok ?k" using k(2) t(1) unfolding clock_ok_def by (auto simp: task_upd [OF a])
  have run: "runnable ?k = (if current_task (sched k) \<noteq> Some i then insert i (runnable k) else runnable k)"
    using runnable_upd [OF a t(1), of "\<lambda>_. ?u"] t(2) idle(1) ni by auto
  show ?thesis
  proof (cases "current_task (sched k) = Some i")
    case True
    then show ?thesis using w th' tk cl run k(1) unfolding sched_inv_def current_ok_def by auto
  next
    case False
    have "task_at ?k i = Some ?u" using tk [of i] t(1) by simp
    from requeue_ok [OF th' this ni] idle obtain root h where
      r: "requeue ?u ?k = Some (with_queue root h ?k)" "threads_ok (with_queue root h ?k)" "queue_ok (insert i (runnable k)) (with_queue root h ?k)" by auto
    have "runnable (with_queue root h ?k) = runnable ?k" by (simp add: runnable_def)
    then have "sched_inv (with_queue root h ?k)" using r(2,3) run False k(1) unfolding sched_inv_def current_ok_def by simp
    moreover have "clock_ok (with_queue root h ?k)" using cl by (simp add: clock_ok_def)
    moreover have "queue_change k (with_queue root h ?k)" using queue_change_trans [OF queue_change_upd queue_change_with] .
    ultimately show ?thesis using w False r(1) tk by auto
  qed
qed

lemma wake_all_ok:
  assumes "sched_inv k" "clock_ok k"
  shows "\<exists>k'. wake_all ws k = Some k' \<and> sched_inv k' \<and> clock_ok k' \<and> queue_change k k' \<and>
    (\<forall>j. task_at k' j = (if j \<in> set ws then map_option (woken (system_runtime (sched k))) (task_at k j) else task_at k j))"
  using assms unfolding wake_all_def
proof (induction ws arbitrary: k)
  case (Cons w ws)
  let ?V = "system_runtime (sched k)"
  from wake_task_ok [OF Cons.prems, of w] obtain k1 where
    k1: "wake_task w k = Some k1" "sched_inv k1" "clock_ok k1" "queue_change k k1"
      "\<And>j. task_at k1 j = (if j = w then map_option (woken ?V) (task_at k w) else task_at k j)" by blast
  have V: "system_runtime (sched k1) = ?V" using queue_change_fields [OF k1(4)] by simp
  from Cons.IH [OF k1(2,3)] obtain k2 where
    k2: "for_in ws wake_task k1 = Some k2" "sched_inv k2" "clock_ok k2" "queue_change k1 k2"
      "\<And>j. task_at k2 j = (if j \<in> set ws then map_option (woken ?V) (task_at k1 j) else task_at k1 j)" unfolding V by blast
  have ww: "woken ?V (woken ?V t) = woken ?V t" for t by (simp add: woken_def)
  have "task_at k2 j = (if j \<in> set (w # ws) then map_option (woken ?V) (task_at k j) else task_at k j)" for j
    using k2(5) [of j] k1(5) [of j] by (cases "task_at k j") (auto simp: ww)
  then show ?case using k1(1) k2(1-3) queue_change_trans [OF k1(4) k2(4)] by auto
qed simp


section \<open>New threads\<close>

lemma insert_task_ok:
  assumes k: "threads_ok k" "queue_ok Q k" and b: "burst_score t \<le> 1000000" "state t = Ready"
    and i: "arena_insert u (tasks (sched k)) = Some (i, ts)" "task_at k i = None" "arena_inv ts'" "arena_get ts' = (task_at k)(i \<mapsto> t)" "tid t = i"
  shows "i \<notin> Q" "i \<notin> set (graveyard (sched k))" "current_task (sched k) \<noteq> Some i" "idle_task_id (sched k) \<noteq> Some i"
    "node_ok (node_heap k) i t \<Longrightarrow> threads_ok (set_sched (\<lambda>s. s\<lparr>tasks := ts'\<rparr>) k)"
    "queue_ok Q (set_sched (\<lambda>s. s\<lparr>tasks := ts'\<rparr>) k)"
proof -
  show n: "i \<notin> Q" "i \<notin> set (graveyard (sched k))" "current_task (sched k) \<noteq> Some i" "idle_task_id (sched k) \<noteq> Some i"
    using k i(2) unfolding threads_ok_def queue_ok_def by auto
  show "threads_ok (set_sched (\<lambda>s. s\<lparr>tasks := ts'\<rparr>) k)" if "node_ok (node_heap k) i t"
    using k(1) i(3-5) b n that unfolding threads_ok_def by (auto simp: fun_upd_apply)
  have "node_of (set_sched (\<lambda>s. s\<lparr>tasks := ts'\<rparr>) k) ` Q = node_of k ` Q" using n(1) i(4) by (auto simp: node_of_def image_iff)
  then show "queue_ok Q (set_sched (\<lambda>s. s\<lparr>tasks := ts'\<rparr>) k)" using k(2) i(4) n(1) unfolding queue_ok_def by (auto simp: node_of_def)
qed


lemma clock_fields [simp]:
  "threads_ok (k\<lparr>sched := (sched k)\<lparr>total_weight := w\<rparr>\<rparr>) = threads_ok k" "queue_ok Q (k\<lparr>sched := (sched k)\<lparr>total_weight := w\<rparr>\<rparr>) = queue_ok Q k"
  "threads_ok (k\<lparr>sched := (sched k)\<lparr>system_runtime := w\<rparr>\<rparr>) = threads_ok k" "queue_ok Q (k\<lparr>sched := (sched k)\<lparr>system_runtime := w\<rparr>\<rparr>) = queue_ok Q k"
  "runnable (k\<lparr>sched := (sched k)\<lparr>total_weight := w\<rparr>\<rparr>) = runnable k" "runnable (k\<lparr>sched := (sched k)\<lparr>system_runtime := w\<rparr>\<rparr>) = runnable k"
  by (simp_all add: threads_ok_def queue_ok_def runnable_def node_of_def)

lemma add_task_ok:
  assumes k: "sched_inv k" and t: "state task = Ready" "burst_score task \<le> 1000000" "total_weight (sched k) + weight task < 2 ^ 64"
    and n: "node_heap k node = None" "aligned_node node"
  shows "\<exists>i k'. add_task node task k = Some (i, k') \<and> task_at k i = None \<and> sched_inv k' \<and>
    (\<forall>j. task_at k' j = (if j = i then Some (task\<lparr>tid := i, rb_node := node\<rparr>) else task_at k j)) \<and> runnable k' = insert i (runnable k) \<and>
    current_task (sched k') = current_task (sched k) \<and> idle_task_id (sched k') = idle_task_id (sched k) \<and>
    graveyard (sched k') = graveyard (sched k) \<and> processes (sched k') = processes (sched k) \<and>
    total_weight (sched k') = total_weight (sched k) + weight task \<and> system_runtime (sched k') = system_runtime (sched k) \<and> phys k' = phys k"
proof -
  let ?w = "total_weight (sched k) + weight task"
  have th: "threads_ok k" "queue_ok (runnable k) k" using k unfolding sched_inv_def by auto
  from ar.ins_ok [OF threads_arena [OF th(1)], of task] obtain i ts where
    i: "arena_insert task (tasks (sched k)) = Some (i, ts)" "task_at k i = None" "arena_inv ts" "arena_get ts = (task_at k)(i \<mapsto> task)" by blast
  let ?t = "task\<lparr>tid := i, rb_node := node\<rparr>"
  let ?n = "\<lparr>sn_vruntime = vruntime task, sn_task_id = i, sn_deadline = deadline task, sn_min_deadline = deadline task,
    sn_left = 0, sn_right = 0, parent_and_color = 0\<rparr>"
  define ts' where "ts' = arena_update i (\<lambda>t. t\<lparr>rb_node := node\<rparr>) (arena_update i (\<lambda>t. t\<lparr>tid := i\<rparr>) ts)"
  have ts': "arena_inv ts'" "arena_get ts' = (task_at k)(i \<mapsto> ?t)"
    using ar.upd_ok [OF i(3), of i "\<lambda>t. t\<lparr>tid := i\<rparr>"] ar.upd_ok [of "arena_update i (\<lambda>t. t\<lparr>tid := i\<rparr>) ts" i "\<lambda>t. t\<lparr>rb_node := node\<rparr>"] i(4)
    by (simp_all add: ts'_def)
  let ?k1 = "k\<lparr>node_heap := (node_heap k)(node := Some ?n)\<rparr>"
  have nq: "node \<notin> node_of k ` runnable k" using tq.members [of "tree_root (sched k)" "node_heap k"] th(2) n(1) unfolding queue_ok_def by blast
  have own: "\<exists>m. Some ?n = Some m \<and> sn_task_id m = j"
    if "task_at k j = Some u" "j \<notin> set (graveyard (sched k))" "idle_task_id (sched k) \<noteq> Some j" "rb_node u = node" for j u
    using threads_node [OF th(1) that(1-3)] n(1) that(4) unfolding node_ok_def by auto
  have k1: "threads_ok ?k1" "queue_ok (runnable k) ?k1" by (rule heap_upd_ok [OF th nq], rule own, assumption+)+
  have b: "burst_score ?t \<le> 1000000" "state ?t = Ready" "tid ?t = i" using t by simp_all
  have nok: "node_ok (node_heap ?k1) i ?t" using n(2) by (simp add: node_ok_def)
  let ?k2 = "set_sched (\<lambda>s. s\<lparr>tasks := ts'\<rparr>) ?k1"
  have i': "arena_insert task (tasks (sched ?k1)) = Some (i, ts)" "task_at ?k1 i = None" "arena_get ts' = (task_at ?k1)(i \<mapsto> ?t)"
    using i ts' by simp_all
  note f = insert_task_ok [OF k1 b(1,2) i'(1,2) ts'(1) i'(3) b(3)]
  have k2: "threads_ok (set_sched (\<lambda>s. s\<lparr>total_weight := ?w\<rparr>) ?k2)" "queue_ok (runnable k) (set_sched (\<lambda>s. s\<lparr>total_weight := ?w\<rparr>) ?k2)"
    using f(5) [OF nok] f(6) by (simp_all only: clock_fields)
  let ?k3 = "set_sched (\<lambda>s. s\<lparr>total_weight := ?w\<rparr>) ?k2"
  have tk: "task_at ?k3 = (task_at k)(i \<mapsto> ?t)" using ts' by (auto simp: fun_eq_iff)
  have v: "vr (node_heap ?k3) (rb_node ?t) = vruntime ?t" by (simp add: vr_def)
  from rq_insert_ok [OF k2, of i ?t] v tk f(1-4) obtain root h where
    r: "rq_insert node ?k3 = Some (with_queue root h ?k3)" "threads_ok (with_queue root h ?k3)" "queue_ok (insert i (runnable k)) (with_queue root h ?k3)" by auto
  have run: "runnable (with_queue root h ?k3) = insert i (runnable k)" using f(1-4) tk t(1) unfolding runnable_def by auto
  have e: "s\<lparr>total_weight := a, tasks := x\<rparr> = s\<lparr>tasks := x, total_weight := a\<rparr>" for s :: scheduler and a x by simp
  have "add_task node task k = Some (i, with_queue root h ?k3)"
    using i(1) t(3) r(1) by (simp add: add_task_def uadd_ok upd_task_def ts'_def Let_def e)
  moreover have "sched_inv (with_queue root h ?k3)" using r(2,3) run k unfolding sched_inv_def current_ok_def by simp
  ultimately show ?thesis using i(2) tk run by (intro exI [of _ i] exI [of _ "with_queue root h ?k3"]) simp
qed

end
