(* ===== verification/Scheduler_Step.thy ===== *)
theory Scheduler_Step
  imports Scheduler_Inv
begin

text \<open>
  The parts of \<open>schedule\<close> (\<^verbatim>\<open>src/process/process.rs\<close>): reaping dead threads, accounting and requeueing the running thread,
  and entering the next one.
\<close>

section \<open>Dead threads\<close>

text \<open>
  The address spaces of the dead processes can be torn down one after the other: \<open>M\<close> is a property of the
  memory that is enough for each of the teardowns and that they keep.
\<close>

definition reclaimable :: "pt_ops \<Rightarrow> (buddy_st \<Rightarrow> bool) \<Rightarrow> kernel \<Rightarrow> bool" where
  "reclaimable P M k \<longleftrightarrow> M (phys k) \<and>
     (\<forall>z \<in> set (graveyard (sched k)). \<forall>t pr s. task_at k z = Some t \<longrightarrow> process_at k (th_pid t) = Some pr \<longrightarrow> ppid pr = 0 \<longrightarrow> M s \<longrightarrow>
        (\<exists>s'. destroy_user_address_space P (page_table pr) s = Some s' \<and> M s'))"

text \<open>The processes that die with the threads of the graveyard.\<close>

definition dying :: "kernel \<Rightarrow> usize set" where
  "dying k = {p. \<exists>z \<in> set (graveyard (sched k)). \<exists>t pr. task_at k z = Some t \<and> th_pid t = p \<and> process_at k p = Some pr \<and> ppid pr = 0}"

text \<open>What reaping keeps.\<close>

definition reap_frame :: "kernel \<Rightarrow> kernel \<Rightarrow> bool" where
  "reap_frame k k' \<longleftrightarrow> tree_root (sched k') = tree_root (sched k) \<and> node_heap k' = node_heap k \<and>
     current_task (sched k') = current_task (sched k) \<and> idle_task_id (sched k') = idle_task_id (sched k) \<and>
     system_runtime (sched k') = system_runtime (sched k) \<and> total_weight (sched k') = total_weight (sched k) \<and>
     bounds k' = bounds k \<and> cr3 k' = cr3 k \<and> kernel_rsp k' = kernel_rsp k \<and> tss_rsp0 k' = tss_rsp0 k"

lemma threads_reap:
  assumes k: "threads_ok k" "queue_ok Q k" and g: "graveyard (sched k) = z # gs" "current_task (sched k) \<noteq> Some z"
    and s: "arena_inv ts" "arena_get ts = (task_at k)(z := None)"
    and k': "tasks (sched k') = ts" "graveyard (sched k') = gs" "reap_frame k k'"
  shows "threads_ok k'" "queue_ok Q k'"
proof -
  have zQ: "z \<notin> Q" using k(2) g unfolding queue_ok_def by auto
  then have ni: "node_of k' i = node_of k i" if "i \<in> Q" for i using s(2) k'(1) that by (auto simp: node_of_def)
  then have n: "node_of k' ` Q = node_of k ` Q" by (auto simp: image_iff)
  show "threads_ok k'" using k(1) g s k' unfolding threads_ok_def reap_frame_def by (auto simp: fun_upd_apply split: if_splits)
  show "queue_ok Q k'" using k(2) g s k' zQ n ni unfolding queue_ok_def reap_frame_def by auto
qed


lemma reap_one_ok:
  assumes k: "sched_inv k" "reclaimable P M k" and g: "graveyard (sched k) = z # gs" and t: "task_at k z = Some t"
  shows "\<exists>k'. reap_one P k = Some k' \<and> sched_inv k' \<and> reap_frame k k' \<and> graveyard (sched k') = gs \<and> M (phys k') \<and>
    (\<forall>i. task_at k' i = (if i = z then None else task_at k i)) \<and> runnable k' = runnable k \<and>
    (\<forall>p. process_at k' p = (if p = th_pid t \<and> (\<exists>pr. process_at k p = Some pr \<and> ppid pr = 0) then None else process_at k p))"
proof -
  have th: "threads_ok k" "queue_ok (runnable k) k" using k(1) unfolding sched_inv_def by auto
  have zc: "current_task (sched k) \<noteq> Some z" "state t = Zombie" using k(1) g t unfolding sched_inv_def current_ok_def threads_ok_def by auto
  obtain dead ts where rm: "arena_remove z (tasks (sched k)) = (dead, ts)" by fastforce
  from ar.del_ok [OF threads_arena [OF th(1)] rm] t have d: "dead = Some t" "arena_inv ts" "arena_get ts = (task_at k)(z := None)" by auto
  let ?k = "k\<lparr>sched := (sched k)\<lparr>graveyard := gs, tasks := ts\<rparr>\<rparr>"
  let ?p = "th_pid t"
  have pa: "process_at (k\<lparr>sched := (sched k)\<lparr>graveyard := a, tasks := b\<rparr>\<rparr>) p = process_at k p" for a b p by (simp add: process_at_def)
  have run: "runnable k' = runnable k" if "tasks (sched k') = ts" "reap_frame k k'" for k'
    using that d(3) t zc(2) unfolding runnable_def reap_frame_def by (auto simp: fun_upd_apply)
  show ?thesis
  proof (cases "\<exists>pr. process_at k ?p = Some pr \<and> ppid pr = 0")
    case False
    then have r: "reap_one P k = Some ?k" using g zc(1) rm d(1) by (auto simp: reap_one_def Let_def pa split: option.split)
    have f: "reap_frame k ?k" by (simp add: reap_frame_def)
    have "sched_inv ?k" using threads_reap [OF th g zc(1) d(2,3), of ?k] f run [of ?k] k(1) g unfolding sched_inv_def current_ok_def by simp
    moreover have "M (phys ?k)" using k(2) by (simp add: reclaimable_def)
    ultimately show ?thesis using r f run [of ?k] d(3) False pa by auto
  next
    case True
    then obtain pr where pr: "process_at k ?p = Some pr" "ppid pr = 0" by blast
    have "z \<in> set (graveyard (sched k))" using g by simp
    then obtain s where s: "destroy_user_address_space P (page_table pr) (phys k) = Some s" "M s"
      using k(2) t pr unfolding reclaimable_def by blast
    let ?k' = "?k\<lparr>sched := (sched ?k)\<lparr>processes := (processes (sched k))[?p := None]\<rparr>, phys := s\<rparr>"
    have r: "reap_one P k = Some ?k'" using g zc(1) rm d(1) pr s(1) by (simp add: reap_one_def Let_def pa)
    have f: "reap_frame k ?k'" by (simp add: reap_frame_def)
    have "sched_inv ?k'" using threads_reap [OF th g zc(1) d(2,3), of ?k'] f run [of ?k'] k(1) g unfolding sched_inv_def current_ok_def by simp
    moreover have "process_at ?k' p = (if p = ?p \<and> (\<exists>pr. process_at k p = Some pr \<and> ppid pr = 0) then None else process_at k p)" for p
      using pr by (auto simp: process_at_def nth_list_update split: if_splits)
    ultimately show ?thesis using r f run [of ?k'] d(3) s(2) by auto
  qed
qed

lemma reap_ok:
  assumes "sched_inv k" "reclaimable P M k" "length xs = length (graveyard (sched k))"
  shows "\<exists>k'. for_in xs (\<lambda>_. reap_one P) k = Some k' \<and> sched_inv k' \<and> reap_frame k k' \<and> graveyard (sched k') = [] \<and> M (phys k') \<and>
    (\<forall>i. task_at k' i = (if i \<in> set (graveyard (sched k)) then None else task_at k i)) \<and> runnable k' = runnable k \<and>
    (\<forall>p. process_at k' p = (if p \<in> dying k then None else process_at k p))"
  using assms
proof (induction "graveyard (sched k)" arbitrary: k xs)
  case Nil
  then have "process_at k p = (if p \<in> dying k then None else process_at k p)" for p by (simp add: dying_def)
  with Nil show ?case by (auto simp: reap_frame_def reclaimable_def)
next
  case (Cons z gs)
  obtain t where t: "task_at k z = Some t" using Cons.prems(1) Cons.hyps(2) [symmetric] unfolding sched_inv_def threads_ok_def by fastforce
  note g = Cons.hyps(2) [symmetric]
  from reap_one_ok [OF Cons.prems(1,2) g t] obtain k1 where
    k1: "reap_one P k = Some k1" "sched_inv k1" "reap_frame k k1" "graveyard (sched k1) = gs" "M (phys k1)"
      "\<And>i. task_at k1 i = (if i = z then None else task_at k i)" "runnable k1 = runnable k"
      "\<And>p. process_at k1 p = (if p = th_pid t \<and> (\<exists>pr. process_at k p = Some pr \<and> ppid pr = 0) then None else process_at k p)" by blast
  have rc: "reclaimable P M k1" using Cons.prems(2) k1(4-6,8) g unfolding reclaimable_def by (auto split: if_splits)
  obtain x xs' where xs: "xs = x # xs'" "length xs' = length (graveyard (sched k1))" using Cons.prems(3) g k1(4) by (cases xs) auto
  from Cons.hyps(1) [OF k1(4) [symmetric] k1(2) rc xs(2)] obtain k2 where
    k2: "for_in xs' (\<lambda>_. reap_one P) k1 = Some k2" "sched_inv k2" "reap_frame k1 k2" "graveyard (sched k2) = []" "M (phys k2)"
      "\<And>i. task_at k2 i = (if i \<in> set (graveyard (sched k1)) then None else task_at k1 i)" "runnable k2 = runnable k1"
      "\<And>p. process_at k2 p = (if p \<in> dying k1 then None else process_at k1 p)" by blast
  have "for_in xs (\<lambda>_. reap_one P) k = Some k2" using xs(1) k1(1) k2(1) by simp
  moreover have "reap_frame k k2" using k1(3) k2(3) by (simp add: reap_frame_def)
  moreover have "task_at k2 i = (if i \<in> set (graveyard (sched k)) then None else task_at k i)" for i
    using k2(6) [of i] k1(4,6) g by auto
  moreover have "process_at k2 p = (if p \<in> dying k then None else process_at k p)" for p
  proof -
    have z: "z \<notin> set gs" using Cons.prems(1) g unfolding sched_inv_def threads_ok_def by simp
    have "p \<in> dying k \<longleftrightarrow> p \<in> dying k1 \<or> p = th_pid t \<and> (\<exists>pr. process_at k p = Some pr \<and> ppid pr = 0)"
    proof (cases "p = th_pid t \<and> (\<exists>pr. process_at k p = Some pr \<and> ppid pr = 0)")
      case True
      with g t show ?thesis unfolding dying_def by auto
    next
      case False
      have e: "process_at k1 p = process_at k p" unfolding k1(8) [of p] by (rule if_not_P [OF False])
      have "task_at k1 y = task_at k y" if "y \<in> set gs" for y using k1(6) [of y] z that by auto
      with e False g t k1(4) show ?thesis unfolding dying_def by auto
    qed
    then show ?thesis using k2(8) [of p] k1(8) [of p] by auto
  qed
  ultimately show ?case using k2(2,4,5,7) k1(7) by auto
qed


section \<open>The running thread\<close>

definition next_clock :: "scheduler \<Rightarrow> usize" where
  "next_clock s = system_runtime s + (if total_weight s > 0 then 1000000 * 2 ^ 20 div total_weight s else 0)"

definition accounted :: "usize \<Rightarrow> usize \<Rightarrow> thread \<Rightarrow> thread" where
  "accounted context V t =
     (let u = with_deadline (t\<lparr>stack_pointer := context, real_runtime := real_runtime t + 1000000,
        burst_score := (burst_score t + 1000000) div 2\<rparr>)
      in u\<lparr>lag := int V - int (vruntime u)\<rparr>)"

lemma accounted_fields [simp]:
  "tid (accounted c V t) = tid t" "rb_node (accounted c V t) = rb_node t" "stack_pointer (accounted c V t) = c" "th_pid (accounted c V t) = th_pid t"
  "time_slice (accounted c V t) = time_slice t" "real_runtime (accounted c V t) = real_runtime t + 1000000" "state (accounted c V t) = state t"
  "stack_ptr (accounted c V t) = stack_ptr t" "stack_len (accounted c V t) = stack_len t" "weight (accounted c V t) = weight t"
  "burst_score (accounted c V t) = (burst_score t + 1000000) div 2" "join_queue (accounted c V t) = join_queue t"
  by (simp_all add: accounted_def Let_def)

lemma next_clock_bound: "system_runtime s < 2 ^ 62 \<Longrightarrow> next_clock s < 2 ^ 63"
proof -
  assume a: "system_runtime s < 2 ^ 62"
  define x :: nat where "x = 1000000 * 2 ^ 20 div total_weight s"
  have "x \<le> 1000000 * 2 ^ 20" unfolding x_def by (rule div_le_dividend)
  with a show ?thesis unfolding next_clock_def x_def [symmetric] by simp
qed

lemma account_ok:
  assumes "burst_score t \<le> 1000000" "real_runtime t + 1000000 < 2 ^ 43" "time_slice t < 2 ^ 42" "system_runtime s < 2 ^ 62"
  shows "account context s t = Some (next_clock s, accounted context (next_clock s) t)"
proof -
  let ?t = "t\<lparr>stack_pointer := context, real_runtime := real_runtime t + 1000000, burst_score := (burst_score t + 1000000) div 2\<rparr>"
  have V: "next_clock s < 2 ^ 63" by (rule next_clock_bound [OF assms(4)])
  have u: "update_deadline ?t = Some (with_deadline ?t)" "vruntime (with_deadline ?t) < 2 ^ 63"
    using assms by (intro update_deadline_ok; simp)+
  have sh: "ushl time_consumed 20 = Some (1000000 * 2 ^ 20)" by (simp add: time_consumed_def ushl_def)
  have clk: "(if total_weight s > 0 then do { x \<leftarrow> ushl time_consumed 20; x \<leftarrow> udiv x (total_weight s); uadd (system_runtime s) x }
      else Some (system_runtime s)) = Some (next_clock s)"
    using V unfolding sh next_clock_def by (cases "total_weight s > 0") (simp_all add: udiv_ok uadd_def)
  have lg: "isub (as_i64 (next_clock s)) (as_i64 (vruntime (with_deadline ?t))) = Some (int (next_clock s) - int (vruntime (with_deadline ?t)))"
    using V u(2) by (simp add: isub_def as_i64_def)
  have b: "uadd (real_runtime t) time_consumed = Some (real_runtime t + 1000000)" "uadd (burst_score t) time_consumed = Some (burst_score t + 1000000)"
    "ushr (burst_score t + 1000000) 1 = Some ((burst_score t + 1000000) div 2)"
    using assms by (simp_all add: time_consumed_def uadd_ok ushr_def)
  show ?thesis unfolding account_def by (simp add: b b(3) [simplified] clk [simplified] u lg Let_def accounted_def)
qed


text \<open>The threads that compete for the processor when the running thread is interrupted.\<close>

definition contenders :: "kernel \<Rightarrow> usize set" where
  "contenders k = runnable k \<union> {c. current_task (sched k) = Some c \<and> idle_task_id (sched k) \<noteq> Some c \<and>
     (\<exists>t. task_at k c = Some t \<and> state t = Ready)}"

text \<open>What becomes of the threads: the running one saves its context and its accounts, a dead one loses its node.\<close>

definition left_task :: "usize \<Rightarrow> kernel \<Rightarrow> usize \<Rightarrow> thread option" where
  "left_task context k i =
     (if current_task (sched k) = Some i then
        map_option (\<lambda>t. if state t = Zombie then t\<lparr>rb_node := 0\<rparr> else accounted context (next_clock (sched k)) t) (task_at k i)
      else task_at k i)"

definition leave_frame :: "kernel \<Rightarrow> kernel \<Rightarrow> bool" where
  "leave_frame k k' \<longleftrightarrow> processes (sched k') = processes (sched k) \<and> current_task (sched k') = current_task (sched k) \<and>
     idle_task_id (sched k') = idle_task_id (sched k) \<and> total_weight (sched k') = total_weight (sched k) \<and>
     bounds k' = bounds k \<and> cr3 k' = cr3 k \<and> kernel_rsp k' = kernel_rsp k \<and> tss_rsp0 k' = tss_rsp0 k \<and> phys k' = phys k"

lemma leave_zombie:
  assumes k: "sched_inv k" and g: "graveyard (sched k) = []" and c: "current_task (sched k) = Some c" "task_at k c = Some t" "state t = Zombie"
  shows "\<exists>k'. leave_current context k = Some k' \<and> threads_ok k' \<and> queue_ok (contenders k) k' \<and> leave_frame k k' \<and>
    (\<forall>i. task_at k' i = left_task context k i) \<and> graveyard (sched k') = [c]"
proof -
  have th: "threads_ok k" "queue_ok (runnable k) k" using k unfolding sched_inv_def by auto
  have nc: "contenders k = runnable k" using c unfolding contenders_def by auto
  have id: "idle_task_id (sched k) \<noteq> Some c" using th(1) c unfolding threads_ok_def by fastforce
  have nd: "node_ok (node_heap k) c t" using threads_node [OF th(1) c(2)] g id by simp
  have cr: "c \<notin> runnable k" using c by (simp add: runnable_def)
  let ?h = "(node_heap k)(rb_node t := None)"
  let ?k0 = "k\<lparr>node_heap := ?h\<rparr>"
  let ?k1 = "set_sched (\<lambda>s. s\<lparr>graveyard := [c]\<rparr>) ?k0"
  let ?k = "upd_task c (\<lambda>t. t\<lparr>rb_node := 0\<rparr>) ?k1"
  have lv: "leave_current context k = Some ?k"
    using c nd g by (simp add: leave_current_def Let_def node_ok_def aligned_node_def)
  note a = threads_arena [OF th(1)]
  have tk: "task_at ?k i = left_task context k i" for i
    using c by (auto simp: task_upd a left_task_def)
  have q: "queue_ok (runnable k) ?k"
  proof -
    have ni: "node_of ?k i = node_of k i" if "i \<in> runnable k" for i using cr that by (auto simp: node_of_def task_upd a)
    then have "node_of ?k ` runnable k = node_of k ` runnable k" by (auto simp: image_iff)
    moreover note nq = node_not_queued [OF th cr c(2) nd]
    moreover have "rb_set (tree_root (sched k)) ?h (node_of k ` runnable k)"
      using tq.outside [OF _ nq, of "tree_root (sched k)" "node_heap k" None] th(2) unfolding queue_ok_def by simp
    moreover have "vr ?h (node_of k i) = vr (node_heap k) (node_of k i)" if "i \<in> runnable k" for i
    proof -
      have "node_of k i \<noteq> rb_node t" using imageI [OF that, of "node_of k"] nq by metis
      then show ?thesis by (simp add: vr_def)
    qed
    ultimately show ?thesis using th(2) g cr ni unfolding queue_ok_def by (auto simp: task_upd a)
  qed
  have no: "node_ok ?h i u" if "task_at k i = Some u" "i \<noteq> c" "idle_task_id (sched k) \<noteq> Some i" for i u
    using threads_node [OF th(1) that(1)] that g node_ok_inj [OF nd, of i u] by (auto simp: node_ok_def)
  have "threads_ok ?k" using th(1) g c id no unfolding threads_ok_def by (auto simp: task_upd a)
  then show ?thesis using lv tk q unfolding nc by (intro exI [of _ ?k]) (simp add: leave_frame_def)
qed

lemma leave_live:
  assumes k: "sched_inv k" "clock_ok k" and g: "graveyard (sched k) = []" and d: "idle_task_id (sched k) = Some d"
    and c: "current_task (sched k) = Some c" "task_at k c = Some t" "state t \<noteq> Zombie"
  shows "\<exists>k'. leave_current context k = Some k' \<and> threads_ok k' \<and> queue_ok (contenders k) k' \<and> leave_frame k k' \<and>
    (\<forall>i. task_at k' i = left_task context k i) \<and> graveyard (sched k') = [] \<and> system_runtime (sched k') = next_clock (sched k)"
proof -
  let ?V = "next_clock (sched k)"
  let ?u = "accounted context ?V t"
  have th: "threads_ok k" "queue_ok (runnable k) k" using k unfolding sched_inv_def by auto
  note a = threads_arena [OF th(1)]
  have b: "burst_score t \<le> 1000000" "tid t = c" using th(1) c unfolding threads_ok_def by blast+
  have cl: "real_runtime t + 1000000 < 2 ^ 43" "time_slice t < 2 ^ 42" "system_runtime (sched k) < 2 ^ 62" using k(2) c unfolding clock_ok_def by blast+
  have cr: "c \<notin> runnable k" using c by (simp add: runnable_def)
  let ?k1 = "upd_task c (\<lambda>_. ?u) k"
  let ?k = "set_sched (\<lambda>s. s\<lparr>system_runtime := ?V\<rparr>) ?k1"
  have st: "idle_task_id (sched k) = Some c \<Longrightarrow> state t = Ready" using th(1) c unfolding threads_ok_def by fastforce
  have t1: "threads_ok ?k1" "queue_ok (runnable k) ?k1"
    using upd_task_ok [OF th(1) c(2), of "\<lambda>_. ?u"] th(2) b g st cr by auto
  have t2: "threads_ok ?k" "queue_ok (runnable k) ?k" using t1 by (simp_all only: clock_fields)
  have tk: "task_at ?k i = left_task context k i" for i using c by (auto simp: task_upd [OF a] left_task_def)
  have ck: "task_at ?k c = Some ?u" using tk [of c] c by (simp add: left_task_def)
  have lv: "leave_current context k = (if state t = Ready \<and> c \<noteq> d then requeue ?u ?k else Some ?k)"
    using c d b account_ok [OF b(1) cl, of "context"] by (simp add: leave_current_def Let_def)
  show ?thesis
  proof (cases "state t = Ready \<and> c \<noteq> d")
    case True
    then have ct: "contenders k = insert c (runnable k)" using c d unfolding contenders_def by auto
    from requeue_ok [OF t2 ck cr] g d True obtain root h where
      "requeue ?u ?k = Some (with_queue root h ?k)" "threads_ok (with_queue root h ?k)" "queue_ok (insert c (runnable k)) (with_queue root h ?k)" by auto
    then show ?thesis using True lv tk g unfolding ct by (intro exI [of _ "with_queue root h ?k"]) (simp add: leave_frame_def)
  next
    case False
    then have "contenders k = runnable k" using c d unfolding contenders_def by auto
    moreover have "leave_current context k = Some ?k" unfolding lv by (rule if_not_P [OF False])
    ultimately show ?thesis using tk g t2 by (intro exI [of _ ?k]) (simp add: leave_frame_def)
  qed
qed


lemma leave_ok:
  assumes k: "sched_inv k" "clock_ok k" and g: "graveyard (sched k) = []" and d: "idle_task_id (sched k) = Some d"
  shows "\<exists>k'. leave_current context k = Some k' \<and> threads_ok k' \<and> queue_ok (contenders k) k' \<and> leave_frame k k' \<and>
    (\<forall>i. task_at k' i = left_task context k i) \<and> set (graveyard (sched k')) \<subseteq> {c. current_task (sched k) = Some c \<and> c \<notin> contenders k \<and> c \<noteq> d}"
proof (cases "current_task (sched k)")
  case None
  then have "leave_current context k = Some k" "contenders k = runnable k" by (auto simp: leave_current_def contenders_def)
  with None k(1) g show ?thesis unfolding sched_inv_def by (auto simp: leave_frame_def left_task_def)
next
  case (Some c)
  with k(1) obtain t where t: "task_at k c = Some t" unfolding sched_inv_def threads_ok_def by blast
  show ?thesis
  proof (cases "state t = Zombie")
    case True
    moreover have "c \<noteq> d" "c \<notin> contenders k" using k(1) d t True unfolding sched_inv_def threads_ok_def contenders_def runnable_def by fastforce+
    ultimately show ?thesis using leave_zombie [OF k(1) g Some t True, of "context"] Some by auto
  next
    case False
    then show ?thesis using leave_live [OF k g d Some t False, of "context"] by auto
  qed
qed

section \<open>The next thread\<close>

text \<open>The machine is set up for thread \<open>i\<close>.\<close>

definition entered :: "kernel \<Rightarrow> usize \<Rightarrow> bool" where
  "entered k i \<longleftrightarrow> current_task (sched k) = Some i \<and>
     (\<exists>t pr. task_at k i = Some t \<and> process_at k (th_pid t) = Some pr \<and> bounds k = update_bounds pr \<and>
        kernel_rsp k = stack_ptr t + stack_len t)"

text \<open>Stacks and page tables are at addresses the processor accepts, and every thread has a process.\<close>

definition placed_ok :: "pt_ops \<Rightarrow> kernel \<Rightarrow> bool" where
  "placed_ok P k \<longleftrightarrow> (\<forall>i t. task_at k i = Some t \<longrightarrow> virt_addr_new P (stack_ptr t + stack_len t) = Some (stack_ptr t + stack_len t) \<and>
     stack_ptr t + stack_len t < 2 ^ 64 \<and> th_pid t < 2 ^ 64 - 1) \<and>
     (\<forall>p pr. process_at k p = Some pr \<longrightarrow> phys_addr_new P (page_table pr) = Some (page_table pr))"

definition pick_frame :: "kernel \<Rightarrow> kernel \<Rightarrow> bool" where
  "pick_frame k k' \<longleftrightarrow> processes (sched k') = processes (sched k) \<and> tasks (sched k') = tasks (sched k) \<and>
     idle_task_id (sched k') = idle_task_id (sched k) \<and> total_weight (sched k') = total_weight (sched k) \<and>
     system_runtime (sched k') = system_runtime (sched k) \<and> graveyard (sched k') = graveyard (sched k) \<and> phys k' = phys k"

lemma process_at_simps [simp]:
  "process_at (k\<lparr>sched := (sched k)\<lparr>current_task := x\<rparr>\<rparr>) p = process_at k p" "process_at (k\<lparr>bounds := b\<rparr>) p = process_at k p"
  "process_at (k\<lparr>cr3 := c\<rparr>) p = process_at k p" "process_at (k\<lparr>kernel_rsp := c\<rparr>) p = process_at k p"
  "process_at (k\<lparr>tss_rsp0 := c\<rparr>) p = process_at k p" "process_at (with_queue root h k) p = process_at k p"
  by (simp_all add: process_at_def)

lemma enter_idle_ok:
  assumes d: "idle_task_id (sched k) = Some d" "task_at k d = Some t" "process_at k (th_pid t) = Some pr" and p: "placed_ok P k"
  shows "\<exists>k'. enter_idle k = Some (stack_pointer t, k') \<and> entered k' d \<and> pick_frame k k' \<and>
    node_heap k' = node_heap k \<and> tree_root (sched k') = tree_root (sched k) \<and> cr3 k' = cr3 k"
proof -
  have "stack_top t = Some (stack_ptr t + stack_len t)" using p d(2) by (simp add: placed_ok_def stack_top_def uadd_ok)
  then show ?thesis using d by (simp add: enter_idle_def enter_bounds_def entered_def pick_frame_def Let_def)
qed

lemma enter_task_ok:
  assumes w: "task_at k w = Some t" "process_at k (th_pid t) = Some pr" and c: "\<And>c. current_task (sched k) = Some c \<Longrightarrow> task_at k c \<noteq> None" and p: "placed_ok P k"
  shows "\<exists>k'. enter_task P w k = Some (stack_pointer t, k') \<and> entered k' w \<and> pick_frame k k' \<and>
    node_heap k' = node_heap k \<and> tree_root (sched k') = tree_root (sched k) \<and> tss_rsp0 k' = stack_ptr t + stack_len t \<and>
    cr3 k' = (if \<exists>c u. current_task (sched k) = Some c \<and> task_at k c = Some u \<and> th_pid u = th_pid t then cr3 k else page_table pr)"
proof -
  let ?prev = "case current_task (sched k) of Some c \<Rightarrow> th_pid (the (task_at k c)) | None \<Rightarrow> 2 ^ 64 - 1"
  have st: "stack_top t = Some (stack_ptr t + stack_len t)" "virt_addr_new P (stack_ptr t + stack_len t) = Some (stack_ptr t + stack_len t)"
    "phys_addr_new P (page_table pr) = Some (page_table pr)"
    using p w by (auto simp: placed_ok_def stack_top_def uadd_ok)
  have np: "th_pid t < 2 ^ 64 - 1" using p w(1) unfolding placed_ok_def by blast
  have prev: "(case current_task (sched k) of Some c \<Rightarrow> do { u \<leftarrow> task_at k c; Some (th_pid u) } | None \<Rightarrow> Some (2 ^ 64 - 1)) = Some ?prev"
    using c by (cases "current_task (sched k)") auto
  have same: "(\<exists>c u. current_task (sched k) = Some c \<and> task_at k c = Some u \<and> th_pid u = th_pid t) \<longleftrightarrow> ?prev = th_pid t"
    using c np by (cases "current_task (sched k)") auto
  show ?thesis unfolding same using w st prev
    by (cases "?prev = th_pid t") (simp_all add: enter_task_def enter_bounds_def entered_def pick_frame_def Let_def)
qed


lemma pick_frame_ok:
  assumes "pick_frame k k'" "node_heap k' = node_heap k" "tree_root (sched k') = tree_root (sched k)" "entered k' i"
  shows "threads_ok k \<Longrightarrow> threads_ok k'" "queue_ok Q k \<Longrightarrow> queue_ok Q k'"
  using assms unfolding threads_ok_def queue_ok_def pick_frame_def entered_def by (simp_all add: node_of_def) blast

lemma pick_next_ok:
  assumes k: "threads_ok k" "queue_ok Q k" and d: "idle_task_id (sched k) = Some d" and p: "placed_ok P k"
    and pr: "\<forall>i t. task_at k i = Some t \<longrightarrow> i \<notin> set (graveyard (sched k)) \<longrightarrow> process_at k (th_pid t) \<noteq> None"
  shows "\<exists>k' i t. pick_next P k = Some (stack_pointer t, k') \<and> task_at k i = Some t \<and> entered k' i \<and> pick_frame k k' \<and>
    threads_ok k' \<and> queue_ok (Q - {i}) k' \<and>
    (if Q = {} then i = d else i \<in> Q \<and>
      ((\<exists>j \<in> Q. vruntime (the (task_at k j)) \<le> system_runtime (sched k)) \<longrightarrow> vruntime t \<le> system_runtime (sched k))) \<and>
    (Q \<noteq> {} \<longrightarrow> tss_rsp0 k' = stack_ptr t + stack_len t \<and>
      cr3 k' = (if \<exists>c u. current_task (sched k) = Some c \<and> task_at k c = Some u \<and> th_pid u = th_pid t then cr3 k
        else page_table (the (process_at k (th_pid t)))))"
proof (cases "Q = {}")
  case True
  have pick: "rbtree_pick_eevdf (node_heap k) (tree_root (sched k)) (system_runtime (sched k)) = Some 0"
    using tq.nothing k(2) True unfolding queue_ok_def by simp
  from k(1) d obtain t where t: "task_at k d = Some t" "d \<notin> set (graveyard (sched k))" unfolding threads_ok_def by blast
  with pr obtain pr where "process_at k (th_pid t) = Some pr" by blast
  from enter_idle_ok [OF d t(1) this p] obtain k' where
    k': "enter_idle k = Some (stack_pointer t, k')" "entered k' d" "pick_frame k k'" "node_heap k' = node_heap k" "tree_root (sched k') = tree_root (sched k)" by blast
  note fin = pick_frame_ok [OF k'(3-5,2)]
  show ?thesis using pick k' t True fin(1) [OF k(1)] fin(2) [OF k(2)]
    by (intro exI [of _ k'] exI [of _ d] exI [of _ t]) (simp add: pick_next_def)
next
  case False
  let ?V = "system_runtime (sched k)"
  have q: "rb_set (tree_root (sched k)) (node_heap k) (node_of k ` Q)" "node_of k ` Q \<noteq> {}" using k(2) False unfolding queue_ok_def by auto
  from tq.take_next [OF q, of ?V] obtain n root h where
    n: "n \<in> node_of k ` Q" "n \<noteq> 0" "rbtree_pick_eevdf (node_heap k) (tree_root (sched k)) ?V = Some n"
      "rbtree_remove (tree_root (sched k)) n (node_heap k) = Some (root, h)" "rb_set root h (node_of k ` Q - {n})"
      "\<And>p. map_option payload (h p) = map_option payload (node_heap k p)"
      "(\<exists>p \<in> node_of k ` Q. fst (payload (the (node_heap k p))) \<le> ?V) \<longrightarrow> fst (payload (the (node_heap k n))) \<le> ?V"
    by (metis (no_types, lifting))
  from n(1) obtain i where i: "i \<in> Q" "n = node_of k i" by blast
  from k(2) i(1) obtain t where t: "task_at k i = Some t" "i \<notin> set (graveyard (sched k))" "idle_task_id (sched k) \<noteq> Some i" unfolding queue_ok_def by blast
  have ni: "n = rb_node t" using i(2) t(1) by (simp add: node_of_def)
  let ?k = "with_queue root h k"
  have th: "threads_ok ?k" by (rule threads_queue [OF k(1)]) (simp add: node_ok_data [OF n(6)])
  have nk: "node_ok h i t" using threads_node [OF th] t by simp
  then obtain m where m: "h n = Some m" "sn_task_id m = i" unfolding ni node_ok_def by blast
  have inj: "node_of k j \<noteq> n" if "j \<in> Q" "j \<noteq> i" for j
  proof -
    from k(2) that(1) obtain u where u: "task_at k j = Some u" "j \<notin> set (graveyard (sched k))" "idle_task_id (sched k) \<noteq> Some j" unfolding queue_ok_def by blast
    have "node_ok h j u" using threads_node [OF th] u by simp
    from node_ok_inj [OF this nk] that(2) u(1) show ?thesis by (auto simp: node_of_def ni)
  qed
  then have im: "node_of k ` Q - {n} = node_of k ` (Q - {i})" using i by auto
  have vr: "vr h = vr (node_heap k)" by (rule ext, rule same_payload_vr) (simp add: same_payload_def n(6))
  have qk: "queue_ok (Q - {i}) ?k" using n(5) k(2) vr unfolding queue_ok_def im by (auto simp: node_of_def)
  obtain pr where pr': "process_at ?k (th_pid t) = Some pr" using pr t(1,2) by fastforce
  have pl: "placed_ok P ?k" using p by (simp add: placed_ok_def)
  have tk: "task_at ?k i = Some t" using t(1) by simp
  have cur: "task_at ?k c \<noteq> None" if "current_task (sched ?k) = Some c" for c using k(1) that unfolding threads_ok_def by simp
  from enter_task_ok [OF tk pr' cur pl] obtain k' where
    k': "enter_task P i ?k = Some (stack_pointer t, k')" "entered k' i" "pick_frame ?k k'" "node_heap k' = node_heap ?k" "tree_root (sched k') = tree_root (sched ?k)"
      "tss_rsp0 k' = stack_ptr t + stack_len t"
      "cr3 k' = (if \<exists>c u. current_task (sched ?k) = Some c \<and> task_at ?k c = Some u \<and> th_pid u = th_pid t then cr3 ?k else page_table pr)"
    by blast
  note fin = pick_frame_ok(1) [OF k'(3-5,2) th] pick_frame_ok(2) [OF k'(3-5,2) qk]
  have pk: "pick_next P k = Some (stack_pointer t, k')" using n(2-4) m k'(1) by (simp add: pick_next_def load_def)
  have key: "fst (payload (the (node_heap k (node_of k j)))) = vruntime (the (task_at k j))" if "j \<in> Q" for j
    using k(2) that unfolding queue_ok_def by (simp add: payload_def vr_def)
  have el: "(\<exists>j \<in> Q. vruntime (the (task_at k j)) \<le> ?V) \<longrightarrow> vruntime t \<le> ?V" using n(7) key i t(1) by auto
  have "pick_frame k k'" using k'(3) by (simp add: pick_frame_def)
  moreover have "cr3 k' = (if \<exists>c u. current_task (sched k) = Some c \<and> task_at k c = Some u \<and> th_pid u = th_pid t then cr3 k
      else page_table (the (process_at k (th_pid t))))" using k'(7) pr' by (simp cong: if_cong)
  ultimately show ?thesis using pk t(1) k'(2,6) fin el i(1) False by (intro exI [of _ k'] exI [of _ i] exI [of _ t]) simp
qed

end
