(* ===== verification/Scheduler_Props.thy ===== *)
theory Scheduler_Props
  imports Scheduler_Step Paging_Props
begin

text \<open>
  What a timer tick does: \<open>schedule\<close> reaps the dead threads, accounts for the running one and enters the
  next.  The operations of the scheduler as steps of the kernel, and how a new thread starts.
\<close>



section \<open>One call of the scheduler\<close>

lemma left_task_simps:
  "left_task context k i = Some t \<Longrightarrow> \<exists>u. task_at k i = Some u \<and> state t = state u \<and> th_pid t = th_pid u \<and> stack_ptr t = stack_ptr u \<and> stack_len t = stack_len u"
  by (auto simp: left_task_def split: if_splits)

lemma left_task_none: "left_task context k i = None \<longleftrightarrow> task_at k i = None"
  by (auto simp: left_task_def)

lemma contenders_left:
  assumes "sched_inv k"
  shows "i \<in> contenders k \<longleftrightarrow> (\<exists>t. left_task context k i = Some t \<and> state t = Ready) \<and> idle_task_id (sched k) \<noteq> Some i"
  unfolding contenders_def runnable_def left_task_def by (cases "task_at k i") auto

text \<open>The state between the two halves of \<open>schedule\<close>: the dead threads are gone, and the running one is accounted for.\<close>

definition halfway :: "pt_ops \<Rightarrow> usize \<Rightarrow> kernel \<Rightarrow> kernel \<Rightarrow> bool" where
  "halfway P context k k2 \<longleftrightarrow> threads_ok k2 \<and> queue_ok (contenders k) k2 \<and> placed_ok P k2 \<and>
     current_task (sched k2) = current_task (sched k) \<and> idle_task_id (sched k2) = idle_task_id (sched k) \<and> cr3 k2 = cr3 k \<and>
     (\<forall>i. task_at k2 i = (if i \<in> set (graveyard (sched k)) then None else left_task context k i)) \<and>
     (\<forall>p. process_at k2 p = (if p \<in> dying k then None else process_at k p)) \<and>
     (\<forall>i t. task_at k2 i = Some t \<longrightarrow> process_at k2 (th_pid t) \<noteq> None \<and> process_at k2 (th_pid t) = process_at k (th_pid t) \<and>
        (\<exists>u. task_at k i = Some u \<and> th_pid u = th_pid t)) \<and>
     (\<forall>c \<in> set (graveyard (sched k2)). c \<notin> contenders k \<and> idle_task_id (sched k) \<noteq> Some c)"

lemma halfway_ok:
  assumes inv: "sched_inv k" "clock_ok k" and d: "idle_task_id (sched k) = Some d" and rec: "reclaimable P M k" and pl: "placed_ok P k"
    and procs: "\<forall>i t. task_at k i = Some t \<longrightarrow> i \<notin> set (graveyard (sched k)) \<longrightarrow> process_at k (th_pid t) \<noteq> None \<and> th_pid t \<notin> dying k"
  shows "\<exists>k2. schedule P context k = pick_next P k2 \<and> halfway P context k k2"
proof -
  have th: "threads_ok k" using inv(1) unfolding sched_inv_def by simp
  from th d obtain td where "task_at k d = Some td" unfolding threads_ok_def by blast
  then have ne: "\<not> arena_is_empty (tasks (sched k))" by (auto simp: arena_is_empty_def arena_get_def split: if_splits)
  have "length [0..<length (graveyard (sched k))] = length (graveyard (sched k))" by simp
  from reap_ok [OF inv(1) rec this] obtain k1 where
    k1: "reap_zombies P k = Some k1" "sched_inv k1" "reap_frame k k1" "graveyard (sched k1) = []"
      "\<And>i. task_at k1 i = (if i \<in> set (graveyard (sched k)) then None else task_at k i)" "runnable k1 = runnable k"
      "\<And>p. process_at k1 p = (if p \<in> dying k then None else process_at k p)" unfolding reap_zombies_def by blast
  note f1 = k1(3) [unfolded reap_frame_def]
  have cl1: "clock_ok k1" using inv(2) f1 unfolding clock_ok_def by (auto simp: k1(5) split: if_splits)
  have d1: "idle_task_id (sched k1) = Some d" using f1 d by simp
  from leave_ok [OF k1(2) cl1 k1(4) d1, of "context"] obtain k2 where
    k2: "leave_current context k1 = Some k2" "threads_ok k2" "queue_ok (contenders k1) k2" "leave_frame k1 k2"
      "\<And>i. task_at k2 i = left_task context k1 i"
      "set (graveyard (sched k2)) \<subseteq> {c. current_task (sched k1) = Some c \<and> c \<notin> contenders k1 \<and> c \<noteq> d}" by blast
  note f2 = k2(4) [unfolded leave_frame_def]
  have d2: "idle_task_id (sched k2) = Some d" using f2 d1 by simp
  have cur: "c \<notin> set (graveyard (sched k))" if "current_task (sched k) = Some c" for c using inv(1) that unfolding sched_inv_def current_ok_def by blast
  have con: "contenders k1 = contenders k" using f1 cur by (auto simp: contenders_def k1(5,6))
  have nc: "next_clock (sched k1) = next_clock (sched k)" using f1 by (simp add: next_clock_def)
  have lt: "left_task context k1 i = (if i \<in> set (graveyard (sched k)) then None else left_task context k i)" for i
    using f1 cur unfolding left_task_def nc by (auto simp: k1(5))
  have pa2: "process_at k2 p = process_at k1 p" for p using f2 by (simp add: process_at_def)
  have old: "\<exists>u. task_at k i = Some u \<and> i \<notin> set (graveyard (sched k)) \<and> state t = state u \<and> th_pid t = th_pid u \<and> stack_ptr t = stack_ptr u \<and>
      stack_len t = stack_len u" if "task_at k2 i = Some t" for i t
    using that lt [of i] left_task_simps [of "context" k i t] unfolding k2(5) by (auto split: if_splits)
  have pl2: "placed_ok P k2" unfolding placed_ok_def
  proof (intro conjI allI impI)
    fix i t assume "task_at k2 i = Some t"
    from old [OF this] pl show "virt_addr_new P (stack_ptr t + stack_len t) = Some (stack_ptr t + stack_len t)"
      "stack_ptr t + stack_len t < 2 ^ 64" "th_pid t < 2 ^ 64 - 1" unfolding placed_ok_def by metis+
  next
    fix p pr assume "process_at k2 p = Some pr"
    then have "process_at k p = Some pr" unfolding pa2 k1(7) by (simp split: if_splits)
    with pl show "phys_addr_new P (page_table pr) = Some (page_table pr)" unfolding placed_ok_def by blast
  qed
  have pr2: "process_at k2 (th_pid t) \<noteq> None \<and> process_at k2 (th_pid t) = process_at k (th_pid t) \<and> (\<exists>u. task_at k i = Some u \<and> th_pid u = th_pid t)"
    if "task_at k2 i = Some t" for i t
    using old [OF that] procs unfolding pa2 k1(7) by metis
  have "schedule P context k = pick_next P k2" using ne k1(1) k2(1) by (simp add: schedule_def)
  moreover have "task_at k2 i = (if i \<in> set (graveyard (sched k)) then None else left_task context k i)" for i unfolding k2(5) by (rule lt)
  moreover have "process_at k2 p = (if p \<in> dying k then None else process_at k p)" for p unfolding pa2 by (rule k1(7))
  moreover have "current_task (sched k2) = current_task (sched k)" "idle_task_id (sched k2) = idle_task_id (sched k)" "cr3 k2 = cr3 k"
    using f1 f2 by simp_all
  moreover have "\<forall>c \<in> set (graveyard (sched k2)). c \<notin> contenders k \<and> idle_task_id (sched k) \<noteq> Some c" using k2(6) con d by auto
  moreover have "queue_ok (contenders k) k2" using k2(3) con by simp
  ultimately show ?thesis using k2(2) pl2 pr2 unfolding halfway_def by (intro exI [of _ k2] conjI allI) blast+
qed

lemma runnable_after:
  assumes inv: "sched_inv k" and d: "idle_task_id (sched k) = Some d" "idle_task_id (sched k') = Some d" and c: "current_task (sched k') = Some i"
    and tk: "\<And>j. task_at k' j = (if j \<in> set (graveyard (sched k)) then None else left_task context k j)"
  shows "runnable k' = contenders k - {i}"
proof (rule set_eqI)
  fix j
  have th: "threads_ok k" "current_ok k" using inv unfolding sched_inv_def by simp_all
  have "j \<notin> contenders k" if "j \<in> set (graveyard (sched k))"
    using that th unfolding contenders_def runnable_def threads_ok_def current_ok_def by fastforce
  then show "j \<in> runnable k' \<longleftrightarrow> j \<in> contenders k - {i}"
    using contenders_left [OF inv, of j "context"] tk [of j] c d unfolding runnable_def
    by (cases "j \<in> set (graveyard (sched k))") auto
qed

lemma schedule_ok:
  assumes inv: "sched_inv k" "clock_ok k" and d: "idle_task_id (sched k) = Some d" and rec: "reclaimable P M k" and pl: "placed_ok P k"
    and procs: "\<forall>i t. task_at k i = Some t \<longrightarrow> i \<notin> set (graveyard (sched k)) \<longrightarrow> process_at k (th_pid t) \<noteq> None \<and> th_pid t \<notin> dying k"
  shows "\<exists>k' i t. schedule P context k = Some (stack_pointer t, k') \<and> sched_inv k' \<and> entered k' i \<and> task_at k' i = Some t \<and> idle_task_id (sched k') = Some d \<and>
    (if contenders k = {} then i = d
     else i \<in> contenders k \<and>
       ((\<exists>j \<in> contenders k. vruntime (the (task_at k' j)) \<le> system_runtime (sched k')) \<longrightarrow> vruntime t \<le> system_runtime (sched k')) \<and>
       tss_rsp0 k' = stack_ptr t + stack_len t \<and>
       ((\<forall>c u. current_task (sched k) = Some c \<longrightarrow> task_at k c = Some u \<longrightarrow> cr3 k = page_table (the (process_at k (th_pid u)))) \<longrightarrow>
         cr3 k' = page_table (the (process_at k' (th_pid t))))) \<and>
    runnable k' = contenders k - {i} \<and>
    (\<forall>j. task_at k' j = (if j \<in> set (graveyard (sched k)) then None else left_task context k j)) \<and>
    (\<forall>p. process_at k' p = (if p \<in> dying k then None else process_at k p))"
proof -
  from halfway_ok [OF assms, of "context"] obtain k2 where sk: "schedule P context k = pick_next P k2" and h: "halfway P context k k2" by blast
  note h' = h [unfolded halfway_def]
  have d2: "idle_task_id (sched k2) = Some d" using h' d by simp
  from pick_next_ok [of k2 "contenders k" d P] h' d2 obtain k3 i t where
    k3: "pick_next P k2 = Some (stack_pointer t, k3)" "task_at k2 i = Some t" "entered k3 i" "pick_frame k2 k3" "threads_ok k3" "queue_ok (contenders k - {i}) k3"
      "if contenders k = {} then i = d else i \<in> contenders k \<and>
        ((\<exists>j \<in> contenders k. vruntime (the (task_at k2 j)) \<le> system_runtime (sched k2)) \<longrightarrow> vruntime t \<le> system_runtime (sched k2))"
      "contenders k \<noteq> {} \<longrightarrow> tss_rsp0 k3 = stack_ptr t + stack_len t \<and>
        cr3 k3 = (if \<exists>c u. current_task (sched k2) = Some c \<and> task_at k2 c = Some u \<and> th_pid u = th_pid t then cr3 k2
          else page_table (the (process_at k2 (th_pid t))))" by blast
  note f3 = k3(4) [unfolded pick_frame_def]
  have tk3: "task_at k3 j = (if j \<in> set (graveyard (sched k)) then None else left_task context k j)" for j using f3 h' by simp
  have pa3: "process_at k3 p = process_at k2 p" for p using f3 by (simp add: process_at_def)
  have ck: "current_task (sched k3) = Some i" using k3(3) unfolding entered_def by blast
  have run: "runnable k3 = contenders k - {i}" by (rule runnable_after [OF inv(1) d _ ck tk3]) (use f3 d2 in simp)
  have "i \<notin> set (graveyard (sched k3))" using k3(7) h' f3 d by (auto split: if_splits)
  then have inv3: "sched_inv k3" unfolding sched_inv_def current_ok_def run using k3(5,6) ck by simp
  have "cr3 k3 = page_table (the (process_at k3 (th_pid t)))"
    if "contenders k \<noteq> {}" "\<forall>c u. current_task (sched k) = Some c \<longrightarrow> task_at k c = Some u \<longrightarrow> cr3 k = page_table (the (process_at k (th_pid u)))"
  proof (cases "\<exists>c u. current_task (sched k2) = Some c \<and> task_at k2 c = Some u \<and> th_pid u = th_pid t")
    case True
    then obtain c u where c: "current_task (sched k) = Some c" "task_at k2 c = Some u" "th_pid u = th_pid t" using h' by auto
    have "cr3 k3 = cr3 k" using k3(8) that(1) True h' by simp
    also have "\<dots> = page_table (the (process_at k (th_pid t)))" using h' c that(2) by metis
    also have "process_at k (th_pid t) = process_at k2 (th_pid t)" using h' k3(2) by metis
    finally show ?thesis by (simp add: pa3)
  next
    case False
    then show ?thesis using k3(8) that(1) unfolding if_not_P [OF False] pa3 by blast
  qed
  moreover have "vruntime (the (task_at k3 j)) = vruntime (the (task_at k2 j))" "system_runtime (sched k3) = system_runtime (sched k2)" for j
    using f3 by simp_all
  moreover have "process_at k3 p = (if p \<in> dying k then None else process_at k p)" for p unfolding pa3 using h' by blast
  ultimately show ?thesis using sk inv3 k3(1-3,7,8) tk3 run f3 d2 by (intro exI [of _ k3] exI [of _ i] exI [of _ t]) simp
qed


section \<open>The operations as steps\<close>

lemma sched_invD: "sched_inv k \<Longrightarrow> threads_ok k" "sched_inv k \<Longrightarrow> queue_ok (runnable k) k" "sched_inv k \<Longrightarrow> current_ok k"
  unfolding sched_inv_def by simp_all

text \<open>An update that the queue does not see.\<close>

lemma quiet_upd_ok:
  assumes k: "sched_inv k" and f: "\<And>t. tid (f t) = tid t \<and> burst_score (f t) = burst_score t \<and> rb_node (f t) = rb_node t \<and>
      state (f t) = state t \<and> vruntime (f t) = vruntime t"
  shows "sched_inv (upd_task i f k)" "runnable (upd_task i f k) = runnable k"
proof -
  note th = sched_invD [OF k]
  note a = task_upd [OF threads_arena [OF th(1)]]
  have t: "threads_ok (upd_task i f k)"
  proof (cases "task_at k i")
    case None
    then show ?thesis using th(1) unfolding threads_ok_def by (auto simp: a)
  next
    case (Some t)
    with th(1) show ?thesis using f [of t] by (intro upd_task_ok [OF th(1) Some]) (auto simp: threads_ok_def)
  qed
  show r: "runnable (upd_task i f k) = runnable k" unfolding runnable_def using f by (auto simp: a)
  have n: "task_at (upd_task i f k) j \<noteq> None \<and> vruntime (the (task_at (upd_task i f k) j)) = vruntime (the (task_at k j)) \<and>
      node_of (upd_task i f k) j = node_of k j" if "task_at k j \<noteq> None" for j using that f by (auto simp: node_of_def a)
  have q: "rb_set (tree_root (sched k)) (node_heap k) (node_of k ` runnable k)" "j \<in> runnable k \<Longrightarrow> task_at k j \<noteq> None \<and> j \<notin> set (graveyard (sched k)) \<and>
      idle_task_id (sched k) \<noteq> Some j \<and> vr (node_heap k) (node_of k j) = vruntime (the (task_at k j))" for j
    using th(2) unfolding queue_ok_def by blast+
  have "node_of (upd_task i f k) ` runnable k = node_of k ` runnable k" by (intro image_cong refl) (use n q(2) in blast)
  then have "queue_ok (runnable k) (upd_task i f k)" unfolding queue_ok_def upd_task_fields using q(1) n [OF q(2) [THEN conjunct1]] q(2) by simp
  then show "sched_inv (upd_task i f k)" using t th(3) r unfolding sched_inv_def current_ok_def by simp
qed

text \<open>The running thread is not in the queue: its state may change.\<close>

lemma current_upd_ok:
  assumes k: "sched_inv k" and c: "current_task (sched k) = Some c" "idle_task_id (sched k) \<noteq> Some c"
    and f: "\<And>t. tid (f t) = tid t \<and> burst_score (f t) = burst_score t \<and> rb_node (f t) = rb_node t"
  shows "sched_inv (upd_task c f k)" "runnable (upd_task c f k) = runnable k"
proof -
  note th = sched_invD [OF k]
  from th(1) c obtain t where t: "task_at k c = Some t" unfolding threads_ok_def by blast
  have g: "c \<notin> set (graveyard (sched k))" "c \<notin> runnable k" using th(3) c unfolding current_ok_def runnable_def by auto
  have b: "burst_score t \<le> 1000000" using th(1) t unfolding threads_ok_def by blast
  show r: "runnable (upd_task c f k) = runnable k" using runnable_upd [OF threads_arena [OF th(1)] t] c g by auto
  have "threads_ok (upd_task c f k)" "queue_ok (runnable k) (upd_task c f k)"
    using upd_task_ok [OF th(1) t, of f] f [of t] b c g th(2) by auto
  then show "sched_inv (upd_task c f k)" using th(3) r unfolding sched_inv_def current_ok_def by simp
qed

lemma set_idle_ok:
  assumes k: "sched_inv k" and t: "state task = Ready" "burst_score task \<le> 1000000" and d: "idle_task_id (sched k) = None"
  shows "\<exists>i k'. set_idle_task task k = Some k' \<and> sched_inv k' \<and> idle_task_id (sched k') = Some i \<and> task_at k i = None \<and>
    (\<forall>j. task_at k' j = (if j = i then Some (task\<lparr>tid := i\<rparr>) else task_at k j)) \<and> runnable k' = runnable k"
proof -
  note th = sched_invD [OF k]
  from ar.ins_ok [OF threads_arena [OF th(1)], of task] obtain i ts where
    i: "arena_insert task (tasks (sched k)) = Some (i, ts)" "task_at k i = None" "arena_inv ts" "arena_get ts = (task_at k)(i \<mapsto> task)" by blast
  define ts' where "ts' = arena_update i (\<lambda>t. t\<lparr>tid := i\<rparr>) ts"
  have ts': "arena_inv ts'" "arena_get ts' = (task_at k)(i \<mapsto> task\<lparr>tid := i\<rparr>)"
    using ar.upd_ok [OF i(3), of i "\<lambda>t. t\<lparr>tid := i\<rparr>"] i(4) by (simp_all add: ts'_def)
  let ?k = "k\<lparr>sched := (sched k)\<lparr>tasks := ts', idle_task_id := Some i\<rparr>\<rparr>"
  have n: "i \<notin> runnable k" "i \<notin> set (graveyard (sched k))" "current_task (sched k) \<noteq> Some i"
    using th i(2) unfolding threads_ok_def queue_ok_def by auto
  have tk: "task_at ?k j = (if j = i then Some (task\<lparr>tid := i\<rparr>) else task_at k j)" for j using ts'(2) by simp
  have r: "runnable ?k = runnable k" unfolding runnable_def using d i(2) by (auto simp: ts'(2))
  have nd: "node_of ?k j = node_of k j" if "j \<noteq> i" for j using that by (simp add: node_of_def ts'(2))
  have im: "node_of ?k ` runnable k = node_of k ` runnable k" using n(1) by (intro image_cong refl nd) auto
  have "threads_ok ?k" using th(1) t d n ts' unfolding threads_ok_def by (auto simp: fun_upd_apply)
  moreover have "queue_ok (runnable k) ?k" using th(2) n(1) nd im d unfolding queue_ok_def by (auto simp: ts'(2))
  ultimately have "sched_inv ?k" using th(3) r unfolding sched_inv_def current_ok_def by simp
  moreover have "set_idle_task task k = Some ?k" using i(1) by (simp add: set_idle_task_def upd_task_def ts'_def)
  ultimately show ?thesis using tk r i(2) by (intro exI [of _ i] exI [of _ ?k]) simp
qed

lemma sleep_ok:
  assumes "sched_inv k" "idle_task_id (sched k) \<noteq> current_task (sched k) \<or> current_task (sched k) = None"
  shows "\<exists>k'. sleep_current_task k = Some k' \<and> sched_inv k'"
proof (cases "current_task (sched k)")
  case (Some c)
  from sched_invD(1) [OF assms(1)] Some obtain t where "task_at k c = Some t" unfolding threads_ok_def by blast
  then show ?thesis using current_upd_ok(1) [OF assms(1) Some, of "\<lambda>t. t\<lparr>state := Sleeping\<rparr>"] assms(2) Some by (simp add: sleep_current_task_def)
qed (simp add: sleep_current_task_def assms(1))

lemma clock_upd:
  assumes "arena_inv (tasks (sched k))" "clock_ok k" "\<And>t. real_runtime (f t) = real_runtime t \<and> time_slice (f t) = time_slice t"
  shows "clock_ok (upd_task i f k)"
  using assms(2,3) unfolding clock_ok_def by (auto simp: task_upd [OF assms(1)] split: if_splits)

lemma exit_ok:
  assumes k: "sched_inv k" "clock_ok k" and c: "current_task (sched k) = Some c" "idle_task_id (sched k) \<noteq> Some c" "task_at k c = Some t"
  shows "\<exists>k'. exit_thread k = Some k' \<and> sched_inv k' \<and> current_task (sched k') = Some c \<and> idle_task_id (sched k') = idle_task_id (sched k) \<and>
    (\<forall>j. task_at k' j = (if j = c then Some (t\<lparr>state := Zombie, join_queue := []\<rparr>)
       else if j \<in> set (join_queue t) then map_option (woken (system_runtime (sched k))) (task_at k j) else task_at k j))"
proof -
  let ?k1 = "upd_task c (\<lambda>t. t\<lparr>state := Zombie\<rparr>) k"
  note a = threads_arena [OF sched_invD(1) [OF k(1)]]
  have "sched_inv ?k1" by (rule current_upd_ok(1) [OF k(1) c(1,2)]) simp
  moreover have "clock_ok ?k1" by (rule clock_upd [OF a k(2)]) simp
  ultimately obtain k2 where
    k2: "wake_all (join_queue t) ?k1 = Some k2" "sched_inv k2" "clock_ok k2" "queue_change ?k1 k2"
      "\<And>j. task_at k2 j = (if j \<in> set (join_queue t) then map_option (woken (system_runtime (sched k))) (task_at ?k1 j) else task_at ?k1 j)"
    using wake_all_ok [of ?k1 "join_queue t"] by auto
  let ?k3 = "upd_task c (\<lambda>t. t\<lparr>join_queue := []\<rparr>) k2"
  have "sched_inv ?k3" by (rule quiet_upd_ok [OF k2(2)]) simp
  moreover have "exit_thread k = Some ?k3" using c k2(1) by (simp add: exit_thread_def)
  moreover have "woken V (t\<lparr>state := Zombie\<rparr>) = t\<lparr>state := Zombie\<rparr>" for V by (simp add: woken_def)
  then have "task_at ?k3 j = (if j = c then Some (t\<lparr>state := Zombie, join_queue := []\<rparr>)
       else if j \<in> set (join_queue t) then map_option (woken (system_runtime (sched k))) (task_at k j) else task_at k j)" for j
    using c(3) by (simp add: task_upd [OF threads_arena [OF sched_invD(1) [OF k2(2)]]] k2(5) task_upd [OF a])
  ultimately show ?thesis using queue_change_fields [OF k2(4)] c(1) by auto
qed

lemma join_ok:
  assumes k: "sched_inv k" and c: "current_task (sched k) = Some c" "idle_task_id (sched k) \<noteq> Some c" and t: "task_at k i = Some t" "state t \<noteq> Zombie" "i \<noteq> c"
  shows "\<exists>k'. join i k = Some (True, k') \<and> sched_inv k' \<and> current_task (sched k') = Some c \<and>
    (\<forall>j. task_at k' j = (if j = c then map_option (\<lambda>t. t\<lparr>state := Blocked\<rparr>) (task_at k c)
       else if j = i then Some (t\<lparr>join_queue := join_queue t @ [c]\<rparr>) else task_at k j))"
proof -
  let ?k1 = "upd_task c (\<lambda>t. t\<lparr>state := Blocked\<rparr>) k"
  let ?k2 = "upd_task i (\<lambda>t. t\<lparr>join_queue := join_queue t @ [c]\<rparr>) ?k1"
  note a = threads_arena [OF sched_invD(1) [OF k]]
  have i1: "sched_inv ?k1" by (rule current_upd_ok(1) [OF k c]) simp
  have "sched_inv ?k2" by (rule quiet_upd_ok [OF i1]) simp
  moreover from sched_invD(1) [OF k] c obtain u where u: "task_at k c = Some u" unfolding threads_ok_def by blast
  have "join i k = Some (True, ?k2)" using c t u by (simp add: join_def)
  moreover have "task_at ?k2 j = (if j = c then map_option (\<lambda>t. t\<lparr>state := Blocked\<rparr>) (task_at k c)
       else if j = i then Some (t\<lparr>join_queue := join_queue t @ [c]\<rparr>) else task_at k j)" for j
    using t by (simp add: task_upd [OF threads_arena [OF sched_invD(1) [OF i1]]] task_upd [OF a])
  ultimately show ?thesis using c(1) by auto
qed

section \<open>New threads\<close>

lemma thread_new_ok:
  assumes "thread_new exit_addr stk s entry wt m = Some (t, m1)"
  shows "state t = Ready" "burst_score t = 0" "stack_ptr t = stk" "stack_len t = KERNEL_STACK_SIZE" "th_pid t = 0" "join_queue t = []"
    "stack_pointer t = stk + KERNEL_STACK_SIZE - 176" "stk + KERNEL_STACK_SIZE < 2 ^ 64"
    "m1 = ctx_write (wr64 (wr_bytes m stk 0 KERNEL_STACK_SIZE) (stk + KERNEL_STACK_SIZE - 8) exit_addr) (stk + KERNEL_STACK_SIZE - 176)
       (start_context entry (stk + KERNEL_STACK_SIZE - 8))"
proof -
  have k: "KERNEL_STACK_SIZE = 131072" by (simp add: KERNEL_STACK_SIZE_def)
  from assms have b: "stk + KERNEL_STACK_SIZE < 2 ^ 64" by (auto simp: thread_new_def uadd_def split: if_splits)
  then have "uadd stk KERNEL_STACK_SIZE = Some (stk + KERNEL_STACK_SIZE)" "usub (stk + KERNEL_STACK_SIZE) 8 = Some (stk + KERNEL_STACK_SIZE - 8)"
    "usub (stk + KERNEL_STACK_SIZE - 8) CONTEXT_SIZE = Some (stk + KERNEL_STACK_SIZE - 176)"
    by (simp_all add: uadd_def usub_def CONTEXT_SIZE_def k)
  note n = assms [unfolded thread_new_def this bind.bind_lunit Let_def]
  then have *: "\<exists>sl lg d. (t, m1) = (\<lparr>tid = 0, th_pid = 0, stack_pointer = stk + KERNEL_STACK_SIZE - 176, state = Ready, th_page_table = 0, stack_ptr = stk,
       stack_len = KERNEL_STACK_SIZE, weight = wt, real_runtime = 0, vruntime = 0, lag = lg, time_slice = sl, deadline = d,
       burst_score = 0, rb_node = 0, next_waiter = None, join_queue = []\<rparr>,
     ctx_write (wr64 (wr_bytes m stk 0 KERNEL_STACK_SIZE) (stk + KERNEL_STACK_SIZE - 8) exit_addr) (stk + KERNEL_STACK_SIZE - 176)
       (start_context entry (stk + KERNEL_STACK_SIZE - 8)))"
    unfolding bind_eq_Some_conv by blast
  then show "state t = Ready" "burst_score t = 0" "stack_ptr t = stk" "stack_len t = KERNEL_STACK_SIZE" "th_pid t = 0" "join_queue t = []"
    "stack_pointer t = stk + KERNEL_STACK_SIZE - 176"
    "m1 = ctx_write (wr64 (wr_bytes m stk 0 KERNEL_STACK_SIZE) (stk + KERNEL_STACK_SIZE - 8) exit_addr) (stk + KERNEL_STACK_SIZE - 176)
       (start_context entry (stk + KERNEL_STACK_SIZE - 8))" by auto
  show "stk + KERNEL_STACK_SIZE < 2 ^ 64" by (rule b)
qed

lemma ctx_read_write:
  assumes "\<forall>v \<in> set (ctx_words t). v < 2 ^ 64"
  shows "ctx_read (ctx_write m p t) p = t"
proof -
  have w: "rd64 (ctx_write m p t) (p + 8 * i) = ctx_words t ! i" if "i < 21" for i
    unfolding ctx_write_def using rd64_wr_words [of i "ctx_words t" m p] assms that by (simp add: ctx_words_def)
  show ?thesis
    using w [of 0] w [of 1] w [of 2] w [of 3] w [of 4] w [of 5] w [of 6] w [of 7] w [of 8] w [of 9] w [of 10] w [of 11]
      w [of 12] w [of 13] w [of 14] w [of 15] w [of 16] w [of 17] w [of 18] w [of 19] w [of 20]
    unfolding ctx_read_def by (simp add: ctx_words_def)
qed

lemma ctx_write_other:
  "x < p \<or> p + 168 \<le> x \<Longrightarrow> ctx_write m p t x = m x" "b + 8 \<le> p \<or> p + 168 \<le> b \<Longrightarrow> rd64 (ctx_write m p t) b = rd64 m b"
proof -
  have l: "8 * length (ctx_words t) = 168" by (simp add: ctx_words_def)
  show "x < p \<or> p + 168 \<le> x \<Longrightarrow> ctx_write m p t x = m x" unfolding ctx_write_def using l by (intro wr_words_other) simp
  show "b + 8 \<le> p \<or> p + 168 \<le> b \<Longrightarrow> rd64 (ctx_write m p t) b = rd64 m b" unfolding ctx_write_def using l by (intro rd64_wr_words_other) simp
qed

text \<open>
  C36. A new thread starts at its entry point.  When a handler returns the saved stack pointer of the
  thread to the timer stub, the processor runs \<open>entry\<close> in ring 0 with interrupts enabled, all other
  registers zero, and a stack whose top is the return address \<open>exit_thread\<close>; nothing outside the stack
  of the thread was written when it was made.
\<close>

theorem new_thread_starts:
  assumes new: "thread_new exit_addr stk s entry wt m = Some (t, m1)" "exit_addr < 2 ^ 64" "entry < 2 ^ 64"
    and c: "regs c RSP = p + 128" "p + 168 < 2 ^ 64" "\<forall>r. regs c r < 2 ^ 64"
    and h: "H p (saved_memory c p) = Some (r, m2)" "r RAX = stack_pointer t"
    and keep: "\<forall>x. stk \<le> x \<longrightarrow> x < stk + KERNEL_STACK_SIZE \<longrightarrow> m2 x = m1 x"
  shows "\<exists>c'. run H timer_isr c = Some c' \<and> rip c' = entry \<and> cs c' = 0x8 \<and> rflags c' = 0x202 \<and>
      regs c' RSP = stk + KERNEL_STACK_SIZE - 8 \<and> rd64 (memory c') (regs c' RSP) = exit_addr \<and> (\<forall>r. r \<noteq> RSP \<longrightarrow> regs c' r = 0) \<and>
      (\<forall>x. x < stk \<or> stk + KERNEL_STACK_SIZE \<le> x \<longrightarrow> m1 x = m x)"
proof -
  let ?top = "stk + KERNEL_STACK_SIZE"
  let ?t = "start_context entry (?top - 8)"
  note n = thread_new_ok [OF new(1)]
  have k: "KERNEL_STACK_SIZE = 131072" by (simp add: KERNEL_STACK_SIZE_def)
  have "ctx_read m2 (?top - 176) = ctx_read m1 (?top - 176)" using keep k by (intro ctx_read_cong) auto
  also have "\<dots> = ?t" unfolding n(9) by (rule ctx_read_write) (use new n(8) in \<open>auto simp: ctx_words_def start_context_def\<close>)
  finally have ctx: "ctx_read m2 (r RAX) = ?t" using h(2) n(7) by simp
  have "rd64 m2 (?top - 8) = rd64 m1 (?top - 8)" using keep k by (intro rd64_cong) auto
  also have "\<dots> = exit_addr" unfolding n(9) using new(2) k by (subst ctx_write_other(2)) (simp_all add: rd64_wr64_same)
  finally have ret: "rd64 m2 (?top - 8) = exit_addr" .
  have q: "r RAX + 168 < 2 ^ 64" using h(2) n(7,8) k by simp
  have "run H timer_isr c = (let c = (if from_user (interrupted c p) then swap_gs c else c) in Some (resumed ?t ((if from_user ?t then swap_gs c else c)\<lparr>memory := m2\<rparr>)))"
    using timer_isr_run [OF c, of H] h(1) q ctx by (simp add: saved_memory_def Let_def)
  moreover have "m1 x = m x" if "x < stk \<or> ?top \<le> x" for x
    unfolding n(9) using that k by (subst ctx_write_other(1)) (auto simp: mem_frame)
  ultimately show ?thesis
    using ret by (auto simp: Let_def resumed_def start_context_def ctx_regs_def split: reg.splits)
qed

definition sample_thread :: "thread \<times> mem" where
  "sample_thread = the (thread_new 8192 1048576 scheduler_new 4096 1024 (\<lambda>_. 0))"

lemma sample_thread: "thread_new 8192 1048576 scheduler_new 4096 1024 (\<lambda>_. 0) = Some (fst sample_thread, snd sample_thread)"
proof -
  have "thread_new 8192 1048576 scheduler_new 4096 1024 (\<lambda>_. 0) \<noteq> None"
    by (simp add: thread_new_def uadd_def usub_def umul_def udiv_def ushl_def isub_def as_i64_def scheduler_new_def
      CONTEXT_SIZE_def KERNEL_STACK_SIZE_def SCHEDULER_TARGET_LATENCY_def SCHEDULER_MIN_GRANULARITY_def NICE_0_LOAD_def Let_def)
  then show ?thesis by (auto simp: sample_thread_def)
qed

theorem new_thread_starts_witness:
  "\<exists>c'. run (\<lambda>_ _. Some (\<lambda>_. stack_pointer (fst sample_thread), snd sample_thread)) timer_isr sample_cpu = Some c' \<and> rip c' = 4096 \<and>
     rd64 (memory c') (regs c' RSP) = 8192"
proof -
  have "regs sample_cpu RSP = 4096 + 128" "\<forall>r. regs sample_cpu r < 2 ^ 64" by (simp_all add: sample_cpu_def)
  from new_thread_starts [OF sample_thread _ _ this(1) _ this(2), where H = "\<lambda>_ _. Some (\<lambda>_. stack_pointer (fst sample_thread), snd sample_thread)"]
  show ?thesis by auto
qed

section \<open>The kernel as a state machine\<close>

text \<open>The hypotheses of a call of the scheduler.\<close>

definition schedulable :: "pt_ops \<Rightarrow> (buddy_st \<Rightarrow> bool) \<Rightarrow> kernel \<Rightarrow> bool" where
  "schedulable P M k \<longleftrightarrow> idle_task_id (sched k) \<noteq> None \<and> clock_ok k \<and> reclaimable P M k \<and> placed_ok P k \<and>
     (\<forall>i t. task_at k i = Some t \<longrightarrow> i \<notin> set (graveyard (sched k)) \<longrightarrow> process_at k (th_pid t) \<noteq> None \<and> th_pid t \<notin> dying k)"

text \<open>
  The steps: making a thread (\<open>spawn\<close>, and \<open>spawn_user_process\<close>, which also sets the process), the
  idle task, waking, sleeping, joining and exiting, and a timer tick.  Memory, page tables and the table of
  processes may change in between.  The idle task neither sleeps, joins nor exits.
\<close>

inductive kstep :: "pt_ops \<Rightarrow> kernel \<Rightarrow> kernel \<Rightarrow> bool" for P where
  step_spawn: "thread_new exit_addr stk (sched k) entry wt m = Some (t, m') \<Longrightarrow> node_heap k node = None \<Longrightarrow> aligned_node node \<Longrightarrow>
     add_task node (t\<lparr>th_pid := p\<rparr>) k = Some (i, k') \<Longrightarrow> kstep P k k'"
| step_idle: "thread_new exit_addr stk (sched k) entry wt m = Some (t, m') \<Longrightarrow> idle_task_id (sched k) = None \<Longrightarrow>
     set_idle_task t k = Some k' \<Longrightarrow> kstep P k k'"
| step_env: "kstep P k (set_sched (\<lambda>s. s\<lparr>processes := ps\<rparr>) (k\<lparr>phys := m\<rparr>))"
| step_wake: "clock_ok k \<Longrightarrow> wake_task i k = Some k' \<Longrightarrow> kstep P k k'"
| step_sleep: "idle_task_id (sched k) \<noteq> current_task (sched k) \<Longrightarrow> sleep_current_task k = Some k' \<Longrightarrow> kstep P k k'"
| step_join: "idle_task_id (sched k) \<noteq> current_task (sched k) \<Longrightarrow> join i k = Some (b, k') \<Longrightarrow> kstep P k k'"
| step_exit: "idle_task_id (sched k) \<noteq> current_task (sched k) \<Longrightarrow> clock_ok k \<Longrightarrow> exit_thread k = Some k' \<Longrightarrow> kstep P k k'"
| step_tick: "schedulable P M k \<Longrightarrow> schedule P context k = Some (next, k') \<Longrightarrow> kstep P k k'"

lemma kstep_inv:
  assumes "kstep P k k'" "sched_inv k"
  shows "sched_inv k'"
  using assms
proof cases
  case (step_spawn exit_addr stk entry wt m t m' node p i)
  have "total_weight (sched k) + weight t < 2 ^ 64" using step_spawn(4) by (auto simp: add_task_def uadd_def split: if_splits)
  then show ?thesis
    using add_task_ok [OF assms(2), of "t\<lparr>th_pid := p\<rparr>" node] thread_new_ok(1,2) [OF step_spawn(1)] step_spawn by auto
next
  case (step_idle exit_addr stk entry wt m t m')
  then show ?thesis using set_idle_ok [OF assms(2) _ _ step_idle(2), of t] thread_new_ok(1,2) [OF step_idle(1)] by auto
next
  case (step_env ps m)
  then show ?thesis using assms(2) unfolding sched_inv_def threads_ok_def queue_ok_def current_ok_def runnable_def node_of_def by simp
next
  case (step_wake i)
  then show ?thesis using wake_task_ok [OF assms(2), of i] by auto
next
  case step_sleep
  then show ?thesis using sleep_ok [OF assms(2)] by auto
next
  case (step_join i b)
  from step_join(2) obtain c where c: "current_task (sched k) = Some c" by (auto simp: join_def bind_eq_Some_conv)
  then have "idle_task_id (sched k) \<noteq> Some c" using step_join(1) by simp
  from join_ok [OF assms(2) c this, of i] step_join(2) assms(2) c show ?thesis
    by (cases "task_at k i") (auto simp: join_def split: if_splits)
next
  case step_exit
  from step_exit(3) obtain c t where c: "current_task (sched k) = Some c" "task_at k c = Some t" by (auto simp: exit_thread_def bind_eq_Some_conv)
  then have "idle_task_id (sched k) \<noteq> Some c" using step_exit(1) by simp
  from exit_ok [OF assms(2) step_exit(2) c(1) this c(2)] step_exit(3) show ?thesis by auto
next
  case (step_tick M "context" "next")
  then obtain d where "idle_task_id (sched k) = Some d" "clock_ok k" "reclaimable P M k" "placed_ok P k"
    "\<forall>i t. task_at k i = Some t \<longrightarrow> i \<notin> set (graveyard (sched k)) \<longrightarrow> process_at k (th_pid t) \<noteq> None \<and> th_pid t \<notin> dying k"
    unfolding schedulable_def by blast
  from schedule_ok [OF assms(2) this(2,1,3-5), of "context"] step_tick(2) show ?thesis by auto
qed

text \<open>The kernel at boot: an empty scheduler.\<close>

definition at_boot :: "kernel \<Rightarrow> bool" where
  "at_boot k \<longleftrightarrow> sched k = scheduler_new"

lemma boot_inv: "at_boot k \<Longrightarrow> sched_inv k"
  unfolding at_boot_def sched_inv_def threads_ok_def queue_ok_def current_ok_def runnable_def scheduler_new_def
  using tq.empty arena_new_inv by simp



text \<open>
  C37. Exiting wakes the threads that wait in \<open>join\<close>.  \<open>exit_thread\<close> returns, the caller is a zombie that no
  longer counts as ready, every thread of its join queue that was blocked is ready and in the run queue, and no
  other thread changes.
\<close>

theorem exit_wakes_joiners:
  assumes "sched_inv k" "clock_ok k" "current_task (sched k) = Some c" "idle_task_id (sched k) \<noteq> Some c" "task_at k c = Some t"
  shows "\<exists>k'. exit_thread k = Some k' \<and> sched_inv k' \<and> task_at k' c = Some (t\<lparr>state := Zombie, join_queue := []\<rparr>) \<and>
    (\<forall>j u. j \<noteq> c \<longrightarrow> task_at k j = Some u \<longrightarrow>
       (if j \<in> set (join_queue t) \<and> (state u = Blocked \<or> state u = Sleeping) then j \<in> runnable k' \<and> node_of k' j = node_of k j
        else task_at k' j = Some u))"
proof -
  from exit_ok [OF assms] obtain k' where
    k': "exit_thread k = Some k'" "sched_inv k'" "current_task (sched k') = Some c" "idle_task_id (sched k') = idle_task_id (sched k)"
      "\<And>j. task_at k' j = (if j = c then Some (t\<lparr>state := Zombie, join_queue := []\<rparr>)
       else if j \<in> set (join_queue t) then map_option (woken (system_runtime (sched k))) (task_at k j) else task_at k j)" by blast
  have "j \<in> runnable k' \<and> node_of k' j = node_of k j"
    if j: "j \<noteq> c" "task_at k j = Some u" "j \<in> set (join_queue t)" "state u = Blocked \<or> state u = Sleeping" for j u
  proof -
    have "idle_task_id (sched k') \<noteq> Some j" using sched_invD(1) [OF assms(1)] j k'(4) unfolding threads_ok_def by fastforce
    then show ?thesis using j k'(3) by (auto simp: runnable_def node_of_def k'(5))
  qed
  moreover have "woken V u = u" if "\<not> (state u = Blocked \<or> state u = Sleeping)" for V u using that by (auto simp: woken_def)
  ultimately show ?thesis using k'(1,2) by (intro exI [of _ k']) (auto simp: k'(5))
qed

section \<open>A running kernel\<close>

definition sample_task :: thread where
  "sample_task = \<lparr>tid = 0, th_pid = 0, stack_pointer = 4096, state = Ready, th_page_table = 0, stack_ptr = 0, stack_len = 131072,
     weight = 1024, real_runtime = 0, vruntime = 0, lag = 0, time_slice = 6000000, deadline = 0, burst_score = 0, rb_node = 0,
     next_waiter = None, join_queue = []\<rparr>"

definition sample_process :: process where
  "sample_process = \<lparr>pid = 0, ppid = 0, exit_code = None, is_zombie = False, wait_queue = [], page_table = 8388608, heap_start = 0,
     program_break = 0, stack_start = 0, stack_end = 0, fd_table = []\<rparr>"

text \<open>The idle task and a running thread with a joiner.\<close>

definition sample_kernel :: kernel where
  "sample_kernel = \<lparr>sched = \<lparr>processes = [Some sample_process],
       tasks = \<lparr>slots = [Occupied sample_task, Occupied (sample_task\<lparr>tid := 1, rb_node := 64, join_queue := [2]\<rparr>),
         Occupied (sample_task\<lparr>tid := 2, rb_node := 128, state := Blocked\<rparr>)], free_head = None\<rparr>,
       total_weight = 2048, system_runtime = 0, current_task = Some 1, tree_root = 0, idle_task_id = Some 0, graveyard = []\<rparr>,
     node_heap = [64 \<mapsto> (sample_node 0 0)\<lparr>sn_task_id := 1\<rparr>, 128 \<mapsto> (sample_node 0 0)\<lparr>sn_task_id := 2\<rparr>],
     bounds = bounds_new, cr3 = 8388608, kernel_rsp = 0, tss_rsp0 = 0, phys = (\<lambda>_. 0, sample_hbuddy)\<rparr>"

lemma sample_tasks:
  "task_at sample_kernel i = (if i = 0 then Some sample_task else if i = 1 then Some (sample_task\<lparr>tid := 1, rb_node := 64, join_queue := [2]\<rparr>)
     else if i = 2 then Some (sample_task\<lparr>tid := 2, rb_node := 128, state := Blocked\<rparr>) else None)"
  by (auto simp: sample_kernel_def arena_get_def less_Suc_eq numeral_2_eq_2 numeral_3_eq_3 nth_Cons')

lemma sample_sched:
  "current_task (sched sample_kernel) = Some 1" "idle_task_id (sched sample_kernel) = Some 0" "graveyard (sched sample_kernel) = []"
  "tree_root (sched sample_kernel) = 0" "system_runtime (sched sample_kernel) = 0"
  "process_at sample_kernel p = (if p = 0 then Some sample_process else None)"
  by (simp_all add: sample_kernel_def process_at_def)

lemma sample_runnable: "runnable sample_kernel = {}" "contenders sample_kernel = {1}"
  by (auto simp: runnable_def contenders_def sample_tasks sample_sched sample_task_def split: if_splits)

lemma sample_kernel_inv: "sched_inv sample_kernel"
proof -
  have "arena_inv (tasks (sched sample_kernel))"
    unfolding arena_inv_def by (rule exI [of _ "[]"]) (simp add: sample_tasks, simp add: sample_kernel_def less_Suc_eq numeral_3_eq_3)
  then have "threads_ok sample_kernel"
    unfolding threads_ok_def by (auto simp: sample_tasks sample_sched node_ok_def aligned_node_def)
      (auto simp: sample_task_def sample_kernel_def)
  then show ?thesis unfolding sched_inv_def current_ok_def queue_ok_def by (simp add: sample_runnable sample_sched tq.empty)
qed

lemma sample_schedulable: "schedulable sample_pt (\<lambda>_. True) sample_kernel"
  unfolding schedulable_def clock_ok_def reclaimable_def placed_ok_def dying_def
  by (auto simp: sample_tasks sample_sched sample_pt_def sample_process_def canonical_def) (auto simp: sample_task_def)


theorem exit_wakes_joiners_witness: "\<exists>k'. exit_thread sample_kernel = Some k' \<and> 2 \<in> runnable k'"
proof -
  have t: "task_at sample_kernel 1 = Some (sample_task\<lparr>tid := 1, rb_node := 64, join_queue := [2]\<rparr>)" by (simp add: sample_tasks)
  have "clock_ok sample_kernel" using sample_schedulable unfolding schedulable_def by blast
  from exit_wakes_joiners [OF sample_kernel_inv this sample_sched(1) _ t] obtain k' where
    k: "exit_thread sample_kernel = Some k'" and r: "\<forall>j u. j \<noteq> 1 \<longrightarrow> task_at sample_kernel j = Some u \<longrightarrow>
       (if j \<in> set (join_queue (sample_task\<lparr>tid := 1, rb_node := 64, join_queue := [2]\<rparr>)) \<and> (state u = Blocked \<or> state u = Sleeping)
        then j \<in> runnable k' \<and> node_of k' j = node_of sample_kernel j else task_at k' j = Some u)"
    unfolding sample_sched by auto
  from r [rule_format, of 2] have "2 \<in> runnable k'" by (simp add: sample_tasks)
  with k show ?thesis by blast
qed


end
