(* ===== verification/Sync.thy ===== *)
theory Sync
  imports Scheduler_Props
begin

text \<open>
  Blocking synchronisation: the wait queues, the mutex and the semaphore of \<^verbatim>\<open>src/sync/sync.rs\<close>
  and the mailbox of \<^verbatim>\<open>src/sync/ipc.rs\<close>, on top of the scheduler.

  A turn of the loops of \<open>lock\<close> and \<open>acquire\<close> runs with interrupts disabled on the one processor of the machine,
  as does \<open>wake_one\<close>; each is one function of the model.  The steps of all threads are interleaved by the relation
  \<open>sync_step\<close>, with timer ticks in between.  The locale \<open>waitable\<close> states what an object that threads wait for promises
  and proves once that no wake-up is lost; the mutex and the mailbox are its interpretations.
\<close>


section \<open>Wait queues\<close>

text \<open>\<open>WaitQueue::wake_one\<close>: the identifier of the thread that was woken, and the queue without it.\<close>

definition wake_one :: "usize list \<Rightarrow> kernel \<Rightarrow> (usize option \<times> usize list \<times> kernel) option" where
  "wake_one waiters k =
     (case waiters of
        [] \<Rightarrow> Some (None, [], k)
      | head_id # waiters \<Rightarrow> do { k \<leftarrow> wake_task head_id k; Some (Some head_id, waiters, k) })"

text \<open>The part that \<open>Mutex::lock\<close> and \<open>Semaphore::acquire\<close> share: the running thread goes to the end of the queue.\<close>

definition block_current :: "usize list \<Rightarrow> kernel \<Rightarrow> (usize list \<times> kernel) option" where
  "block_current waiters k = do {
     current_id \<leftarrow> current_task (sched k);
     t \<leftarrow> task_at k current_id;
     Some (waiters @ [current_id], upd_task current_id (\<lambda>t. t\<lparr>state := Blocked\<rparr>) k)
   }"

section \<open>Mutexes\<close>

record 'a mutex =
  is_locked :: bool
  mx_data :: 'a

definition mutex_new :: "'a \<Rightarrow> 'a mutex" where
  "mutex_new data = \<lparr>is_locked = False, mx_data = data\<rparr>"

text \<open>One turn of the loop of \<open>Mutex::lock\<close>, which runs with interrupts disabled: the result says whether the lock was taken.\<close>

definition lock_turn :: "'a mutex \<Rightarrow> usize list \<Rightarrow> kernel \<Rightarrow> (bool \<times> 'a mutex \<times> usize list \<times> kernel) option" where
  "lock_turn m waiters k =
     (if \<not> is_locked m then Some (True, m\<lparr>is_locked := True\<rparr>, waiters, k)
      else do { (waiters, k) \<leftarrow> block_current waiters k; Some (False, m, waiters, k) })"

text \<open>The first half of \<open>MutexGuard::drop\<close>; the second is \<open>wake_one\<close>.\<close>

definition unlock_store :: "'a mutex \<Rightarrow> 'a mutex" where
  "unlock_store m = m\<lparr>is_locked := False\<rparr>"

section \<open>Semaphores\<close>

text \<open>
  One turn of the loop of \<open>Semaphore::acquire\<close> on the counter; \<open>weak\<close> says that \<open>compare_exchange_weak\<close> fails
  spuriously.
\<close>

definition acquire_turn :: "bool \<Rightarrow> usize \<Rightarrow> usize list \<Rightarrow> kernel \<Rightarrow> (bool \<times> usize \<times> usize list \<times> kernel) option" where
  "acquire_turn weak count waiters k =
     (if count > 0 then (if weak then Some (False, count, waiters, k) else Some (True, count - 1, waiters, k))
      else do { (waiters, k) \<leftarrow> block_current waiters k; Some (False, count, waiters, k) })"

text \<open>The first half of \<open>release\<close>; \<open>fetch_add\<close> wraps.\<close>

definition release_add :: "usize \<Rightarrow> usize" where
  "release_add count = (count + 1) mod 2 ^ 64"

section \<open>Mailboxes\<close>

record 'a mailbox =
  mb_queue :: "'a list"
  mb_available :: usize

definition mailbox_new :: "'a mailbox" where
  "mailbox_new = \<lparr>mb_queue = [], mb_available = 0\<rparr>"

text \<open>The steps of \<open>send\<close> and \<open>receive\<close> on the queue.\<close>

definition send_push :: "'a \<Rightarrow> 'a mailbox \<Rightarrow> 'a mailbox" where
  "send_push message b = b\<lparr>mb_queue := mb_queue b @ [message]\<rparr>"

definition send_release :: "'a mailbox \<Rightarrow> 'a mailbox" where
  "send_release b = b\<lparr>mb_available := release_add (mb_available b)\<rparr>"

definition receive_turn :: "bool \<Rightarrow> 'a mailbox \<Rightarrow> usize list \<Rightarrow> kernel \<Rightarrow> (bool \<times> 'a mailbox \<times> usize list \<times> kernel) option" where
  "receive_turn weak b waiters k = do {
     (got, n, waiters, k) \<leftarrow> acquire_turn weak (mb_available b) waiters k;
     Some (got, b\<lparr>mb_available := n\<rparr>, waiters, k)
   }"

definition receive_pop :: "'a mailbox \<Rightarrow> 'a option \<times> 'a mailbox" where
  "receive_pop b = (case mb_queue b of [] \<Rightarrow> (None, b) | m # q \<Rightarrow> (Some m, b\<lparr>mb_queue := q\<rparr>))"

section \<open>Threads that block\<close>

text \<open>
  Where a thread is with respect to one object: outside; in the loop that tries to take it; past the loop;
  about to give it back (to store the flag or to add to the counter); and between that and \<open>wake_one\<close>.
\<close>

datatype pc = Out | Trying | Inside | Giving | Waking

record 's sync =
  obj :: 's
  waiters :: "usize list"
  pcs :: "usize \<Rightarrow> pc"
  kern :: kernel

type_synonym 's turn = "bool \<Rightarrow> 's \<Rightarrow> usize list \<Rightarrow> kernel \<Rightarrow> (bool \<times> 's \<times> usize list \<times> kernel) option"

text \<open>A thread executes when it is the running one and has not given up the processor.\<close>

definition executing :: "kernel \<Rightarrow> usize \<Rightarrow> bool" where
  "executing k i \<longleftrightarrow> current_task (sched k) = Some i \<and> idle_task_id (sched k) \<noteq> Some i \<and> (\<exists>t. task_at k i = Some t \<and> state t = Ready)"

text \<open>What the rest of the kernel leaves alone: a thread in the middle of an operation neither changes state nor
  dies, and one that holds the object does not die.\<close>

definition in_op :: "pc \<Rightarrow> bool" where
  "in_op p \<longleftrightarrow> p = Trying \<or> p = Giving \<or> p = Waking"

definition keeps_threads :: "(usize \<Rightarrow> pc) \<Rightarrow> kernel \<Rightarrow> kernel \<Rightarrow> bool" where
  "keeps_threads f k k' \<longleftrightarrow> (\<forall>i t. f i \<noteq> Out \<longrightarrow> task_at k i = Some t \<longrightarrow> idle_task_id (sched k') \<noteq> Some i \<and>
     (\<exists>u. task_at k' i = Some u \<and> (if in_op (f i) then state u = state t else state u \<noteq> Zombie)))"

text \<open>
  The steps of all threads on one object.  \<open>move\<close> is what a thread does on the object besides (reading and writing
  the data, queueing and fetching messages), \<open>isr\<close> what an interrupt handler does before it gives.  A turn of the
  loops, the wake-up and an interrupt run with interrupts disabled and are one step; a timer tick may come between
  any two.
\<close>

inductive sync_step :: "pt_ops \<Rightarrow> 's turn \<Rightarrow> ('s \<Rightarrow> 's) \<Rightarrow> ('s \<Rightarrow> pc \<Rightarrow> 's \<Rightarrow> pc \<Rightarrow> bool) \<Rightarrow> ('s \<Rightarrow> 's \<Rightarrow> bool) \<Rightarrow> 's sync \<Rightarrow> 's sync \<Rightarrow> bool"
  for P turn give move isr where
  sync_begin: "executing (kern s) i \<Longrightarrow> pcs s i = Out \<Longrightarrow>
     sync_step P turn give move isr s (s\<lparr>pcs := (pcs s)(i := Trying)\<rparr>)"
| sync_turn: "executing (kern s) i \<Longrightarrow> pcs s i = Trying \<Longrightarrow> turn w (obj s) (waiters s) (kern s) = Some (got, x, ws, k) \<Longrightarrow>
     sync_step P turn give move isr s \<lparr>obj = x, waiters = ws, pcs = (if got then (pcs s)(i := Inside) else pcs s), kern = k\<rparr>"
| sync_move: "executing (kern s) i \<Longrightarrow> move (obj s) (pcs s i) x p \<Longrightarrow>
     sync_step P turn give move isr s (s\<lparr>obj := x, pcs := (pcs s)(i := p)\<rparr>)"
| sync_give: "executing (kern s) i \<Longrightarrow> pcs s i = Giving \<Longrightarrow>
     sync_step P turn give move isr s (s\<lparr>obj := give (obj s), pcs := (pcs s)(i := Waking)\<rparr>)"
| sync_wake: "executing (kern s) i \<Longrightarrow> pcs s i = Waking \<Longrightarrow> clock_ok (kern s) \<Longrightarrow> wake_one (waiters s) (kern s) = Some (r, ws, k) \<Longrightarrow>
     sync_step P turn give move isr s (s\<lparr>waiters := ws, pcs := (pcs s)(i := Out), kern := k\<rparr>)"
| sync_isr: "isr (obj s) x \<Longrightarrow> clock_ok (kern s) \<Longrightarrow> wake_one (waiters s) (kern s) = Some (r, ws, k) \<Longrightarrow>
     sync_step P turn give move isr s (s\<lparr>obj := give x, waiters := ws, kern := k\<rparr>)"
| sync_tick: "schedulable P M (kern s) \<Longrightarrow> schedule P context (kern s) = Some (c, k) \<Longrightarrow>
     sync_step P turn give move isr s (s\<lparr>kern := k\<rparr>)"
| sync_other: "kstep P (kern s) k \<Longrightarrow> keeps_threads (pcs s) (kern s) k \<Longrightarrow>
     sync_step P turn give move isr s (s\<lparr>kern := k\<rparr>)"

text \<open>
  The discipline: a thread waits exactly while it is blocked, it is in the loop then, and as long as anyone waits
  the object has no more units to take than there are threads that are about to wake a waiter or that are
  awake in the loop.
\<close>

definition awake :: "'s sync \<Rightarrow> usize set" where
  "awake s = {i. pcs s i = Waking \<or> pcs s i = Trying \<and> i \<notin> set (waiters s)}"

definition state_for :: "bool \<Rightarrow> pc \<Rightarrow> thread_state \<Rightarrow> bool" where
  "state_for waiting p st \<longleftrightarrow> (if waiting then st = Blocked else if in_op p then st = Ready else st \<noteq> Zombie)"

definition threads_in :: "'s sync \<Rightarrow> bool" where
  "threads_in s \<longleftrightarrow> (\<forall>i. pcs s i \<noteq> Out \<longrightarrow> idle_task_id (sched (kern s)) \<noteq> Some i \<and> (\<exists>t. task_at (kern s) i = Some t \<and>
     state_for (i \<in> set (waiters s)) (pcs s i) (state t)))"

definition wait_inv :: "('s \<Rightarrow> nat) \<Rightarrow> 's sync \<Rightarrow> bool" where
  "wait_inv tokens s \<longleftrightarrow> sched_inv (kern s) \<and> distinct (waiters s) \<and> (\<forall>i \<in> set (waiters s). pcs s i = Trying) \<and> threads_in s \<and>
     (waiters s \<noteq> [] \<longrightarrow> tokens (obj s) \<le> card (awake s))"

section \<open>The discipline is kept\<close>

lemma state_for_simps [simp]: "state_for True p st \<longleftrightarrow> st = Blocked" "state_for False p Ready"
  by (auto simp: state_for_def)

lemma state_for_alive: "state_for w p st \<Longrightarrow> st \<noteq> Zombie"
  by (auto simp: state_for_def split: if_splits)

lemma awake_finite: "threads_in s \<Longrightarrow> sched_inv (kern s) \<Longrightarrow> finite {i. pcs s i \<noteq> Out}"
  by (rule finite_subset [OF _ ar.finite_keys [OF threads_arena [OF sched_invD(1)]]]) (auto simp: threads_in_def)

lemma awake_finite': "wait_inv tokens s \<Longrightarrow> finite (awake s)"
  by (rule finite_subset [OF _ awake_finite [of s]]) (auto simp: wait_inv_def awake_def)

lemma executing_not_waiting:
  assumes "wait_inv tokens s" "executing (kern s) i"
  shows "i \<notin> set (waiters s)"
proof
  assume "i \<in> set (waiters s)"
  with assms(1) have "pcs s i \<noteq> Out" unfolding wait_inv_def by fastforce
  with assms \<open>i \<in> set (waiters s)\<close> show False unfolding wait_inv_def threads_in_def executing_def by fastforce
qed

lemma block_current_ok:
  assumes "sched_inv k" "executing k i"
  shows "\<exists>k'. block_current ws k = Some (ws @ [i], k') \<and> sched_inv k' \<and> idle_task_id (sched k') = idle_task_id (sched k) \<and>
    (\<forall>j. task_at k' j = (if j = i then map_option (\<lambda>t. t\<lparr>state := Blocked\<rparr>) (task_at k i) else task_at k j))"
proof -
  let ?k = "upd_task i (\<lambda>t. t\<lparr>state := Blocked\<rparr>) k"
  have "block_current ws k = Some (ws @ [i], ?k)" using assms(2) by (auto simp: executing_def block_current_def)
  moreover have "sched_inv ?k" using assms by (intro current_upd_ok(1)) (auto simp: executing_def)
  ultimately show ?thesis using task_upd [OF threads_arena [OF sched_invD(1) [OF assms(1)]]] by simp
qed

text \<open>\<open>wake_one\<close> on the queue of an object.\<close>

lemma wake_one_ok:
  assumes i: "wait_inv tokens s" "clock_ok (kern s)" and w: "wake_one (waiters s) (kern s) = Some (r, ws, k)"
  shows "sched_inv k" "distinct ws" "\<forall>j \<in> set ws. pcs s j = Trying" "threads_in (s\<lparr>waiters := ws, kern := k\<rparr>)"
    "case waiters s of [] \<Rightarrow> ws = [] | h # _ \<Rightarrow> waiters s = h # ws \<and> h \<notin> awake s \<and> pcs s h = Trying"
proof -
  have *: "sched_inv k \<and> distinct ws \<and> (\<forall>j \<in> set ws. pcs s j = Trying) \<and> threads_in (s\<lparr>waiters := ws, kern := k\<rparr>) \<and>
    (case waiters s of [] \<Rightarrow> ws = [] | h # _ \<Rightarrow> waiters s = h # ws \<and> h \<notin> awake s \<and> pcs s h = Trying)"
  proof (cases "waiters s")
    case Nil
    with w have "ws = []" "k = kern s" by (simp_all add: wake_one_def)
    with i(1) Nil show ?thesis by (auto simp: wait_inv_def threads_in_def)
  next
    case (Cons h vs)
    have sv: "sched_inv (kern s)" using i(1) unfolding wait_inv_def by blast
    from wake_task_ok [OF sv i(2), of h] obtain k' where
      k': "wake_task h (kern s) = Some k'" "sched_inv k'" "queue_change (kern s) k'"
        "\<And>j. task_at k' j = (if j = h then map_option (woken (system_runtime (sched (kern s)))) (task_at (kern s) h) else task_at (kern s) j)" by blast
    with w Cons have e: "ws = vs" "k = k'" by (simp_all add: wake_one_def)
    have h: "pcs s h = Trying" "h \<notin> set vs" "distinct vs" "\<forall>j \<in> set vs. pcs s j = Trying" using i(1) Cons unfolding wait_inv_def by auto
    have ti: "threads_in s" using i(1) unfolding wait_inv_def by blast
    from ti [unfolded threads_in_def, rule_format, of h] h(1) Cons obtain t where t: "task_at (kern s) h = Some t" "state t = Blocked" by auto
    have "threads_in (s\<lparr>waiters := vs, kern := k'\<rparr>)" unfolding threads_in_def
    proof (intro allI impI)
      fix j assume "pcs (s\<lparr>waiters := vs, kern := k'\<rparr>) j \<noteq> Out"
      with ti Cons have "idle_task_id (sched (kern s)) \<noteq> Some j \<and> (\<exists>t. task_at (kern s) j = Some t \<and>
          state_for (j \<in> set (h # vs)) (pcs s j) (state t))"
        unfolding threads_in_def by simp
      then show "idle_task_id (sched (kern (s\<lparr>waiters := vs, kern := k'\<rparr>))) \<noteq> Some j \<and> (\<exists>t. task_at (kern (s\<lparr>waiters := vs, kern := k'\<rparr>)) j = Some t \<and>
          state_for (j \<in> set (waiters (s\<lparr>waiters := vs, kern := k'\<rparr>))) (pcs (s\<lparr>waiters := vs, kern := k'\<rparr>) j) (state t))"
        using h t by (cases "j = h") (auto simp: k'(4) queue_change_fields [OF k'(3)])
    qed
    with k'(2) e h Cons show ?thesis by (auto simp: awake_def)
  qed
  then show "sched_inv k" "distinct ws" "\<forall>j \<in> set ws. pcs s j = Trying" "threads_in (s\<lparr>waiters := ws, kern := k\<rparr>)"
    "case waiters s of [] \<Rightarrow> ws = [] | h # _ \<Rightarrow> waiters s = h # ws \<and> h \<notin> awake s \<and> pcs s h = Trying" by simp_all
qed

text \<open>A timer tick changes the state of no thread that is alive.\<close>

lemma tick_keeps:
  assumes "wait_inv tokens s" "schedulable P M (kern s)" "schedule P context (kern s) = Some (c, k)"
  shows "sched_inv k \<and> keeps_threads (pcs s) (kern s) k"
proof -
  have sv: "sched_inv (kern s)" using assms(1) unfolding wait_inv_def by blast
  from assms(2) obtain d where d: "idle_task_id (sched (kern s)) = Some d" "clock_ok (kern s)" "reclaimable P M (kern s)" "placed_ok P (kern s)"
    "\<forall>i t. task_at (kern s) i = Some t \<longrightarrow> i \<notin> set (graveyard (sched (kern s))) \<longrightarrow> process_at (kern s) (th_pid t) \<noteq> None \<and> th_pid t \<notin> dying (kern s)"
    unfolding schedulable_def by blast
  from schedule_ok [OF sv d(2,1,3-5), of "context"] assms(3) have k: "sched_inv k" "idle_task_id (sched k) = Some d"
    "\<And>j. task_at k j = (if j \<in> set (graveyard (sched (kern s))) then None else left_task context (kern s) j)" by auto
  have "idle_task_id (sched k) \<noteq> Some i \<and> (\<exists>u. task_at k i = Some u \<and> (if in_op (pcs s i) then state u = state t else state u \<noteq> Zombie))"
    if i: "pcs s i \<noteq> Out" "task_at (kern s) i = Some t" for i t
  proof -
    have t: "idle_task_id (sched (kern s)) \<noteq> Some i" "state t \<noteq> Zombie" using assms(1) i state_for_alive unfolding wait_inv_def threads_in_def
      by (metis option.inject)+
    then have "i \<notin> set (graveyard (sched (kern s)))" using sched_invD(1) [OF sv] i(2) unfolding threads_ok_def by fastforce
    moreover have "\<exists>u. left_task context (kern s) i = Some u \<and> state u = state t" using i(2) t(2) by (auto simp: left_task_def)
    ultimately show ?thesis using t k(2) d(1) by (auto simp: k(3))
  qed
  with k(1) show ?thesis unfolding keeps_threads_def by blast
qed

lemma keeps_ok:
  assumes "wait_inv tokens s" "keeps_threads (pcs s) (kern s) k" "sched_inv k"
  shows "wait_inv tokens (s\<lparr>kern := k\<rparr>)"
proof -
  have "threads_in (s\<lparr>kern := k\<rparr>)" unfolding threads_in_def
  proof (intro allI impI)
    fix i assume "pcs (s\<lparr>kern := k\<rparr>) i \<noteq> Out"
    then have i: "pcs s i \<noteq> Out" by simp
    with assms(1) obtain t where t: "task_at (kern s) i = Some t"
      "state_for (i \<in> set (waiters s)) (pcs s i) (state t)"
      unfolding wait_inv_def threads_in_def by blast
    with assms(2) i obtain u where "idle_task_id (sched k) \<noteq> Some i" "task_at k i = Some u" "if in_op (pcs s i) then state u = state t else state u \<noteq> Zombie"
      unfolding keeps_threads_def by blast
    moreover have "i \<in> set (waiters s) \<Longrightarrow> in_op (pcs s i)" using assms(1) unfolding wait_inv_def in_op_def by blast
    ultimately show "idle_task_id (sched (kern (s\<lparr>kern := k\<rparr>))) \<noteq> Some i \<and> (\<exists>t. task_at (kern (s\<lparr>kern := k\<rparr>)) i = Some t \<and>
        state_for (i \<in> set (waiters (s\<lparr>kern := k\<rparr>))) (pcs (s\<lparr>kern := k\<rparr>) i) (state t))"
      using t(2) by (auto simp: state_for_def split: if_splits)
  qed
  with assms show ?thesis unfolding wait_inv_def by (simp add: awake_def)
qed

text \<open>Only the program counter of the executing thread changes.\<close>

lemma threads_in_pc:
  assumes "threads_in s" "executing (kern s) i" "i \<notin> set (waiters s)"
  shows "threads_in (s\<lparr>obj := x, pcs := (pcs s)(i := p)\<rparr>)"
  using assms unfolding threads_in_def executing_def by auto

locale waitable =
  fixes turn :: "'s turn"
    and give :: "'s \<Rightarrow> 's"
    and move :: "'s \<Rightarrow> pc \<Rightarrow> 's \<Rightarrow> pc \<Rightarrow> bool"
    and isr :: "'s \<Rightarrow> 's \<Rightarrow> bool"
    and tokens :: "'s \<Rightarrow> nat"
  assumes take: "tokens x > 0 \<Longrightarrow> turn w x ws k = Some (got, y, vs, l) \<Longrightarrow>
      vs = ws \<and> l = k \<and> (if got then tokens y + 1 = tokens x else y = x)"
    and wait: "tokens x = 0 \<Longrightarrow> turn w x ws k = Some (got, y, vs, l) \<Longrightarrow> \<not> got \<and> y = x \<and> block_current ws k = Some (vs, l)"
    and giving: "tokens (give x) \<le> tokens x + 1"
    and moving: "move x p y q \<Longrightarrow> tokens y = tokens x \<and> \<not> in_op p \<and> q \<noteq> Trying \<and> q \<noteq> Waking"
    and interrupting: "isr x y \<Longrightarrow> tokens y = tokens x"
begin

lemma turn_inv:
  assumes i: "wait_inv tokens s" "executing (kern s) i" "pcs s i = Trying" and t: "turn w (obj s) (waiters s) (kern s) = Some (got, x, ws, k)"
  shows "wait_inv tokens \<lparr>obj = x, waiters = ws, pcs = (if got then (pcs s)(i := Inside) else pcs s), kern = k\<rparr>"
proof -
  let ?s = "\<lparr>obj = x, waiters = ws, pcs = (if got then (pcs s)(i := Inside) else pcs s), kern = k\<rparr>"
  note ni = executing_not_waiting [OF i(1,2)]
  have w: "sched_inv (kern s)" "distinct (waiters s)" "\<forall>j \<in> set (waiters s). pcs s j = Trying" "threads_in s"
    "waiters s \<noteq> [] \<longrightarrow> tokens (obj s) \<le> card (awake s)" using i(1) unfolding wait_inv_def by auto
  show ?thesis
  proof (cases "tokens (obj s) > 0")
    case True
    note r = take [OF True t]
    show ?thesis
    proof (cases got)
      case True
      have a: "awake ?s = awake s - {i}" "i \<in> awake s" using True r ni i(3) by (auto simp: awake_def)
      then have "card (awake ?s) = card (awake s) - 1" by (simp add: card_Diff_singleton)
      moreover have "threads_in ?s" using threads_in_pc [OF w(4) i(2) ni, where x = x and p = Inside] True r by (simp add: threads_in_def)
      ultimately show ?thesis using True r w ni unfolding wait_inv_def by auto
    next
      case False
      then have "?s = s" using r by simp
      with i(1) show ?thesis by simp
    qed
  next
    case False
    note r = wait [OF _ t]
    from block_current_ok [OF w(1) i(2), of "waiters s"] r False have
      b: "ws = waiters s @ [i]" "sched_inv k" "idle_task_id (sched k) = idle_task_id (sched (kern s))" "x = obj s" "\<not> got"
        "\<And>j. task_at k j = (if j = i then map_option (\<lambda>t. t\<lparr>state := Blocked\<rparr>) (task_at (kern s) i) else task_at (kern s) j)" by auto
    have "threads_in ?s" using w(4) b i(2) unfolding threads_in_def executing_def by auto
    then show ?thesis using w b ni i(3) False unfolding wait_inv_def by auto
  qed
qed

lemma wake_inv:
  assumes i: "wait_inv tokens s" "clock_ok (kern s)" and w: "wake_one (waiters s) (kern s) = Some (r, ws, k)"
    and a: "\<And>h vs. waiters s = h # vs \<Longrightarrow> awake s' = insert h (awake s - X)" "tokens (obj s') + card X \<le> tokens (obj s) + 1"
      "X \<subseteq> awake s" "card X \<le> 1" "threads_in s'"
    and s': "waiters s' = ws" "kern s' = k" "\<forall>j \<in> set ws. pcs s' j = pcs s j"
  shows "wait_inv tokens s'"
proof -
  note o = wake_one_ok [OF i w]
  have "tokens (obj s') \<le> card (awake s')" if "ws \<noteq> []"
  proof (cases "waiters s")
    case (Cons h vs)
    then have h: "h \<notin> awake s" using o(5) by simp
    have f: "finite (awake s)" by (rule awake_finite' [OF i(1)])
    have "card (awake s') = Suc (card (awake s - X))" using a(1) [OF Cons] h f by simp
    also have "\<dots> = Suc (card (awake s)) - card X" using card_Diff_subset [OF finite_subset [OF a(3) f] a(3)] card_mono [OF f a(3)] by simp
    finally have "card (awake s') + card X = card (awake s) + 1" using card_mono [OF f a(3)] by simp
    moreover have "tokens (obj s) \<le> card (awake s)" using i(1) Cons unfolding wait_inv_def by simp
    ultimately show ?thesis using a(2) by simp
  qed (use o(5) that in simp)
  then show ?thesis using o(1-3) a(5) s' unfolding wait_inv_def by simp
qed

lemma step_inv:
  assumes "sync_step P turn give move isr s s'" "wait_inv tokens s"
  shows "wait_inv tokens s'"
  using assms(1)
proof cases
  case (sync_begin i)
  note ni = executing_not_waiting [OF assms(2) sync_begin(2)]
  have a: "awake s' = insert i (awake s)" using sync_begin ni by (auto simp: awake_def)
  have "card (awake s) \<le> card (awake s')" using awake_finite' [OF assms(2)] a by (simp add: card_insert_le)
  moreover have "threads_in s'" using threads_in_pc [OF _ sync_begin(2) ni, where x = "obj s" and p = Trying] assms(2) sync_begin(1) by (simp add: wait_inv_def)
  ultimately show ?thesis using assms(2) sync_begin ni unfolding wait_inv_def by auto
next
  case (sync_turn i w got x ws k)
  then show ?thesis using turn_inv [OF assms(2)] by simp
next
  case (sync_move i x p)
  note ni = executing_not_waiting [OF assms(2) sync_move(2)]
  note mv = moving [OF sync_move(3)]
  have "awake s' = awake s" using sync_move(1) mv ni by (auto simp: awake_def in_op_def)
  moreover have "threads_in s'" using threads_in_pc [OF _ sync_move(2) ni, where x = x and p = p] assms(2) sync_move(1) by (simp add: wait_inv_def)
  ultimately show ?thesis using assms(2) sync_move(1) mv ni unfolding wait_inv_def by auto
next
  case (sync_give i)
  note ni = executing_not_waiting [OF assms(2) sync_give(2)]
  have a: "awake s' = insert i (awake s)" "i \<notin> awake s" using sync_give ni by (auto simp: awake_def)
  have "card (awake s') = card (awake s) + 1" using awake_finite' [OF assms(2)] a by simp
  moreover have "threads_in s'" using threads_in_pc [OF _ sync_give(2) ni, where x = "give (obj s)" and p = Waking] assms(2) sync_give(1) by (simp add: wait_inv_def)
  ultimately show ?thesis using assms(2) sync_give ni giving [of "obj s"] unfolding wait_inv_def by auto
next
  case (sync_wake i r ws k)
  note ni = executing_not_waiting [OF assms(2) sync_wake(2)]
  note o = wake_one_ok [OF assms(2) sync_wake(4,5)]
  show ?thesis
  proof (rule wake_inv [OF assms(2) sync_wake(4,5), where X = "{i}"])
    show "awake s' = insert h (awake s - {i})" if "waiters s = h # vs" for h vs using that o(5) assms(2) sync_wake(1,3) by (auto simp: awake_def wait_inv_def)
    show "threads_in s'" using o(4) sync_wake(1) by (simp add: threads_in_def)
    show "\<forall>j \<in> set ws. pcs s' j = pcs s j" using o(3) sync_wake(1,3) by auto
  qed (use sync_wake in \<open>auto simp: awake_def\<close>)
next
  case (sync_isr x r ws k)
  note o = wake_one_ok [OF assms(2) sync_isr(3,4)]
  show ?thesis
  proof (rule wake_inv [OF assms(2) sync_isr(3,4), where X = "{}"])
    show "awake s' = insert h (awake s - {})" if "waiters s = h # vs" for h vs using that o(5) assms(2) sync_isr(1) by (auto simp: awake_def wait_inv_def)
    show "threads_in s'" using o(4) sync_isr(1) by (simp add: threads_in_def)
  qed (use sync_isr giving [of x] interrupting [OF sync_isr(2)] in auto)
next
  case (sync_tick M "context" c k)
  then show ?thesis using tick_keeps [OF assms(2)] keeps_ok [OF assms(2)] by blast
next
  case (sync_other k)
  then show ?thesis using keeps_ok [OF assms(2)] kstep_inv assms(2) unfolding wait_inv_def by blast
qed

end

text \<open>A thread that is awake will run: it is the running thread or in the run queue.\<close>

lemma awake_runs:
  assumes "wait_inv tokens s" "i \<in> awake s"
  shows "i \<in> runnable (kern s) \<or> current_task (sched (kern s)) = Some i"
proof -
  have i: "pcs s i \<noteq> Out" "in_op (pcs s i)" "i \<notin> set (waiters s)" using assms by (auto simp: awake_def in_op_def wait_inv_def)
  with assms(1) obtain t where "idle_task_id (sched (kern s)) \<noteq> Some i" "task_at (kern s) i = Some t" "state t = Ready"
    unfolding wait_inv_def threads_in_def by (auto simp: state_for_def)
  then show ?thesis by (auto simp: runnable_def)
qed

lemma not_lost:
  assumes "wait_inv tokens s" "waiters s \<noteq> []" "tokens (obj s) > 0"
  shows "\<exists>i \<in> awake s. i \<in> runnable (kern s) \<or> current_task (sched (kern s)) = Some i"
proof -
  have "awake s \<noteq> {}" using assms unfolding wait_inv_def by auto
  then show ?thesis using awake_runs [OF assms(1)] by blast
qed

definition sync_init :: "'s \<Rightarrow> kernel \<Rightarrow> 's sync" where
  "sync_init x k = \<lparr>obj = x, waiters = [], pcs = (\<lambda>_. Out), kern = k\<rparr>"

lemma wait_inv_init: "sched_inv k \<Longrightarrow> wait_inv tokens (sync_init x k)"
  by (simp add: wait_inv_def sync_init_def threads_in_def)

section \<open>The mutex\<close>

text \<open>The holder reads and writes the data and starts to drop the guard.\<close>

definition guard_move :: "'a mutex \<Rightarrow> pc \<Rightarrow> 'a mutex \<Rightarrow> pc \<Rightarrow> bool" where
  "guard_move m p m' q \<longleftrightarrow> p = Inside \<and> (q = Inside \<and> m'\<lparr>mx_data := mx_data m\<rparr> = m \<or> q = Giving \<and> m' = m)"

abbreviation mutex_step :: "pt_ops \<Rightarrow> 'a mutex sync \<Rightarrow> 'a mutex sync \<Rightarrow> bool" where
  "mutex_step P \<equiv> sync_step P (\<lambda>_. lock_turn) unlock_store guard_move (\<lambda>_ _. False)"

definition mutex_tokens :: "'a mutex \<Rightarrow> nat" where
  "mutex_tokens m = (if is_locked m then 0 else 1)"

lemma guard_move_locked: "guard_move m p m' q \<Longrightarrow> is_locked m' = is_locked m \<and> p = Inside \<and> (q = Inside \<or> q = Giving)"
proof -
  assume g: "guard_move m p m' q"
  have "is_locked m' = is_locked (m'\<lparr>mx_data := d\<rparr>)" for d by simp
  with g show ?thesis unfolding guard_move_def by metis
qed

interpretation mx: waitable "\<lambda>_. lock_turn" unlock_store guard_move "\<lambda>_ _. False" mutex_tokens
proof
  show "mutex_tokens y = mutex_tokens x \<and> \<not> in_op p \<and> q \<noteq> Trying \<and> q \<noteq> Waking" if "guard_move x p y q" for x y :: "'a mutex" and p q
    using guard_move_locked [OF that] by (auto simp: mutex_tokens_def in_op_def)
qed (auto simp: lock_turn_def unlock_store_def mutex_tokens_def bind_eq_Some_conv split: if_splits)

definition holds :: "'s sync \<Rightarrow> usize \<Rightarrow> bool" where
  "holds s i \<longleftrightarrow> pcs s i = Inside \<or> pcs s i = Giving"

definition mutex_inv :: "'a mutex sync \<Rightarrow> bool" where
  "mutex_inv s \<longleftrightarrow> (\<forall>i j. holds s i \<longrightarrow> holds s j \<longrightarrow> i = j) \<and> (is_locked (obj s) \<longleftrightarrow> (\<exists>i. holds s i))"

lemma mutex_inv_same: "mutex_inv s \<Longrightarrow> is_locked (obj s') = is_locked (obj s) \<Longrightarrow> (\<And>i. holds s' i = holds s i) \<Longrightarrow> mutex_inv s'"
  by (simp add: mutex_inv_def)

lemma mutex_step_inv:
  assumes "mutex_step P s s'" "mutex_inv s"
  shows "mutex_inv s'"
  using assms(1)
proof cases
  case (sync_begin i)
  then show ?thesis using mutex_inv_same [OF assms(2), of s'] by (auto simp: holds_def)
next
  case (sync_turn i w got x ws k)
  then show ?thesis
    using assms(2) mutex_inv_same [OF assms(2), of s'] by (auto simp: lock_turn_def holds_def mutex_inv_def bind_eq_Some_conv split: if_splits)
next
  case (sync_move i x p)
  then show ?thesis using guard_move_locked [OF sync_move(3)] mutex_inv_same [OF assms(2), of s'] by (auto simp: holds_def)
next
  case (sync_give i)
  then show ?thesis using assms(2) by (auto simp: unlock_store_def holds_def mutex_inv_def)
next
  case (sync_wake i r ws k)
  then show ?thesis using mutex_inv_same [OF assms(2), of s'] by (auto simp: holds_def)
qed (use mutex_inv_same [OF assms(2), of s'] in \<open>auto simp: holds_def\<close>)

lemma mutex_reach:
  assumes "(mutex_step P)\<^sup>*\<^sup>* (sync_init (mutex_new d) k) s" "sched_inv k"
  shows "mutex_inv s \<and> wait_inv mutex_tokens s"
  using assms(1)
proof (induction rule: rtranclp_induct)
  case base
  show ?case using wait_inv_init [OF assms(2)] by (auto simp: mutex_inv_def holds_def sync_init_def mutex_new_def)
next
  case (step s s')
  then show ?case using mutex_step_inv mx.step_inv by blast
qed

text \<open>
  C1. The sleeping mutex.  Whatever the interleaving of the threads that lock and unlock it, with timer ticks
  between any two steps: at most one thread is between \<open>lock\<close> and the store of \<open>drop\<close>, and the flag is set
  exactly while there is one.  No wake-up is lost: when the mutex is free and a thread waits, there is a thread that is about to
  wake a waiter or to try again, and it is running or in the run queue.
\<close>

theorem mutex_correct:
  assumes "sched_inv k" "(mutex_step P)\<^sup>*\<^sup>* (sync_init (mutex_new d) k) s"
  shows "(\<forall>i j. holds s i \<longrightarrow> holds s j \<longrightarrow> i = j) \<and> (is_locked (obj s) \<longleftrightarrow> (\<exists>i. holds s i)) \<and> sched_inv (kern s) \<and>
    (waiters s \<noteq> [] \<longrightarrow> \<not> is_locked (obj s) \<longrightarrow>
      (\<exists>i \<in> awake s. i \<in> runnable (kern s) \<or> current_task (sched (kern s)) = Some i))"
proof -
  from mutex_reach [OF assms(2,1)] have i: "mutex_inv s" "wait_inv mutex_tokens s" by auto
  show ?thesis using not_lost [OF i(2)] i unfolding mutex_inv_def by (auto simp: mutex_tokens_def wait_inv_def)
qed

lemma sample_executing: "executing sample_kernel 1"
  by (simp add: executing_def sample_sched sample_tasks sample_task_def)

theorem mutex_correct_witness:
  "\<exists>s. (mutex_step sample_pt)\<^sup>*\<^sup>* (sync_init (mutex_new (0::nat)) sample_kernel) s \<and> pcs s 1 = Inside \<and> is_locked (obj s) \<and>
     (\<forall>j. holds s j \<longrightarrow> j = 1)"
proof -
  let ?s0 = "sync_init (mutex_new (0::nat)) sample_kernel"
  let ?s1 = "?s0\<lparr>pcs := (pcs ?s0)(1 := Trying)\<rparr>"
  let ?s2 = "\<lparr>obj = (mutex_new 0)\<lparr>is_locked := True\<rparr>, waiters = [], pcs = (pcs ?s1)(1 := Inside), kern = sample_kernel\<rparr>"
  have "mutex_step sample_pt ?s0 ?s1" using sample_executing by (intro sync_begin) (simp_all add: sync_init_def)
  moreover have "mutex_step sample_pt ?s1 ?s2"
    using sync_turn [of ?s1 1 "\<lambda>_. lock_turn" False True "(mutex_new 0)\<lparr>is_locked := True\<rparr>" "[]" sample_kernel sample_pt unlock_store guard_move "\<lambda>_ _. False"]
    using sample_executing by (simp add: sync_init_def lock_turn_def mutex_new_def)
  ultimately have r: "(mutex_step sample_pt)\<^sup>*\<^sup>* ?s0 ?s2" by (rule rtranclp.rtrancl_into_rtrancl [OF r_into_rtranclp])
  have h: "holds ?s2 1" "pcs ?s2 1 = Inside" by (simp_all add: holds_def)
  from mutex_correct [OF sample_kernel_inv r] h r show ?thesis by blast
qed

section \<open>The mailbox\<close>

text \<open>With a record of the messages that were sent and received.\<close>

type_synonym 'a mail = "'a mailbox \<times> 'a list \<times> 'a list"

definition mail_turn :: "'a mail turn" where
  "mail_turn w x ws k = (case x of (b, sent, received) \<Rightarrow> do {
     (got, b, ws, k) \<leftarrow> receive_turn w b ws k;
     Some (got, (b, sent, received), ws, k) })"

definition mail_give :: "'a mail \<Rightarrow> 'a mail" where
  "mail_give x = (case x of (b, sent, received) \<Rightarrow> (send_release b, sent, received))"

definition mail_sent :: "'a mail \<Rightarrow> 'a mail \<Rightarrow> bool" where
  "mail_sent x y \<longleftrightarrow> (case x of (b, sent, received) \<Rightarrow> length (mb_queue b) + 1 < 2 ^ 64 \<and> (\<exists>m. y = (send_push m b, sent @ [m], received)))"

definition mail_move :: "'a mail \<Rightarrow> pc \<Rightarrow> 'a mail \<Rightarrow> pc \<Rightarrow> bool" where
  "mail_move x p y q \<longleftrightarrow> p = Out \<and> q = Giving \<and> mail_sent x y \<or>
     p = Inside \<and> q = Out \<and> (case x of (b, sent, received) \<Rightarrow>
       (case receive_pop b of (Some m, b) \<Rightarrow> y = (b, sent, received @ [m]) | (None, b) \<Rightarrow> y = (b, sent, received)))"

abbreviation mail_step :: "pt_ops \<Rightarrow> 'a mail sync \<Rightarrow> 'a mail sync \<Rightarrow> bool" where
  "mail_step P \<equiv> sync_step P mail_turn mail_give mail_move mail_sent"

definition mail_tokens :: "'a mail \<Rightarrow> nat" where
  "mail_tokens x = mb_available (fst x)"

lemma mail_turn_eq:
  "mail_turn w (b, snt, rcv) ws k =
     (if mb_available b > 0 then (if w then Some (False, (b, snt, rcv), ws, k) else Some (True, (b\<lparr>mb_available := mb_available b - 1\<rparr>, snt, rcv), ws, k))
      else do { (ws, k) \<leftarrow> block_current ws k; Some (False, (b, snt, rcv), ws, k) })"
proof (cases "mb_available b > 0")
  case False
  then have e: "b\<lparr>mb_available := 0\<rparr> = b" by (cases b) simp
  from False show ?thesis by (simp add: mail_turn_def receive_turn_def acquire_turn_def split_def e)
qed (simp add: mail_turn_def receive_turn_def acquire_turn_def)

lemma mail_sent_tokens: "mail_sent x y \<Longrightarrow> mail_tokens y = mail_tokens x"
  by (auto simp: mail_sent_def mail_tokens_def send_push_def split: prod.splits)

interpretation ml: waitable mail_turn mail_give mail_move mail_sent mail_tokens
proof
  show "mail_tokens y = mail_tokens x \<and> \<not> in_op p \<and> q \<noteq> Trying \<and> q \<noteq> Waking" if "mail_move x p y q" for x y :: "'a mail" and p q
    using that mail_sent_tokens [of x y]
    by (auto simp: mail_move_def in_op_def mail_tokens_def receive_pop_def split: prod.splits option.splits list.splits)
  fix x y :: "'a mail" and w ws k got vs l
  obtain b snt rcv where x: "x = (b, snt, rcv)" by (cases x)
  show "vs = ws \<and> l = k \<and> (if got then mail_tokens y + 1 = mail_tokens x else y = x)" if "mail_tokens x > 0" "mail_turn w x ws k = Some (got, y, vs, l)"
    using that by (auto simp: x mail_turn_eq mail_tokens_def split: if_splits)
  show "\<not> got \<and> y = x \<and> block_current ws k = Some (vs, l)" if "mail_tokens x = 0" "mail_turn w x ws k = Some (got, y, vs, l)"
    using that by (auto simp: x mail_turn_eq mail_tokens_def bind_eq_Some_conv split: if_splits)
  show "mail_tokens (mail_give x) \<le> mail_tokens x + 1" by (simp add: x mail_tokens_def mail_give_def send_release_def release_add_def mod_less_eq_dividend)
qed (rule mail_sent_tokens)

text \<open>The threads at a place.\<close>

definition at_pc :: "pc \<Rightarrow> 's sync \<Rightarrow> nat" where
  "at_pc p s = card {i. pcs s i = p}"

lemma at_pc_upd:
  assumes "finite {i. f i \<noteq> Out}" "q \<noteq> Out"
  shows "card {j. (f(i := p)) j = q} + (if f i = q then 1 else 0) = card {j. f j = q} + (if p = q then 1 else 0)"
proof -
  let ?R = "{j. f j = q \<and> j \<noteq> i}"
  have f: "finite ?R" by (rule finite_subset [OF _ assms(1)]) (use assms(2) in auto)
  have "{j. (f(i := p)) j = q} = (if p = q then insert i ?R else ?R)" "{j. f j = q} = (if f i = q then insert i ?R else ?R)" by auto
  then show ?thesis using f by simp
qed

definition mail_inv :: "'a mail sync \<Rightarrow> bool" where
  "mail_inv s \<longleftrightarrow> (case obj s of (b, sent, received) \<Rightarrow> sent = received @ mb_queue b \<and> length (mb_queue b) < 2 ^ 64 \<and>
     length (mb_queue b) = mb_available b + at_pc Inside s + at_pc Giving s)"

lemma mail_step_inv:
  assumes "mail_step P s s'" "mail_inv s" "wait_inv mail_tokens s"
  shows "mail_inv s'"
proof -
  obtain b snt rcv where x: "obj s = (b, snt, rcv)" by (cases "obj s")
  have f: "finite {i. pcs s i \<noteq> Out}" using assms(3) awake_finite unfolding wait_inv_def by blast
  have up: "at_pc q (s1::'a mail sync) + (if pcs s i = q then 1 else 0) = at_pc q s + (if p = q then 1 else 0)"
    if "pcs s1 = (pcs s)(i := p)" "q \<noteq> Out" for s1 i p q unfolding at_pc_def that(1) by (rule at_pc_upd [OF f that(2)])
  have inv: "snt = rcv @ mb_queue b" "length (mb_queue b) < 2 ^ 64" "length (mb_queue b) = mb_available b + at_pc Inside s + at_pc Giving s"
    using assms(2) by (simp_all add: mail_inv_def x)
  from assms(1) show ?thesis
  proof cases
    case (sync_begin i)
    then show ?thesis using up [of s' i Trying Inside] up [of s' i Trying Giving] inv by (simp add: mail_inv_def x)
  next
    case (sync_turn i w got y ws k)
    then show ?thesis using up [of s' i Inside Inside] up [of s' i Inside Giving] inv
      by (auto simp: mail_inv_def x mail_turn_eq at_pc_def bind_eq_Some_conv split: if_splits)
  next
    case (sync_move i y p)
    then show ?thesis using up [of s' i p Inside] up [of s' i p Giving] inv
      by (auto simp: mail_inv_def x mail_move_def mail_sent_def send_push_def receive_pop_def split: list.splits)
  next
    case (sync_give i)
    then have o: "obj s' = mail_give (obj s)" "pcs s' = (pcs s)(i := Waking)" by simp_all
    have "at_pc Inside s' = at_pc Inside s" "at_pc Giving s' + 1 = at_pc Giving s" using up [OF o(2), of Inside] up [OF o(2), of Giving] sync_give(3) by simp_all
    then show ?thesis using inv by (simp add: mail_inv_def o(1) x mail_give_def send_release_def release_add_def)
  next
    case (sync_wake i r ws k)
    then show ?thesis using up [of s' i Out Inside] up [of s' i Out Giving] inv by (simp add: mail_inv_def x)
  next
    case (sync_isr y r ws k)
    then show ?thesis using inv by (auto simp: mail_inv_def x at_pc_def mail_sent_def send_push_def mail_give_def send_release_def release_add_def)
  qed (use inv in \<open>simp_all add: mail_inv_def x at_pc_def\<close>)
qed

lemma mail_reach:
  assumes "(mail_step P)\<^sup>*\<^sup>* (sync_init (mailbox_new, [], []) k) s" "sched_inv k"
  shows "mail_inv s \<and> wait_inv mail_tokens s"
  using assms(1)
proof (induction rule: rtranclp_induct)
  case base
  show ?case using wait_inv_init [OF assms(2)] by (auto simp: mail_inv_def at_pc_def sync_init_def mailbox_new_def)
next
  case (step s s')
  then show ?case using mail_step_inv ml.step_inv by blast
qed

text \<open>
  C1. The mailbox.  Whatever the interleaving of senders, receivers, interrupt handlers that send and timer ticks:
  the messages received are those sent, in order, except the ones that are still queued, so none is lost, duplicated or
  overtaken; a receiver that got past \<open>acquire\<close> finds a message; the counter never exceeds the number of
  messages; and when the counter is positive and a receiver sleeps, there is a thread that is about to
  wake a receiver or to try again, and it is running or in the run queue.
\<close>

theorem mailbox_correct:
  assumes "sched_inv k" "(mail_step P)\<^sup>*\<^sup>* (sync_init (mailbox_new, [], []) k) s" "obj s = (b, sent, received)"
  shows "sent = received @ mb_queue b \<and> (\<forall>i. pcs s i = Inside \<longrightarrow> mb_queue b \<noteq> []) \<and> mb_available b \<le> length (mb_queue b) \<and> sched_inv (kern s) \<and>
    (waiters s \<noteq> [] \<longrightarrow> mb_available b > 0 \<longrightarrow>
      (\<exists>i \<in> awake s. i \<in> runnable (kern s) \<or> current_task (sched (kern s)) = Some i))"
proof -
  from mail_reach [OF assms(2,1)] have i: "mail_inv s" "wait_inv mail_tokens s" by auto
  have "finite {i. pcs s i \<noteq> Out}" using i(2) awake_finite unfolding wait_inv_def by blast
  then have "finite {i. pcs s i = Inside}" by (rule finite_subset [rotated]) auto
  then have "at_pc Inside s > 0" if "pcs s i = Inside" for i using that unfolding at_pc_def by (auto simp: card_gt_0_iff)
  then show ?thesis using not_lost [OF i(2)] i assms(3) by (auto simp: mail_inv_def mail_tokens_def wait_inv_def)
qed

theorem mailbox_correct_witness:
  "\<exists>s b. (mail_step sample_pt)\<^sup>*\<^sup>* (sync_init (mailbox_new, [], []) sample_kernel) s \<and> obj s = (b, [7::nat], []) \<and> mb_queue b = [7]"
proof -
  let ?s0 = "sync_init (mailbox_new, [], []) sample_kernel :: nat mail sync"
  let ?b = "send_push (7::nat) mailbox_new"
  let ?s1 = "?s0\<lparr>obj := (?b, [7], [] :: nat list), pcs := (pcs ?s0)(1 := Giving)\<rparr>"
  have "mail_move (obj ?s0) (pcs ?s0 1) (?b, [7], [] :: nat list) Giving" by (simp add: mail_move_def mail_sent_def sync_init_def mailbox_new_def)
  then have "mail_step sample_pt ?s0 ?s1" using sample_executing by (intro sync_move) (simp_all add: sync_init_def)
  then have r: "(mail_step sample_pt)\<^sup>*\<^sup>* ?s0 ?s1" by blast
  have o: "obj ?s1 = (?b, [7], [] :: nat list)" by simp
  from mailbox_correct [OF sample_kernel_inv r o] have "[7] = ([] :: nat list) @ mb_queue ?b" by blast
  then show ?thesis using r o by auto
qed

end
