(* ===== verification/Spec2Isabelle.thy ===== *)
theory Spec2Isabelle
  imports Frames_Props Ring_Buffer Heap Locks Paging_Props Console Tar Arena Boot Rbtree_Props Sync
begin

text \<open>
  A model of the kernel-r operating-system kernel and the theorems that make it correct.
\<close>

end
